theory Spec2Isabelle
  imports Complex_Main "HOL-Library.Signed_Division" "HOL-Library.Multiset"
begin

section \<open>Scalars and device memory\<close>

text \<open>
  The kernels of \<^verbatim>\<open>pppm_gpu_kernel.cu\<close> are embedded over exact arithmetic: the
  floating type \<^verbatim>\<open>numtyp\<close> is the rationals, so that accumulation is exact. The
  atomic add is also embedded over floating values that may be a NaN, see below. Values
  of type \<^verbatim>\<open>int\<close> are unbounded integers; the only narrowing operation the source
  names, \<^verbatim>\<open>__mul24\<close>, is modelled with its truncation. Global arrays are stores
  from offsets to values.
\<close>

type_synonym numtyp = rat

record numtyp4 =
  p_x :: numtyp
  p_y :: numtyp
  p_z :: numtyp
  p_w :: numtyp

text \<open>The conversion \<^verbatim>\<open>int(t)\<close> of a floating value truncates towards zero.\<close>

definition int_cast :: "numtyp \<Rightarrow> int" where
  "int_cast t = (if 0 \<le> t then \<lfloor>t\<rfloor> else \<lceil>t\<rceil>)"

text \<open>
  \<^verbatim>\<open>__mul24(a,b)\<close>: the low 32 bits of the product of the low 24 bits of
  \<^verbatim>\<open>a\<close> and \<^verbatim>\<open>b\<close>, both read as signed.
\<close>

definition mul24 :: "int \<Rightarrow> int \<Rightarrow> int" where
  "mul24 a b = signed_take_bit 31 (signed_take_bit 23 a * signed_take_bit 23 b)"

text \<open>
  The scalar arguments of the kernels, under the names the kernels give them;
  \<open>nthreads\<close> is \<^verbatim>\<open>GLOBAL_SIZE_X\<close>. The last two fields are the extent of a group
  of workers, \<^verbatim>\<open>BLOCK_SIZE_X\<close> and \<^verbatim>\<open>BLOCK_SIZE_Y\<close>, which the launch fixes.
\<close>

record kargs =
  nthreads :: int
  nlocal :: int
  b_lo_x :: numtyp
  b_lo_y :: numtyp
  b_lo_z :: numtyp
  delxinv :: numtyp
  delyinv :: numtyp
  delzinv :: numtyp
  nlocal_x :: int
  nlocal_y :: int
  nlocal_z :: int
  atom_stride :: int
  max_atoms :: int
  skip :: int
  npts_x :: int
  npts_yx :: int
  npts_z :: int
  x_threads :: int
  order :: int
  order2 :: int
  order_m_1 :: int
  delvolinv :: numtyp
  bsize_x :: int
  bsize_y :: int

text \<open>
  The device buffers, under the names of the host class \<^verbatim>\<open>PPPMGPUMemory\<close>:
  positions and charges (\<^verbatim>\<open>x_\<close>, \<^verbatim>\<open>q_\<close>), the per-cell counters
  (\<^verbatim>\<open>counts\<close>), the per-cell atom lists (\<^verbatim>\<open>ans\<close> in the mapper,
  \<^verbatim>\<open>atoms\<close> in the spreaders), the brick, the coefficient table and the error
  flag. The last field is what the \<^verbatim>\<open>__local\<close> array \<^verbatim>\<open>rho_coeff\<close> of each
  group of workers of \<^verbatim>\<open>make_rho\<close> and \<^verbatim>\<open>make_rho3\<close> holds when the kernel
  starts, before any worker has written it.
\<close>

record dev =
  dev_x :: "int \<Rightarrow> numtyp4"
  dev_q :: "int \<Rightarrow> numtyp"
  d_brick_counts :: "int \<Rightarrow> int"
  d_brick_atoms :: "int \<Rightarrow> int"
  d_brick :: "int \<Rightarrow> numtyp"
  d_rho_coeff :: "int \<Rightarrow> numtyp"
  d_error_flag :: int
  local_rho_coeff :: "int \<times> int \<Rightarrow> int \<Rightarrow> numtyp"

section \<open>Atomic primitives\<close>

text \<open>
  A floating value as the atomic add meets it: a number or a NaN. The bit pattern of a
  value is the value itself, so \<^verbatim>\<open>__float_as_int\<close> and its relatives are the
  identity and two patterns are equal when the values are; the two zeros and the
  payloads of the NaNs are not told apart.
\<close>

datatype fval = Num numtyp | NaN

text \<open>The sum of two floating values.\<close>

definition fadd :: "fval \<Rightarrow> fval \<Rightarrow> fval" where
  "fadd u v = (case u of Num x \<Rightarrow> (case v of Num y \<Rightarrow> Num (x + y) | NaN \<Rightarrow> NaN) | NaN \<Rightarrow> NaN)"

text \<open>
  The comparison \<^verbatim>\<open>!=\<close> of two floating values: a NaN differs from every value,
  itself included.
\<close>

definition fne :: "fval \<Rightarrow> fval \<Rightarrow> bool" where
  "fne u v = (case u of Num x \<Rightarrow> (case v of Num y \<Rightarrow> x \<noteq> y | NaN \<Rightarrow> True) | NaN \<Rightarrow> True)"

text \<open>
  \<^verbatim>\<open>atomicCAS(address, compare, val)\<close> returns the old content and stores
  \<^verbatim>\<open>val\<close> when the pattern of the old content is the pattern \<^verbatim>\<open>compare\<close>. No
  other writer runs between two operations of one call of the atomic add.
\<close>

definition atomicCAS :: "(int \<Rightarrow> 'v) \<Rightarrow> int \<Rightarrow> 'v \<Rightarrow> 'v \<Rightarrow> 'v \<times> (int \<Rightarrow> 'v)" where
  "atomicCAS mem address compare val =
     (let old = mem address
      in (old, if old = compare then mem(address := val) else mem))"

datatype ('s, 'm) loop_step = Again 's | Exit 'm

text \<open>
  The float variant, lines 85 to 96. One iteration of
  \<^verbatim>\<open>while ((tmp1=atomicCAS(address,tmp0,i_val)) != tmp0) { tmp0=tmp1; i_val=val+tmp1; }\<close>
  on the loop state \<open>(mem, tmp0, i_val)\<close>; \<^verbatim>\<open>tmp0\<close> and \<^verbatim>\<open>tmp1\<close> are
  \<^verbatim>\<open>int\<close>, so the test compares patterns. The addition is a parameter: the sum of
  floating values, or the sum of exact numbers in the spreading kernels.
\<close>

definition float_iter ::
  "('v \<Rightarrow> 'v \<Rightarrow> 'v) \<Rightarrow> int \<Rightarrow> 'v \<Rightarrow> (int \<Rightarrow> 'v) \<times> 'v \<times> 'v
     \<Rightarrow> ((int \<Rightarrow> 'v) \<times> 'v \<times> 'v, int \<Rightarrow> 'v) loop_step" where
  "float_iter add address val st =
     (case st of (mem, tmp0, i_val) \<Rightarrow>
        (case atomicCAS mem address tmp0 i_val of (tmp1, mem') \<Rightarrow>
           if tmp1 \<noteq> tmp0 then Again (mem', tmp1, add val tmp1) else Exit mem'))"

function float_loop ::
  "('v \<Rightarrow> 'v \<Rightarrow> 'v) \<Rightarrow> int \<Rightarrow> 'v \<Rightarrow> (int \<Rightarrow> 'v) \<times> 'v \<times> 'v \<Rightarrow> (int \<Rightarrow> 'v)" where
  "float_loop add address val st =
     (case float_iter add address val st of
        Again st' \<Rightarrow> float_loop add address val st'
      | Exit mem' \<Rightarrow> mem')"
  by pat_completeness auto
termination
  by (relation "measure (\<lambda>(add, address, val, (mem, tmp0, i_val)).
                  if mem address = tmp0 then 0 else 1)")
     (auto simp: float_iter_def atomicCAS_def Let_def split: if_splits)

text \<open>The float variant on floating values.\<close>

definition atomicFloatAdd_float :: "(int \<Rightarrow> fval) \<Rightarrow> int \<Rightarrow> fval \<Rightarrow> (int \<Rightarrow> fval)" where
  "atomicFloatAdd_float mem address val = float_loop fadd address val (mem, Num 0, val)"

text \<open>The float variant as the spreading kernels below use it, on a brick of exact numbers.\<close>

definition atomicFloatAdd :: "(int \<Rightarrow> numtyp) \<Rightarrow> int \<Rightarrow> numtyp \<Rightarrow> (int \<Rightarrow> numtyp)" where
  "atomicFloatAdd mem address val = float_loop (+) address val (mem, 0, val)"

text \<open>
  The double variant, lines 64 to 73. One iteration of
  \<^verbatim>\<open>do { assumed=old; old=atomicCAS(address,assumed,val+assumed); } while (assumed != old);\<close>
  on the loop state \<open>(mem, old)\<close>; \<^verbatim>\<open>assumed\<close> and \<^verbatim>\<open>old\<close> are
  \<^verbatim>\<open>double\<close>, so the test compares floating values, while \<^verbatim>\<open>atomicCAS\<close>
  compares patterns.
\<close>

definition double_iter ::
  "int \<Rightarrow> fval \<Rightarrow> (int \<Rightarrow> fval) \<times> fval \<Rightarrow> ((int \<Rightarrow> fval) \<times> fval, int \<Rightarrow> fval) loop_step" where
  "double_iter address val st =
     (case st of (mem, old) \<Rightarrow>
        (let assumed = old
         in case atomicCAS mem address assumed (fadd val assumed) of (old', mem') \<Rightarrow>
              if fne assumed old' then Again (mem', old') else Exit mem'))"

text \<open>
  The loop of the double variant need not end. It is run for at most \<open>n\<close> iterations;
  \<open>None\<close> is the loop that has not exited by then.
\<close>

primrec double_loop ::
  "nat \<Rightarrow> int \<Rightarrow> fval \<Rightarrow> (int \<Rightarrow> fval) \<times> fval \<Rightarrow> (int \<Rightarrow> fval) option" where
  "double_loop 0 address val st = None"
| "double_loop (Suc n) address val st =
     (case double_iter address val st of
        Again st' \<Rightarrow> double_loop n address val st'
      | Exit mem' \<Rightarrow> Some mem')"

definition atomicFloatAdd_double ::
  "nat \<Rightarrow> (int \<Rightarrow> fval) \<Rightarrow> int \<Rightarrow> fval \<Rightarrow> (int \<Rightarrow> fval) option" where
  "atomicFloatAdd_double n mem address val = double_loop n address val (mem, mem address)"

text \<open>\<^verbatim>\<open>atom_add(address, val)\<close> on the counters: returns the old content.\<close>

definition atom_add :: "(int \<Rightarrow> int) \<Rightarrow> int \<Rightarrow> int \<Rightarrow> int \<times> (int \<Rightarrow> int)" where
  "atom_add mem address val = (mem address, mem(address := mem address + val))"

section \<open>The particle mapper\<close>

text \<open>
  The resequencing of the atom indices, lines 130 to 133:
  \<^verbatim>\<open>ii=__mul24(ii,skip); ii-=int(ii/nthreads)*(nthreads-1);\<close>
  with the truncating division of C.
\<close>

definition resequence :: "int \<Rightarrow> int \<Rightarrow> int \<Rightarrow> int" where
  "resequence n sk gid = (let ii = mul24 gid sk in ii - (ii sdiv n) * (n - 1))"

text \<open>The fractional grid coordinates \<^verbatim>\<open>tx, ty, tz\<close> of a position.\<close>

definition frac_x :: "kargs \<Rightarrow> numtyp4 \<Rightarrow> numtyp" where
  "frac_x a p = (p_x p - b_lo_x a) * delxinv a"

definition frac_y :: "kargs \<Rightarrow> numtyp4 \<Rightarrow> numtyp" where
  "frac_y a p = (p_y p - b_lo_y a) * delyinv a"

definition frac_z :: "kargs \<Rightarrow> numtyp4 \<Rightarrow> numtyp" where
  "frac_z a p = (p_z p - b_lo_z a) * delzinv a"

text \<open>The test of lines 148 and 390.\<close>

definition out_of_domain :: "kargs \<Rightarrow> numtyp4 \<Rightarrow> bool" where
  "out_of_domain a p =
     (frac_x a p < 0 \<or> frac_y a p < 0 \<or> frac_z a p < 0 \<or>
      int_cast (frac_x a p) \<ge> nlocal_x a \<or>
      int_cast (frac_y a p) \<ge> nlocal_y a \<or>
      int_cast (frac_z a p) \<ge> nlocal_z a)"

text \<open>The cell offset of line 151.\<close>

definition cell_index :: "kargs \<Rightarrow> numtyp4 \<Rightarrow> int" where
  "cell_index a p =
     int_cast (frac_z a p) * nlocal_y a * nlocal_x a
       + int_cast (frac_y a p) * nlocal_x a + int_cast (frac_x a p)"

text \<open>
  A worker of \<^verbatim>\<open>particle_map\<close> touches the shared counters, lists and flag in up to
  three steps, and the steps of other workers may fall between them. Where a worker
  stands: before line 128; after the \<^verbatim>\<open>atom_add\<close> of line 152, holding the cell
  \<^verbatim>\<open>i\<close>, the particle \<^verbatim>\<open>ii\<close> and the value \<^verbatim>\<open>old\<close> it has read; after the
  store of line 154, with the decrement of line 155 still to do; or returned, through
  the decrement, through the store of line 157, through the store of line 149, or
  without a particle.
\<close>

datatype pm_pc = Start | Reserved int int int | Undo int | Refused | Stored | Flagged | Idle

text \<open>
  One step of the worker with global id \<open>gid\<close>: its local computation up to and
  including its next access to the shared arrays. The positions are not written by the
  kernel. A worker that has returned takes no step.
\<close>

definition pm_step :: "kargs \<Rightarrow> int \<Rightarrow> dev \<times> (int \<Rightarrow> pm_pc) \<Rightarrow> dev \<times> (int \<Rightarrow> pm_pc)" where
  "pm_step a gid conf =
     (case conf of (s, pc) \<Rightarrow>
        (case pc gid of
           Start \<Rightarrow>
             (let ii = resequence (nthreads a) (skip a) gid
              in if ii < nlocal a then
                   (let p = dev_x s ii
                    in if out_of_domain a p then (s\<lparr>d_error_flag := 1\<rparr>, pc(gid := Flagged))
                       else
                         (let i = cell_index a p;
                              (old, counts1) = atom_add (d_brick_counts s) i 1
                          in (s\<lparr>d_brick_counts := counts1\<rparr>, pc(gid := Reserved i ii old))))
                 else (s, pc(gid := Idle)))
         | Reserved i ii old \<Rightarrow>
             if old = max_atoms a then (s\<lparr>d_error_flag := 2\<rparr>, pc(gid := Undo i))
             else (s\<lparr>d_brick_atoms := (d_brick_atoms s)(atom_stride a * old + i := ii)\<rparr>,
                   pc(gid := Stored))
         | Undo i \<Rightarrow>
             (s\<lparr>d_brick_counts := snd (atom_add (d_brick_counts s) i (- 1))\<rparr>, pc(gid := Refused))
         | Refused \<Rightarrow> (s, pc)
         | Stored \<Rightarrow> (s, pc)
         | Flagged \<Rightarrow> (s, pc)
         | Idle \<Rightarrow> (s, pc)))"

text \<open>
  A run of the mapper under a schedule: the list of the workers in the order in which
  they take their steps. Every worker starts before line 128.
\<close>

definition pm_init :: "dev \<Rightarrow> dev \<times> (int \<Rightarrow> pm_pc)" where
  "pm_init s = (s, \<lambda>gid. Start)"

definition pm_run :: "kargs \<Rightarrow> int list \<Rightarrow> dev \<times> (int \<Rightarrow> pm_pc) \<Rightarrow> dev \<times> (int \<Rightarrow> pm_pc)" where
  "pm_run a sched conf = fold (pm_step a) sched conf"

text \<open>The worker has returned.\<close>

definition pm_done :: "pm_pc \<Rightarrow> bool" where
  "pm_done p = (case p of Start \<Rightarrow> False | Reserved i ii old \<Rightarrow> False | Undo i \<Rightarrow> False
                | Refused \<Rightarrow> True | Stored \<Rightarrow> True | Flagged \<Rightarrow> True | Idle \<Rightarrow> True)"

text \<open>
  One worker of \<^verbatim>\<open>particle_map\<close>, with global id \<open>gid\<close>, run from line 128 to its
  return with no step of another worker in between.
\<close>

definition particle_map :: "kargs \<Rightarrow> int \<Rightarrow> dev \<Rightarrow> dev" where
  "particle_map a gid s = fst (pm_step a gid (pm_step a gid (pm_step a gid (pm_init s))))"

text \<open>
  A pass of the mapper in which the workers run one after the other, in the order
  \<open>ws\<close>: one of the schedules of \<open>pm_run\<close>.
\<close>

definition particle_map_pass :: "kargs \<Rightarrow> int list \<Rightarrow> dev \<Rightarrow> dev" where
  "particle_map_pass a ws s = fold (particle_map a) ws s"

section \<open>Charge assignment\<close>

text \<open>
  Horner's scheme over one column of the coefficient table,
  \<^verbatim>\<open>for (l=order2+k; l>=k; l-=order) r=rho_coeff[l]+r*d;\<close>.
  The loop is entered only inside a loop \<^verbatim>\<open>for (k=0; k<order; k++)\<close>, where
  \<open>0 < order\<close>.
\<close>

function horner :: "(int \<Rightarrow> numtyp) \<Rightarrow> int \<Rightarrow> int \<Rightarrow> numtyp \<Rightarrow> int \<Rightarrow> numtyp \<Rightarrow> numtyp" where
  "horner c ord k d l r =
     (if 0 < ord \<and> k \<le> l then horner c ord k d (l - ord) (c l + r * d) else r)"
  by pat_completeness auto
termination
  by (relation "measure (\<lambda>(c, ord, k, d, l, r). nat (l - k + 1))") auto

text \<open>
  Lines 209 to 216: the weights \<^verbatim>\<open>rho1d[0][k]\<close> (in \<open>dx\<close>) and
  \<^verbatim>\<open>rho1d[1][k]\<close> (in \<open>dy\<close>) for \<open>k < order\<close>.
\<close>

function rho1d_fill ::
  "kargs \<Rightarrow> (int \<Rightarrow> numtyp) \<Rightarrow> numtyp \<Rightarrow> numtyp \<Rightarrow> int
     \<Rightarrow> (int \<Rightarrow> numtyp) \<times> (int \<Rightarrow> numtyp) \<Rightarrow> (int \<Rightarrow> numtyp) \<times> (int \<Rightarrow> numtyp)" where
  "rho1d_fill a c dx dy k rho1d =
     (if k < order a then
        rho1d_fill a c dx dy (k + 1)
          ((fst rho1d)(k := horner c (order a) k dx (order2 a + k) 0),
           (snd rho1d)(k := horner c (order a) k dy (order2 a + k) 0))
      else rho1d)"
  by pat_completeness auto
termination
  by (relation "measure (\<lambda>(a, c, dx, dy, k, rho1d). nat (order a - k))") auto

text \<open>Lines 227 to 229: the innermost loop over \<open>l\<close>.\<close>

function l_loop ::
  "kargs \<Rightarrow> (int \<Rightarrow> numtyp) \<Rightarrow> numtyp \<Rightarrow> int \<Rightarrow> int \<Rightarrow> (int \<Rightarrow> numtyp) \<Rightarrow> (int \<Rightarrow> numtyp)" where
  "l_loop a rho0 x0 my l brick =
     (if l < order a then
        l_loop a rho0 x0 my (l + 1) (atomicFloatAdd brick (my + l) (x0 * rho0 l))
      else brick)"
  by pat_completeness auto
termination
  by (relation "measure (\<lambda>(a, rho0, x0, my, l, brick). nat (order a - l))") auto

text \<open>Lines 225 to 231: the loop over \<open>m\<close>, with \<^verbatim>\<open>my+=npts_x\<close>.\<close>

function m_loop ::
  "kargs \<Rightarrow> (int \<Rightarrow> numtyp) \<Rightarrow> (int \<Rightarrow> numtyp) \<Rightarrow> numtyp \<Rightarrow> int \<Rightarrow> int
     \<Rightarrow> (int \<Rightarrow> numtyp) \<Rightarrow> (int \<Rightarrow> numtyp)" where
  "m_loop a rho0 rho1 y0 my m brick =
     (if m < order a then
        m_loop a rho0 rho1 y0 (my + npts_x a) (m + 1) (l_loop a rho0 (y0 * rho1 m) my 0 brick)
      else brick)"
  by pat_completeness auto
termination
  by (relation "measure (\<lambda>(a, rho0, rho1, y0, my, m, brick). nat (order a - m))") auto

text \<open>Lines 219 to 233: the loop over \<open>n\<close>, with \<^verbatim>\<open>mz+=npts_yx\<close>.\<close>

function n_loop ::
  "kargs \<Rightarrow> (int \<Rightarrow> numtyp) \<Rightarrow> (int \<Rightarrow> numtyp) \<Rightarrow> (int \<Rightarrow> numtyp) \<Rightarrow> numtyp \<Rightarrow> numtyp
     \<Rightarrow> int \<Rightarrow> int \<Rightarrow> int \<Rightarrow> (int \<Rightarrow> numtyp) \<Rightarrow> (int \<Rightarrow> numtyp)" where
  "n_loop a c rho0 rho1 z0 dz ny mz n brick =
     (if n < order a then
        n_loop a c rho0 rho1 z0 dz ny (mz + npts_yx a) (n + 1)
          (m_loop a rho0 rho1 (z0 * horner c (order a) n dz (order2 a + n) 0)
             (mz + mul24 ny (npts_x a)) 0 brick)
      else brick)"
  by pat_completeness auto
termination
  by (relation "measure (\<lambda>(a, c, rho0, rho1, z0, dz, ny, mz, n, brick). nat (order a - n))") auto

text \<open>
  Lines 208 to 233 of \<^verbatim>\<open>make_rho\<close>, which are lines 399 to 424 of
  \<^verbatim>\<open>make_rho3\<close>: the deposit of one particle with scaled charge \<open>z0\<close> and offsets
  \<open>dx, dy, dz\<close>, from the cell \<open>(nx, ny, nz)\<close>, with the coefficients \<open>c\<close>.
\<close>

definition spread ::
  "kargs \<Rightarrow> (int \<Rightarrow> numtyp) \<Rightarrow> numtyp \<Rightarrow> numtyp \<Rightarrow> numtyp \<Rightarrow> numtyp \<Rightarrow> int \<Rightarrow> int \<Rightarrow> int
     \<Rightarrow> (int \<Rightarrow> numtyp) \<Rightarrow> (int \<Rightarrow> numtyp)" where
  "spread a c z0 dx dy dz nx ny nz brick =
     (let rho1d = rho1d_fill a c dx dy 0 (\<lambda>k. 0, \<lambda>k. 0);
          mz = mul24 nz (npts_yx a) + nx
      in n_loop a c (fst rho1d) (snd rho1d) z0 dz ny mz 0 brick)"

subsection \<open>Strategy 3: one worker per particle, resequenced\<close>

text \<open>
  Lines 364 to 368: the copy of the coefficient table of the group \<open>blk\<close> after the
  barrier. Worker \<open>tx\<close> of the group copies entry \<open>tx\<close> when \<open>tx < order2 + order\<close>;
  an entry no worker copies holds what the array held before.
\<close>

definition rho_coeff3 :: "kargs \<Rightarrow> dev \<Rightarrow> int \<Rightarrow> (int \<Rightarrow> numtyp)" where
  "rho_coeff3 a s blk =
     fold (\<lambda>tx rc. if tx < order2 a + order a then rc(tx := d_rho_coeff s tx) else rc)
       [0..bsize_x a - 1] (local_rho_coeff s (blk, 0))"

text \<open>
  One worker of \<^verbatim>\<open>make_rho3\<close>, with global id \<open>gid\<close>, after the barrier of line 368;
  its group is \<open>gid div bsize_x\<close>.
\<close>

definition make_rho3 :: "kargs \<Rightarrow> int \<Rightarrow> dev \<Rightarrow> dev" where
  "make_rho3 a gid s =
     (let rho_coeff = rho_coeff3 a s (gid div bsize_x a);
          ii = resequence (nthreads a) (skip a) gid
      in if ii < nlocal a then
           (let p = dev_x s ii;
                tx = frac_x a p; nx = int_cast tx;
                ty = frac_y a p; ny = int_cast ty;
                tz = frac_z a p; nz = int_cast tz
            in if out_of_domain a p then s\<lparr>d_error_flag := 1\<rparr>
               else
                 (let z0 = delvolinv a * dev_q s ii;
                      dx = of_int nx + 1 / 2 - tx;
                      dy = of_int ny + 1 / 2 - ty;
                      dz = of_int nz + 1 / 2 - tz
                  in s\<lparr>d_brick := spread a rho_coeff z0 dx dy dz nx ny nz (d_brick s)\<rparr>))
         else s)"

definition make_rho3_pass :: "kargs \<Rightarrow> int list \<Rightarrow> dev \<Rightarrow> dev" where
  "make_rho3_pass a ws s = fold (make_rho3 a) ws s"

subsection \<open>Strategy 1: one worker per column of cells, over the atom lists\<close>

text \<open>
  Lines 175 to 181: the copy of the coefficient table of the group \<open>blk\<close> after the
  barrier. Worker \<open>(tx, ty)\<close> of the group copies the entry \<^verbatim>\<open>__mul24(tx,order)+ty\<close>
  when \<open>tx < order\<close> and \<open>ty < order\<close>; an entry no worker copies holds what the array
  held before.
\<close>

definition rho_coeff1 :: "kargs \<Rightarrow> dev \<Rightarrow> int \<times> int \<Rightarrow> (int \<Rightarrow> numtyp)" where
  "rho_coeff1 a s blk =
     fold (\<lambda>t rc. if fst t < order a \<and> snd t < order a
                   then rc(mul24 (fst t) (order a) + snd t :=
                             d_rho_coeff s (mul24 (fst t) (order a) + snd t))
                   else rc)
       (List.product [0..bsize_x a - 1] [0..bsize_y a - 1]) (local_rho_coeff s blk)"

text \<open>
  Lines 200 to 233: the body of the loop over the rows of one cell. The coefficients
  come from the table of the state \<open>s\<close>, which for \<^verbatim>\<open>make_rho\<close> below is the group's
  copy of the table.
\<close>

definition make_rho_atom :: "kargs \<Rightarrow> dev \<Rightarrow> int \<Rightarrow> int \<Rightarrow> int \<Rightarrow> int \<Rightarrow> int
     \<Rightarrow> (int \<Rightarrow> numtyp) \<Rightarrow> (int \<Rightarrow> numtyp)" where
  "make_rho_atom a s nx ny nz z_pos row brick =
     (let atom = d_brick_atoms s (mul24 (atom_stride a) row + z_pos);
          p = dev_x s atom;
          z0 = delvolinv a * dev_q s atom;
          dx = of_int nx - frac_x a p;
          dy = of_int ny - frac_y a p;
          dz = of_int nz - frac_z a p
      in spread a (d_rho_coeff s) z0 dx dy dz nx ny nz brick)"

function row_loop :: "kargs \<Rightarrow> dev \<Rightarrow> int \<Rightarrow> int \<Rightarrow> int \<Rightarrow> int \<Rightarrow> int \<Rightarrow> int
     \<Rightarrow> (int \<Rightarrow> numtyp) \<Rightarrow> (int \<Rightarrow> numtyp)" where
  "row_loop a s nx ny nz z_pos natoms row brick =
     (if row < natoms then
        row_loop a s nx ny nz z_pos natoms (row + 1) (make_rho_atom a s nx ny nz z_pos row brick)
      else brick)"
  by pat_completeness auto
termination
  by (relation "measure (\<lambda>(a, s, nx, ny, nz, z_pos, natoms, row, brick). nat (natoms - row))")
     auto

text \<open>Lines 197 to 236: the loop over the cells of the z-block, with \<^verbatim>\<open>z_pos+=z_stride\<close>.\<close>

function z_loop :: "kargs \<Rightarrow> dev \<Rightarrow> int \<Rightarrow> int \<Rightarrow> int \<Rightarrow> int \<Rightarrow> int \<Rightarrow> int
     \<Rightarrow> (int \<Rightarrow> numtyp) \<Rightarrow> (int \<Rightarrow> numtyp)" where
  "z_loop a s nx ny z_stride z_stop nz z_pos brick =
     (if nz < z_stop then
        z_loop a s nx ny z_stride z_stop (nz + 1) (z_pos + z_stride)
          (row_loop a s nx ny nz z_pos (d_brick_counts s z_pos) 0 brick)
      else brick)"
  by pat_completeness auto
termination
  by (relation "measure (\<lambda>(a, s, nx, ny, z_stride, z_stop, nz, z_pos, brick). nat (z_stop - nz))")
     auto

text \<open>
  One worker of \<^verbatim>\<open>make_rho\<close>, after the barrier of line 181; the components of \<open>g\<close>
  are its global ids, the values of \<^verbatim>\<open>nx\<close> and \<^verbatim>\<open>ny\<close> after lines 183 and 184,
  and its group is \<open>(fst g div bsize_x, snd g div bsize_y)\<close>. The loops read the
  coefficients from the copy, so they run on the device state whose table is the copy.
\<close>

definition make_rho :: "kargs \<Rightarrow> int \<times> int \<Rightarrow> dev \<Rightarrow> dev" where
  "make_rho a g s =
     (let rho_coeff = rho_coeff1 a s (fst g div bsize_x a, snd g div bsize_y a);
          z_block = fst g sdiv x_threads a;
          nx = fst g smod x_threads a;
          ny = snd g;
          nz = mul24 z_block 8;
          z_stop = (if nz + 8 > nlocal_z a then nlocal_z a else nz + 8)
      in if nx < nlocal_x a \<and> ny < nlocal_y a then
           (let z_stride = mul24 (nlocal_x a) (nlocal_y a);
                z_pos = mul24 nz z_stride + mul24 ny (nlocal_x a) + nx
            in s\<lparr>d_brick := z_loop a (s\<lparr>d_rho_coeff := rho_coeff\<rparr>) nx ny z_stride z_stop nz z_pos
                              (d_brick s)\<rparr>)
         else s)"

definition make_rho_pass :: "kargs \<Rightarrow> (int \<times> int) list \<Rightarrow> dev \<Rightarrow> dev" where
  "make_rho_pass a ws s = fold (make_rho a) ws s"

subsection \<open>Strategy 2: one group of workers per column of the brick, gathering\<close>

text \<open>
  The kernel \<^verbatim>\<open>make_rho2\<close> (lines 242 to 349). A group of \<^verbatim>\<open>BLOCK_1D\<close> workers owns the column
  \<open>(nx, ny)\<close> of the brick and walks it upwards, \<^verbatim>\<open>BLOCK_1D\<close> planes per iteration; worker
  \<open>tx\<close> gathers, for its plane, the particles of the cells within reach into \<open>order\<close>
  accumulators, and the accumulators of neighbouring workers are summed in the shared array
  \<^verbatim>\<open>front\<close> in phases separated by barriers. A phase is embedded as the workers run one
  after the other, which the barriers make sound as long as the workers of a phase touch
  distinct slots.
\<close>

text \<open>Line 22: the number of workers of a group of \<^verbatim>\<open>make_rho2\<close>; the shared array \<^verbatim>\<open>front\<close> has a slot per worker and a halo above them.\<close>

definition BLOCK_1D :: int where
  "BLOCK_1D = 64"

text \<open>The scalars shared by a group (lines 255 and 256); \<open>sh_nx\<close> and \<open>sh_ny\<close> are \<^verbatim>\<open>nx\<close> and \<^verbatim>\<open>ny\<close>, the column of the brick the group owns.\<close>

record shared2 =
  sh_nx :: int
  sh_ny :: int
  x_start :: int
  y_start :: int
  x_stop :: int
  y_stop :: int
  sh_z_stride :: int
  sh_z_local_stride :: int

text \<open>Lines 263 to 280, run by worker 0 of the group: the stencil offsets \<^verbatim>\<open>l\<close> and \<^verbatim>\<open>m\<close> are clipped to those whose cell is a local cell.\<close>

definition block_setup :: "kargs \<Rightarrow> int \<times> int \<Rightarrow> shared2" where
  "block_setup a blk =
     (let nx = fst blk; ny = snd blk
      in \<lparr>sh_nx = nx, sh_ny = ny,
          x_start = (if nx < order_m_1 a then order_m_1 a - nx else 0),
          y_start = (if ny < order_m_1 a then order_m_1 a - ny else 0),
          x_stop = (if nx \<ge> nlocal_x a then order a - (nx - nlocal_x a + 1) else order a),
          y_stop = (if ny \<ge> nlocal_y a then order a - (ny - nlocal_y a + 1) else order a),
          sh_z_stride = mul24 (npts_yx a) BLOCK_1D,
          sh_z_local_stride = mul24 (mul24 (nlocal_x a) (nlocal_y a)) BLOCK_1D\<rparr>)"

text \<open>Lines 314 to 317 for one of the two accumulators, \<^verbatim>\<open>for (k=order2+order-1; k > -1; k-=order) r=rho_coeff[k-off]+r*d;\<close>. The loop is entered only for a stencil offset between \<^verbatim>\<open>x_start\<close> and \<^verbatim>\<open>x_stop\<close>, which lie between 0 and \<^verbatim>\<open>order\<close>, hence with \<open>0 < order\<close>.\<close>

function horner2 :: "(int \<Rightarrow> numtyp) \<Rightarrow> int \<Rightarrow> int \<Rightarrow> numtyp \<Rightarrow> int \<Rightarrow> numtyp \<Rightarrow> numtyp" where
  "horner2 c ord off d k r =
     (if 0 < ord \<and> k > - 1 then horner2 c ord off d (k - ord) (c (k - off) + r * d) else r)"
  by pat_completeness auto
termination
  by (relation "measure (\<lambda>(c, ord, off, d, k, r). nat (k + 1))") auto

text \<open>Lines 293 and 294: the accumulators of a worker are cleared.\<close>

function ans_zero :: "kargs \<Rightarrow> int \<Rightarrow> (int \<Rightarrow> numtyp) \<Rightarrow> (int \<Rightarrow> numtyp)" where
  "ans_zero a n ans = (if n < order a then ans_zero a (n + 1) (ans(n := 0)) else ans)"
  by pat_completeness auto
termination
  by (relation "measure (\<lambda>(a, n, ans). nat (order a - n))") auto

text \<open>Lines 320 to 325: the weights along z are computed as in \<^verbatim>\<open>make_rho\<close> and the particle is added to the \<open>order\<close> planes above its cell.\<close>

function ans_add ::
  "kargs \<Rightarrow> (int \<Rightarrow> numtyp) \<Rightarrow> numtyp \<Rightarrow> numtyp \<Rightarrow> int \<Rightarrow> (int \<Rightarrow> numtyp) \<Rightarrow> (int \<Rightarrow> numtyp)" where
  "ans_add a c z0 dz n ans =
     (if n < order a then
        ans_add a c z0 dz (n + 1) (ans(n := ans n + z0 * horner c (order a) n dz (order2 a + n) 0))
      else ans)"
  by pat_completeness auto
termination
  by (relation "measure (\<lambda>(a, c, z0, dz, n, ans). nat (order a - n))") auto

text \<open>Lines 304 to 325, the body of the row loop, for the cell \<open>(x_pos, y_pos, nz)\<close> and the stencil offsets \<open>l\<close> and \<open>m\<close>. The coefficients come from the table of the state \<open>s\<close>, which for \<^verbatim>\<open>make_rho2\<close> below is the group's copy of the table.\<close>

definition atom2 :: "kargs \<Rightarrow> dev \<Rightarrow> int \<Rightarrow> int \<Rightarrow> int \<Rightarrow> int \<Rightarrow> int \<Rightarrow> int
     \<Rightarrow> (int \<Rightarrow> numtyp) \<Rightarrow> (int \<Rightarrow> numtyp)" where
  "atom2 a s x_pos y_pos nz l m row ans =
     (let atom = d_brick_atoms s row;
          p = dev_x s atom;
          z0 = delvolinv a * dev_q s atom;
          dx = of_int x_pos - frac_x a p;
          dy = of_int y_pos - frac_y a p;
          dz = of_int nz - frac_z a p;
          rho1d_1 = horner2 (d_rho_coeff s) (order a) m dy (order2 a + order a - 1) 0;
          rho1d_0 = horner2 (d_rho_coeff s) (order a) l dx (order2 a + order a - 1) 0;
          z0 = z0 * (rho1d_1 * rho1d_0)
      in ans_add a (d_rho_coeff s) z0 dz 0 ans)"

text \<open>Line 303, \<^verbatim>\<open>for (row=pos; row<natoms; row+=atom_stride)\<close>: the loop walks the slots of one cell. With a stride that is not positive it does not end, which is the value \<open>None\<close>.\<close>

function row2_loop :: "kargs \<Rightarrow> dev \<Rightarrow> int \<Rightarrow> int \<Rightarrow> int \<Rightarrow> int \<Rightarrow> int \<Rightarrow> int \<Rightarrow> int
     \<Rightarrow> (int \<Rightarrow> numtyp) \<Rightarrow> (int \<Rightarrow> numtyp) option" where
  "row2_loop a s x_pos y_pos nz l m natoms row ans =
     (if row < natoms then
        (if atom_stride a \<le> 0 then None
         else row2_loop a s x_pos y_pos nz l m natoms (row + atom_stride a)
                (atom2 a s x_pos y_pos nz l m row ans))
      else Some ans)"
  by pat_completeness auto
termination
  by (relation "measure (\<lambda>(a, s, x_pos, y_pos, nz, l, m, natoms, row, ans). nat (natoms - row))")
     auto

text \<open>Lines 299 to 327: the cells of one row of the stencil.\<close>

function l2_loop :: "kargs \<Rightarrow> dev \<Rightarrow> shared2 \<Rightarrow> int \<Rightarrow> int \<Rightarrow> int \<Rightarrow> int \<Rightarrow> int \<Rightarrow> int
     \<Rightarrow> (int \<Rightarrow> numtyp) \<Rightarrow> (int \<Rightarrow> numtyp) option" where
  "l2_loop a s sh nz z_local y_pos y_local m l ans =
     (if l < x_stop sh then
        (let x_pos = sh_nx sh + l - order_m_1 a;
             pos = z_local + y_local + x_pos;
             natoms = mul24 (d_brick_counts s pos) (atom_stride a)
         in case row2_loop a s x_pos y_pos nz l m natoms pos ans of
              None \<Rightarrow> None
            | Some ans' \<Rightarrow> l2_loop a s sh nz z_local y_pos y_local m (l + 1) ans')
      else Some ans)"
  by pat_completeness auto
termination
  by (relation "measure (\<lambda>(a, s, sh, nz, z_local, y_pos, y_local, m, l, ans). nat (x_stop sh - l))")
     auto

text \<open>Lines 296 to 328: the rows of the stencil.\<close>

function m2_loop :: "kargs \<Rightarrow> dev \<Rightarrow> shared2 \<Rightarrow> int \<Rightarrow> int \<Rightarrow> int
     \<Rightarrow> (int \<Rightarrow> numtyp) \<Rightarrow> (int \<Rightarrow> numtyp) option" where
  "m2_loop a s sh nz z_local m ans =
     (if m < y_stop sh then
        (let y_pos = sh_ny sh + m - order_m_1 a;
             y_local = mul24 y_pos (nlocal_x a)
         in case l2_loop a s sh nz z_local y_pos y_local m (x_start sh) ans of
              None \<Rightarrow> None
            | Some ans' \<Rightarrow> m2_loop a s sh nz z_local (m + 1) ans')
      else Some ans)"
  by pat_completeness auto
termination
  by (relation "measure (\<lambda>(a, s, sh, nz, z_local, m, ans). nat (y_stop sh - m))") auto

text \<open>Lines 293 to 329: what one worker gathers for its plane \<^verbatim>\<open>nz\<close>, into its accumulators.\<close>

definition gather :: "kargs \<Rightarrow> dev \<Rightarrow> shared2 \<Rightarrow> int \<Rightarrow> int \<Rightarrow> (int \<Rightarrow> numtyp)
     \<Rightarrow> (int \<Rightarrow> numtyp) option" where
  "gather a s sh nz z_local ans =
     (let ans = ans_zero a 0 ans
      in if nz < nlocal_z a then m2_loop a s sh nz z_local (y_start sh) ans else Some ans)"

text \<open>A group between two barriers: the registers \<^verbatim>\<open>nz\<close>, \<^verbatim>\<open>pt\<close>, \<^verbatim>\<open>z_local\<close> and \<^verbatim>\<open>ans\<close> of each worker, the shared array \<^verbatim>\<open>front\<close> and the brick.\<close>

record block_state =
  t_nz :: "int \<Rightarrow> int"
  t_pt :: "int \<Rightarrow> int"
  t_z_local :: "int \<Rightarrow> int"
  t_ans :: "int \<Rightarrow> int \<Rightarrow> numtyp"
  front :: "int \<Rightarrow> numtyp"
  brick :: "int \<Rightarrow> numtyp"

text \<open>The workers of a group: the kernel addresses \<^verbatim>\<open>front\<close> as if the group had \<^verbatim>\<open>BLOCK_1D\<close> of them.\<close>

definition threads :: "int list" where
  "threads = [0..BLOCK_1D - 1]"

text \<open>The phase before the barrier of line 331. A worker writes its own accumulators only, so the workers are run one after the other.\<close>

definition gather_all :: "kargs \<Rightarrow> dev \<Rightarrow> shared2 \<Rightarrow> block_state \<Rightarrow> block_state option" where
  "gather_all a s sh st =
     fold (\<lambda>tx r. case r of
                    None \<Rightarrow> None
                  | Some st' \<Rightarrow>
                      (case gather a s sh (t_nz st' tx) (t_z_local st' tx) (t_ans st' tx) of
                         None \<Rightarrow> None
                       | Some ans \<Rightarrow> Some (st'\<lparr>t_ans := (t_ans st')(tx := ans)\<rparr>)))
       threads (Some st)"

text \<open>Lines 332 to 336: a worker takes the carry of the previous iteration from the halo into its slot, or clears its slot.\<close>

definition shift_front :: "kargs \<Rightarrow> int \<Rightarrow> (int \<Rightarrow> numtyp) \<Rightarrow> (int \<Rightarrow> numtyp)" where
  "shift_front a tx fr =
     (if tx < order a then (fr(tx := fr (BLOCK_1D + tx)))(BLOCK_1D + tx := 0) else fr(tx := 0))"

text \<open>Line 339, \<^verbatim>\<open>front[tx+n]+=ans[n]\<close>.\<close>

definition add_front :: "int \<Rightarrow> int \<Rightarrow> (int \<Rightarrow> numtyp) \<Rightarrow> (int \<Rightarrow> numtyp) \<Rightarrow> (int \<Rightarrow> numtyp)" where
  "add_front tx n ans fr = fr(tx + n := fr (tx + n) + ans n)"

text \<open>Lines 332 to 339 up to the first barrier of line 340: worker \<open>tx\<close> touches the slots \<open>tx\<close> and \<open>BLOCK_1D + tx\<close> only, so the workers are run one after the other.\<close>

definition first_round :: "kargs \<Rightarrow> block_state \<Rightarrow> (int \<Rightarrow> numtyp)" where
  "first_round a st =
     fold (\<lambda>tx fr. let fr = shift_front a tx fr
                    in if 0 < order a then add_front tx 0 (t_ans st tx) fr else fr)
       threads (front st)"

text \<open>The rounds \<open>n, n + 1, \<dots>\<close> of lines 338 to 341, each closed by a barrier; within a round the workers add to distinct slots.\<close>

function rounds :: "kargs \<Rightarrow> block_state \<Rightarrow> int \<Rightarrow> (int \<Rightarrow> numtyp) \<Rightarrow> (int \<Rightarrow> numtyp)" where
  "rounds a st n fr =
     (if n < order a then
        rounds a st (n + 1) (fold (\<lambda>tx. add_front tx n (t_ans st tx)) threads fr)
      else fr)"
  by pat_completeness auto
termination
  by (relation "measure (\<lambda>(a, st, n, fr). nat (order a - n))") auto

text \<open>Lines 343 and 344: the finished planes are stored in the brick.\<close>

definition write_back :: "kargs \<Rightarrow> block_state \<Rightarrow> (int \<Rightarrow> numtyp)" where
  "write_back a st =
     fold (\<lambda>tx br. if t_nz st tx < npts_z a then br(t_pt st tx := front st tx) else br)
       threads (brick st)"

text \<open>One iteration of the loop of line 292, with lines 345 to 347.\<close>

definition block_iter :: "kargs \<Rightarrow> dev \<Rightarrow> shared2 \<Rightarrow> block_state \<Rightarrow> block_state option" where
  "block_iter a s sh st =
     (case gather_all a s sh st of
        None \<Rightarrow> None
      | Some st1 \<Rightarrow>
          (let st2 = st1\<lparr>front := rounds a st1 1 (first_round a st1)\<rparr>;
               st3 = st2\<lparr>brick := write_back a st2\<rparr>
           in Some (st3\<lparr>t_nz := (\<lambda>tx. t_nz st3 tx + BLOCK_1D),
                        t_pt := (\<lambda>tx. t_pt st3 tx + sh_z_stride sh),
                        t_z_local := (\<lambda>tx. t_z_local st3 tx + sh_z_local_stride sh)\<rparr>)))"

text \<open>The loop of line 292.\<close>

function block_loop ::
  "kargs \<Rightarrow> dev \<Rightarrow> shared2 \<Rightarrow> int \<Rightarrow> int \<Rightarrow> block_state \<Rightarrow> block_state option" where
  "block_loop a s sh loop_count i st =
     (if i < loop_count then
        (case block_iter a s sh st of
           None \<Rightarrow> None
         | Some st' \<Rightarrow> block_loop a s sh loop_count (i + 1) st')
      else Some st)"
  by pat_completeness auto
termination
  by (relation "measure (\<lambda>(a, s, sh, loop_count, i, st). nat (loop_count - i))") auto

text \<open>What the shared arrays \<^verbatim>\<open>rho_coeff\<close> and \<^verbatim>\<open>front\<close> and the local arrays \<^verbatim>\<open>ans\<close> hold before the kernel writes them.\<close>

record uninit =
  u_rho_coeff :: "int \<Rightarrow> numtyp"
  u_front :: "int \<Rightarrow> numtyp"
  u_ans :: "int \<Rightarrow> int \<Rightarrow> numtyp"

text \<open>The group of the column \<open>blk\<close> of the brick. Lines 260 and 261 copy the coefficient table, one entry per worker; lines 282 and 283 clear the halo; the loop then reads the coefficients from the copy, so it runs on the device state whose table is the copy.\<close>

definition make_rho2 :: "kargs \<Rightarrow> uninit \<Rightarrow> int \<times> int \<Rightarrow> dev \<Rightarrow> dev option" where
  "make_rho2 a u blk s =
     (let rho_coeff = fold (\<lambda>tx rc. if tx < order2 a + order a
                                     then rc(tx := d_rho_coeff s tx) else rc)
                        threads (u_rho_coeff u);
          sh = block_setup a blk;
          front0 = fold (\<lambda>tx fr. if tx < order a then fr(BLOCK_1D + tx := 0) else fr)
                     threads (u_front u);
          loop_count = npts_z a sdiv BLOCK_1D + 1;
          st0 = \<lparr>t_nz = (\<lambda>tx. tx),
                 t_pt = (\<lambda>tx. mul24 tx (npts_yx a) + mul24 (sh_ny sh) (npts_x a) + sh_nx sh),
                 t_z_local = (\<lambda>tx. mul24 (mul24 tx (nlocal_x a)) (nlocal_y a)),
                 t_ans = u_ans u, front = front0, brick = d_brick s\<rparr>
      in case block_loop a (s\<lparr>d_rho_coeff := rho_coeff\<rparr>) sh loop_count 0 st0 of
           None \<Rightarrow> None
         | Some st \<Rightarrow> Some (s\<lparr>d_brick := brick st\<rparr>))"

text \<open>A pass of \<^verbatim>\<open>make_rho2\<close>: the groups, one after the other. A group shares nothing with another group and stores into its own column.\<close>

definition make_rho2_pass ::
  "kargs \<Rightarrow> uninit \<Rightarrow> (int \<times> int) list \<Rightarrow> dev \<Rightarrow> dev option" where
  "make_rho2_pass a u blks s =
     fold (\<lambda>blk r. case r of None \<Rightarrow> None | Some s' \<Rightarrow> make_rho2 a u blk s') blks (Some s)"
section \<open>Notions used in the statements\<close>

text \<open>The particle a worker handles.\<close>

abbreviation atom_of :: "kargs \<Rightarrow> int \<Rightarrow> int" where
  "atom_of a gid \<equiv> resequence (nthreads a) (skip a) gid"

text \<open>Worker \<open>gid\<close> handles a particle below \<open>nlocal\<close> that lies in the local domain, in cell \<open>c\<close>.\<close>

definition lands_in :: "kargs \<Rightarrow> dev \<Rightarrow> int \<Rightarrow> int \<Rightarrow> bool" where
  "lands_in a s c gid =
     (atom_of a gid < nlocal a \<and> \<not> out_of_domain a (dev_x s (atom_of a gid)) \<and>
      cell_index a (dev_x s (atom_of a gid)) = c)"




text \<open>The worker found its cell full: it has written the code 2.\<close>

definition pm_overflowed :: "pm_pc \<Rightarrow> bool" where
  "pm_overflowed p =
     (case p of Start \<Rightarrow> False | Reserved i ii old \<Rightarrow> False | Undo i \<Rightarrow> True
      | Refused \<Rightarrow> True | Stored \<Rightarrow> False | Flagged \<Rightarrow> False | Idle \<Rightarrow> False)"

text \<open>What holds of every configuration a run reaches: the positions are those of the start; a worker between its steps holds its own particle and the cell of that particle; a worker returned through line 149 has a particle outside the domain, and a worker with such a particle is before line 128 or returned through line 149.\<close>

definition pm_sound :: "kargs \<Rightarrow> dev \<Rightarrow> dev \<times> (int \<Rightarrow> pm_pc) \<Rightarrow> bool" where
  "pm_sound a s conf =
     (dev_x (fst conf) = dev_x s \<and>
      (\<forall>w i ii old. snd conf w = Reserved i ii old \<longrightarrow> lands_in a s i w \<and> ii = atom_of a w) \<and>
      (\<forall>w i. snd conf w = Undo i \<longrightarrow> lands_in a s i w) \<and>
      (\<forall>w. snd conf w = Flagged \<longrightarrow>
         atom_of a w < nlocal a \<and> out_of_domain a (dev_x s (atom_of a w))) \<and>
      (\<forall>w. atom_of a w < nlocal a \<and> out_of_domain a (dev_x s (atom_of a w)) \<longrightarrow>
         snd conf w = Start \<or> snd conf w = Flagged))"

text \<open>Every slot of the atom lists holds what it held at the start, or a particle below \<open>nlocal\<close> that lies in the domain.\<close>

definition pm_lists :: "kargs \<Rightarrow> dev \<Rightarrow> dev \<times> (int \<Rightarrow> pm_pc) \<Rightarrow> bool" where
  "pm_lists a s conf =
     (\<forall>k. d_brick_atoms (fst conf) k = d_brick_atoms s k \<or>
          (d_brick_atoms (fst conf) k < nlocal a \<and>
           \<not> out_of_domain a (dev_x s (d_brick_atoms (fst conf) k))))"

text \<open>The flag along a run: 2 when some worker found its cell full and none wrote 1, 1 when some worker wrote 1 and none found its cell full, and 1 or 2 as soon as one of them wrote.\<close>

definition pm_flag :: "dev \<times> (int \<Rightarrow> pm_pc) \<Rightarrow> bool" where
  "pm_flag conf =
     (((\<exists>w. pm_overflowed (snd conf w)) \<and> (\<forall>w. snd conf w \<noteq> Flagged) \<longrightarrow>
         d_error_flag (fst conf) = 2) \<and>
      ((\<exists>w. snd conf w = Flagged) \<and> (\<forall>w. \<not> pm_overflowed (snd conf w)) \<longrightarrow>
         d_error_flag (fst conf) = 1) \<and>
      ((\<exists>w. snd conf w = Flagged \<or> pm_overflowed (snd conf w)) \<longrightarrow>
         d_error_flag (fst conf) = 1 \<or> d_error_flag (fst conf) = 2))"


text \<open>The steps a worker may still take.\<close>

definition pm_todo :: "pm_pc \<Rightarrow> nat" where
  "pm_todo p = (case p of Start \<Rightarrow> 3 | Reserved i ii old \<Rightarrow> 2 | Undo i \<Rightarrow> 1
                | Refused \<Rightarrow> 0 | Stored \<Rightarrow> 0 | Flagged \<Rightarrow> 0 | Idle \<Rightarrow> 0)"

text \<open>Every slot of a cell's list below its counter holds an in-domain particle.\<close>

definition lists_in_domain :: "kargs \<Rightarrow> dev \<Rightarrow> bool" where
  "lists_in_domain a s =
     (\<forall>c row. 0 \<le> row \<and> row < d_brick_counts s c \<longrightarrow>
        d_brick_atoms s (atom_stride a * row + c) < nlocal a \<and>
        \<not> out_of_domain a (dev_x s (d_brick_atoms s (atom_stride a * row + c))))"


text \<open>The weight of stencil point \<open>k\<close> at offset \<open>d\<close>: column \<open>k\<close> of the coefficient table, by Horner's scheme.\<close>

definition weight :: "kargs \<Rightarrow> (int \<Rightarrow> numtyp) \<Rightarrow> int \<Rightarrow> numtyp \<Rightarrow> numtyp" where
  "weight a c k d = horner c (order a) k d (order2 a + k) 0"

text \<open>Line 21: the local array \<^verbatim>\<open>rho_coeff\<close> of \<^verbatim>\<open>make_rho\<close> and \<^verbatim>\<open>make_rho3\<close> has \<^verbatim>\<open>MAX_STENCIL*MAX_STENCIL\<close> entries.\<close>

definition MAX_STENCIL :: int where
  "MAX_STENCIL = 8"

text \<open>The workers of a group of \<^verbatim>\<open>make_rho\<close> copy the whole coefficient table, \<open>order\<close> rows of \<open>order\<close> entries: the group has at least \<open>order\<close> workers along each axis, and \<open>order2\<close> is the offset of the last row.\<close>

definition table_copied :: "kargs \<Rightarrow> bool" where
  "table_copied a =
     (1 \<le> order a \<and> order a \<le> MAX_STENCIL \<and> order2 a = (order a - 1) * order a \<and>
      order a \<le> bsize_x a \<and> order a \<le> bsize_y a)"

text \<open>The workers of a group of \<^verbatim>\<open>make_rho3\<close> copy the whole coefficient table: the group has at least \<open>order2 + order\<close> workers.\<close>

definition table_copied3 :: "kargs \<Rightarrow> bool" where
  "table_copied3 a = (order2 a + order a \<le> bsize_x a)"

text \<open>The offset of the grid point \<open>(X, Y, Z)\<close> in the brick.\<close>

definition brick_at :: "kargs \<Rightarrow> int \<Rightarrow> int \<Rightarrow> int \<Rightarrow> int" where
  "brick_at a X Y Z = Z * npts_yx a + Y * npts_x a + X"

text \<open>The brick holds the local cells and their halo of \<open>order - 1\<close> points, rows and planes are laid out without gaps, and the offsets stay in the range where \<^verbatim>\<open>__mul24\<close> is exact. The kernels do not receive the number \<open>npts_y\<close> of rows.\<close>

definition brick_fits :: "kargs \<Rightarrow> int \<Rightarrow> bool" where
  "brick_fits a npts_y =
     (1 \<le> order a \<and>
      nlocal_x a + order a - 1 \<le> npts_x a \<and>
      nlocal_y a + order a - 1 \<le> npts_y \<and>
      nlocal_z a + order a - 1 \<le> npts_z a \<and>
      npts_yx a = npts_y * npts_x a \<and>
      npts_yx a < 2 ^ 23 \<and> nlocal_z a < 2 ^ 23 \<and> nlocal_z a * npts_yx a \<le> 2 ^ 31)"

text \<open>A cell of the local grid.\<close>

definition in_cell_range :: "kargs \<Rightarrow> int \<Rightarrow> int \<Rightarrow> int \<Rightarrow> bool" where
  "in_cell_range a nx ny nz =
     (0 \<le> nx \<and> nx < nlocal_x a \<and> 0 \<le> ny \<and> ny < nlocal_y a \<and> 0 \<le> nz \<and> nz < nlocal_z a)"

text \<open>Spreading a list of work items, each a cell \<open>(nx, ny, nz)\<close>, its offset \<open>z_pos\<close> and a row of its atom list, in the order of the list: the body of the row loop of \<^verbatim>\<open>make_rho\<close> for each.\<close>

definition make_rho_items ::
  "kargs \<Rightarrow> dev \<Rightarrow> (int \<times> int \<times> int \<times> int \<times> int) list \<Rightarrow> (int \<Rightarrow> numtyp) \<Rightarrow> (int \<Rightarrow> numtyp)" where
  "make_rho_items a s items b =
     fold (\<lambda>(nx, ny, nz, z_pos, row). make_rho_atom a s nx ny nz z_pos row) items b"

text \<open>The work items of one worker of \<^verbatim>\<open>make_rho\<close>, in the order of its loops.\<close>

definition thread_items :: "kargs \<Rightarrow> dev \<Rightarrow> int \<times> int \<Rightarrow> (int \<times> int \<times> int \<times> int \<times> int) list" where
  "thread_items a s g =
     (let z_block = fst g sdiv x_threads a;
          nx = fst g smod x_threads a;
          ny = snd g;
          nz = mul24 z_block 8;
          z_stop = (if nz + 8 > nlocal_z a then nlocal_z a else nz + 8)
      in if nx < nlocal_x a \<and> ny < nlocal_y a then
           (let z_stride = mul24 (nlocal_x a) (nlocal_y a);
                z_pos = mul24 nz z_stride + mul24 ny (nlocal_x a) + nx
            in concat (map (\<lambda>z. map (\<lambda>row. (nx, ny, z, z_pos + (z - nz) * z_stride, row))
                                    [0..d_brick_counts s (z_pos + (z - nz) * z_stride) - 1])
                         [nz..z_stop - 1]))
         else [])"

text \<open>The work items of a pass of \<^verbatim>\<open>make_rho\<close>: its particle list.\<close>

definition pass_items :: "kargs \<Rightarrow> dev \<Rightarrow> (int \<times> int) list \<Rightarrow> (int \<times> int \<times> int \<times> int \<times> int) list" where
  "pass_items a s ws = concat (map (thread_items a s) ws)"

text \<open>The stencil of the cell \<open>(nx, ny, nz)\<close>, a cube of \<open>order\<close> points per axis, covers the grid point \<open>(X, Y, Z)\<close>.\<close>

definition covers :: "kargs \<Rightarrow> int \<Rightarrow> int \<Rightarrow> int \<Rightarrow> int \<Rightarrow> int \<Rightarrow> int \<Rightarrow> bool" where
  "covers a nx ny nz X Y Z =
     (nx \<le> X \<and> X < nx + order a \<and> ny \<le> Y \<and> Y < ny + order a \<and> nz \<le> Z \<and> Z < nz + order a)"

text \<open>The particle a work item reads from the atom list.\<close>

definition item_atom :: "kargs \<Rightarrow> dev \<Rightarrow> int \<times> int \<times> int \<times> int \<times> int \<Rightarrow> int" where
  "item_atom a s it =
     (case it of (nx, ny, nz, z_pos, row) \<Rightarrow> d_brick_atoms s (mul24 (atom_stride a) row + z_pos))"

text \<open>What a work item deposits at the grid point \<open>(X, Y, Z)\<close>: charge times \<open>delvolinv\<close> times the product of the three weights, when its stencil covers the point.\<close>

definition item_point ::
  "kargs \<Rightarrow> dev \<Rightarrow> int \<times> int \<times> int \<times> int \<times> int \<Rightarrow> int \<Rightarrow> int \<Rightarrow> int \<Rightarrow> numtyp" where
  "item_point a s it X Y Z =
     (case it of (nx, ny, nz, z_pos, row) \<Rightarrow>
        if covers a nx ny nz X Y Z then
          delvolinv a * dev_q s (item_atom a s it)
            * weight a (d_rho_coeff s) (X - nx) (of_int nx - frac_x a (dev_x s (item_atom a s it)))
            * weight a (d_rho_coeff s) (Y - ny) (of_int ny - frac_y a (dev_x s (item_atom a s it)))
            * weight a (d_rho_coeff s) (Z - nz) (of_int nz - frac_z a (dev_x s (item_atom a s it)))
        else 0)"

text \<open>All work items lie in local cells.\<close>

definition items_in_range :: "kargs \<Rightarrow> (int \<times> int \<times> int \<times> int \<times> int) list \<Rightarrow> bool" where
  "items_in_range a items =
     (\<forall>it\<in>set items. case it of (nx, ny, nz, z_pos, row) \<Rightarrow> in_cell_range a nx ny nz)"

text \<open>A worker of \<^verbatim>\<open>make_rho\<close> with non-negative global ids, whose z-block stays in the range where \<^verbatim>\<open>__mul24\<close> is exact.\<close>

definition thread_ok :: "kargs \<Rightarrow> int \<times> int \<Rightarrow> bool" where
  "thread_ok a g = (0 \<le> fst g \<and> 0 \<le> snd g \<and> 0 < x_threads a \<and> fst g sdiv x_threads a < 2 ^ 23)"

text \<open>The weights the kernels compute sum to one at every offset.\<close>

definition unit_weights :: "kargs \<Rightarrow> (int \<Rightarrow> numtyp) \<Rightarrow> bool" where
  "unit_weights a c = (\<forall>d. (\<Sum>k\<in>{0..<order a}. weight a c k d) = 1)"

text \<open>The weight in the words of the specification: the coefficient table is a matrix of \<open>order\<close> rows and \<open>order\<close> columns, and column \<open>k\<close> holds the polynomial of stencil point \<open>k\<close> in the offset \<open>d\<close>, the coefficient of the power \<open>j\<close> in row \<open>j\<close>.\<close>

definition poly_weight :: "kargs \<Rightarrow> (int \<Rightarrow> numtyp) \<Rightarrow> int \<Rightarrow> numtyp \<Rightarrow> numtyp" where
  "poly_weight a c k d = (\<Sum>j\<in>{0..<order a}. c (j * order a + k) * d ^ nat j)"

text \<open>The coefficient table is the one of a charge-assignment function: its polynomials sum to one at every offset.\<close>

definition partition_of_unity :: "kargs \<Rightarrow> (int \<Rightarrow> numtyp) \<Rightarrow> bool" where
  "partition_of_unity a c = (\<forall>d. (\<Sum>k\<in>{0..<order a}. poly_weight a c k d) = 1)"

text \<open>The ids of a launch of \<open>nx\<close> by \<open>ny\<close>: the workers of a pass of \<^verbatim>\<open>make_rho\<close>, or the groups of a pass of \<^verbatim>\<open>make_rho2\<close>, one per column of the brick.\<close>

definition launch :: "int \<Rightarrow> int \<Rightarrow> (int \<times> int) list" where
  "launch nx ny = concat (map (\<lambda>y. map (\<lambda>x. (x, y)) [0..nx - 1]) [0..ny - 1])"

text \<open>A launch of \<^verbatim>\<open>make_rho\<close> with \<open>gxn\<close> by \<open>gyn\<close> workers reaches every local cell. The worker \<open>(gx, gy)\<close> takes the cells \<open>(gx mod x_threads, gy)\<close> of the 8 planes that start at plane \<open>8 * (gx div x_threads)\<close>: so \<open>x_threads\<close> covers the cells along x, \<open>gyn\<close> the cells along y, and the \<open>gxn div x_threads\<close> complete blocks of planes the cells along z. The ids stay in the range where \<^verbatim>\<open>__mul24\<close> is exact.\<close>

definition full_launch :: "kargs \<Rightarrow> int \<Rightarrow> int \<Rightarrow> bool" where
  "full_launch a gxn gyn =
     (0 < x_threads a \<and> nlocal_x a \<le> x_threads a \<and> nlocal_y a \<le> gyn \<and>
      nlocal_z a \<le> 8 * (gxn div x_threads a) \<and> gxn \<le> 2 ^ 23)"

text \<open>The offset of the cell \<open>(cx, cy, cz)\<close> in the counters, and of its first slot in the atom lists.\<close>

definition cell_offset :: "kargs \<Rightarrow> int \<Rightarrow> int \<Rightarrow> int \<Rightarrow> int" where
  "cell_offset a cx cy cz = cz * nlocal_y a * nlocal_x a + cy * nlocal_x a + cx"

text \<open>What the particle \<open>atom\<close>, listed in the cell \<open>(cx, cy, cz)\<close>, deposits at the grid point \<open>(X, Y, Z)\<close>: charge times \<open>delvolinv\<close> times the three weights, the offsets measured from the lower corner of the cell.\<close>

definition contrib :: "kargs \<Rightarrow> dev \<Rightarrow> int \<Rightarrow> int \<Rightarrow> int \<Rightarrow> int \<Rightarrow> int \<Rightarrow> int \<Rightarrow> int \<Rightarrow> numtyp" where
  "contrib a s cx cy cz atom X Y Z =
     delvolinv a * dev_q s atom
       * weight a (d_rho_coeff s) (X - cx) (of_int cx - frac_x a (dev_x s atom))
       * weight a (d_rho_coeff s) (Y - cy) (of_int cy - frac_y a (dev_x s atom))
       * weight a (d_rho_coeff s) (Z - cz) (of_int cz - frac_z a (dev_x s atom))"

text \<open>The deposit of all particles listed in a cell.\<close>

definition cell_dep :: "kargs \<Rightarrow> dev \<Rightarrow> int \<Rightarrow> int \<Rightarrow> int \<Rightarrow> int \<Rightarrow> int \<Rightarrow> int \<Rightarrow> numtyp" where
  "cell_dep a s cx cy cz X Y Z =
     (\<Sum>row\<in>{0..<d_brick_counts s (cell_offset a cx cy cz)}.
        contrib a s cx cy cz
          (d_brick_atoms s (atom_stride a * row + cell_offset a cx cy cz)) X Y Z)"

text \<open>The atom lists have a slot row for every local cell, and the counters and the stride stay in the range where \<^verbatim>\<open>__mul24\<close> is exact.\<close>

definition lists_fit :: "kargs \<Rightarrow> dev \<Rightarrow> bool" where
  "lists_fit a s =
     (1 \<le> nlocal_x a \<and> 1 \<le> nlocal_y a \<and> 1 \<le> nlocal_z a \<and>
      nlocal_x a * nlocal_y a * nlocal_z a \<le> atom_stride a \<and> atom_stride a < 2 ^ 23 \<and>
      (\<forall>c. 0 \<le> c \<and> c < nlocal_x a * nlocal_y a * nlocal_z a \<longrightarrow>
           0 \<le> d_brick_counts s c \<and> d_brick_counts s c < 2 ^ 23 \<and>
           d_brick_counts s c * atom_stride a < 2 ^ 31))"

text \<open>The derived arguments are the ones of the stencil, and the stencil fits the arrays of \<^verbatim>\<open>make_rho2\<close>: \<open>order2 + order\<close> coefficients are copied by the \<^verbatim>\<open>BLOCK_1D\<close> workers.\<close>

definition args_fit :: "kargs \<Rightarrow> bool" where
  "args_fit a =
     (order2 a = (order a - 1) * order a \<and> order_m_1 a = order a - 1 \<and>
      order a \<le> BLOCK_1D \<and> order2 a + order a \<le> BLOCK_1D)"

text \<open>What the cells of plane \<open>cz\<close> within reach of the column \<open>(bx, by)\<close> deposit at its point of height \<open>Z\<close>.\<close>

definition col_dep :: "kargs \<Rightarrow> dev \<Rightarrow> int \<Rightarrow> int \<Rightarrow> int \<Rightarrow> int \<Rightarrow> numtyp" where
  "col_dep a s bx by cz Z =
     (\<Sum>m\<in>{y_start (block_setup a (bx, by))..<y_stop (block_setup a (bx, by))}.
        \<Sum>l\<in>{x_start (block_setup a (bx, by))..<x_stop (block_setup a (bx, by))}.
          cell_dep a s (bx + l - order_m_1 a) (by + m - order_m_1 a) cz bx by Z)"

text \<open>The accumulator \<open>n\<close> of the worker of plane \<open>z\<close> after its gather.\<close>

definition plane_ans :: "kargs \<Rightarrow> dev \<Rightarrow> int \<Rightarrow> int \<Rightarrow> int \<Rightarrow> int \<Rightarrow> numtyp" where
  "plane_ans a s bx by z n =
     (if 0 \<le> z \<and> z < nlocal_z a then col_dep a s bx by z (z + n) else 0)"

text \<open>The value \<^verbatim>\<open>make_rho2\<close> stores at height \<open>Z\<close> of the column \<open>(bx, by)\<close>.\<close>

definition column_value :: "kargs \<Rightarrow> dev \<Rightarrow> int \<Rightarrow> int \<Rightarrow> int \<Rightarrow> numtyp" where
  "column_value a s bx by Z = (\<Sum>n\<in>{0..<order a}. plane_ans a s bx by (Z - n) n)"

text \<open>The state of a group at the head of iteration \<open>i\<close> of the loop of line 292: the registers of the workers, the carry in the halo, the planes below \<open>BLOCK_1D * i\<close> stored, the rest of the brick as it was.\<close>

definition block_inv ::
  "kargs \<Rightarrow> dev \<Rightarrow> int \<Rightarrow> int \<Rightarrow> (int \<Rightarrow> numtyp) \<Rightarrow> int \<Rightarrow> block_state \<Rightarrow> bool" where
  "block_inv a s bx by brick0 i st =
     ((\<forall>tx. 0 \<le> tx \<and> tx < BLOCK_1D \<longrightarrow>
          t_nz st tx = tx + BLOCK_1D * i \<and>
          t_pt st tx = brick_at a bx by (tx + BLOCK_1D * i) \<and>
          (tx + BLOCK_1D * i < nlocal_z a \<longrightarrow>
             t_z_local st tx = cell_offset a 0 0 (tx + BLOCK_1D * i))) \<and>
      (\<forall>t. BLOCK_1D \<le> t \<and> t < BLOCK_1D + order a \<longrightarrow>
          front st t =
            (\<Sum>n\<in>{0..<order a}.
               if t - n \<le> BLOCK_1D - 1
               then plane_ans a s bx by (BLOCK_1D * (i - 1) + t - n) n else 0)) \<and>
      (\<forall>Z. 0 \<le> Z \<and> Z < BLOCK_1D * i \<and> Z < npts_z a \<longrightarrow>
          brick st (brick_at a bx by Z) = column_value a s bx by Z) \<and>
      (\<forall>x. (\<forall>Z. 0 \<le> Z \<and> Z < npts_z a \<longrightarrow> x \<noteq> brick_at a bx by Z) \<longrightarrow>
          brick st x = brick0 x))"

text \<open>The charge grid in the words of the specification: at a grid point, the sum over the local cells whose stencil covers the point of the deposits of the particles listed there.\<close>

definition point_value :: "kargs \<Rightarrow> dev \<Rightarrow> int \<Rightarrow> int \<Rightarrow> int \<Rightarrow> numtyp" where
  "point_value a s X Y Z =
     (\<Sum>cz\<in>{0..<nlocal_z a}. \<Sum>cy\<in>{0..<nlocal_y a}. \<Sum>cx\<in>{0..<nlocal_x a}.
        if covers a cx cy cz X Y Z then cell_dep a s cx cy cz X Y Z else 0)"

text \<open>Every row of every local cell, once: the work items of a pass of \<^verbatim>\<open>make_rho\<close> whose workers cover the local cells.\<close>

definition all_items :: "kargs \<Rightarrow> dev \<Rightarrow> (int \<times> int \<times> int \<times> int \<times> int) list" where
  "all_items a s =
     concat (map (\<lambda>cz.
       concat (map (\<lambda>cy.
         concat (map (\<lambda>cx.
           map (\<lambda>row. (cx, cy, cz, cell_offset a cx cy cz, row))
             [0..d_brick_counts s (cell_offset a cx cy cz) - 1])
           [0..nlocal_x a - 1]))
         [0..nlocal_y a - 1]))
       [0..nlocal_z a - 1])"

text \<open>What \<^verbatim>\<open>make_rho3\<close> deposits at the grid point \<open>(X, Y, Z)\<close> for the particle \<open>i\<close>: the offsets are measured from the centre of the cell, lines 395 to 397.\<close>

definition particle_point :: "kargs \<Rightarrow> dev \<Rightarrow> int \<Rightarrow> int \<Rightarrow> int \<Rightarrow> int \<Rightarrow> numtyp" where
  "particle_point a s i X Y Z =
     (let p = dev_x s i;
          nx = int_cast (frac_x a p); ny = int_cast (frac_y a p); nz = int_cast (frac_z a p)
      in if covers a nx ny nz X Y Z then
           delvolinv a * dev_q s i
             * weight a (d_rho_coeff s) (X - nx) (of_int nx + 1 / 2 - frac_x a p)
             * weight a (d_rho_coeff s) (Y - ny) (of_int ny + 1 / 2 - frac_y a p)
             * weight a (d_rho_coeff s) (Z - nz) (of_int nz + 1 / 2 - frac_z a p)
         else 0)"

text \<open>The atom lists as the list of their entries: a cell and a particle listed in it.\<close>

definition listing :: "kargs \<Rightarrow> dev \<Rightarrow> (int \<times> int \<times> int \<times> int) list" where
  "listing a s =
     map (\<lambda>it. case it of (cx, cy, cz, z_pos, row) \<Rightarrow> (cx, cy, cz, item_atom a s it))
       (all_items a s)"

text \<open>The entry of the particle \<open>i\<close>: the cell that holds its position, and \<open>i\<close>.\<close>

definition entry_of :: "kargs \<Rightarrow> dev \<Rightarrow> int \<Rightarrow> int \<times> int \<times> int \<times> int" where
  "entry_of a s i =
     (int_cast (frac_x a (dev_x s i)), int_cast (frac_y a (dev_x s i)),
      int_cast (frac_z a (dev_x s i)), i)"

text \<open>The atom lists hold the particles below \<open>nlocal\<close> that lie in the local domain, each once, in the list of the cell that holds it.\<close>

definition listed :: "kargs \<Rightarrow> dev \<Rightarrow> bool" where
  "listed a s =
     (mset (listing a s) =
      mset (map (entry_of a s) (filter (\<lambda>i. \<not> out_of_domain a (dev_x s i)) [0..nlocal a - 1])))"



section \<open>A small configuration\<close>

text \<open>
  Two cells per axis, order 2 with the weights \<open>1/2 - d\<close> and \<open>1/2 + d\<close>, four
  workers with stride 2 in groups of extent 4, capacity 1. Particles 0 and 1 lie in
  cell 0, particle 2 lies outside the domain, particle 3 lies in cell 1. The local
  arrays hold 7 before the kernels write them.
\<close>

definition ex_x :: "int \<Rightarrow> numtyp4" where
  "ex_x i =
     (if i = 0 then \<lparr>p_x = 1 / 2, p_y = 1 / 2, p_z = 1 / 2, p_w = 0\<rparr>
      else if i = 1 then \<lparr>p_x = 1 / 4, p_y = 1 / 4, p_z = 1 / 4, p_w = 0\<rparr>
      else if i = 2 then \<lparr>p_x = - 1, p_y = 0, p_z = 0, p_w = 0\<rparr>
      else \<lparr>p_x = 3 / 2, p_y = 1 / 2, p_z = 1 / 2, p_w = 0\<rparr>)"

definition ex_args :: kargs where
  "ex_args = \<lparr>nthreads = 4, nlocal = 4, b_lo_x = 0, b_lo_y = 0, b_lo_z = 0,
     delxinv = 1, delyinv = 1, delzinv = 1, nlocal_x = 2, nlocal_y = 2, nlocal_z = 2,
     atom_stride = 8, max_atoms = 1, skip = 2, npts_x = 3, npts_yx = 9, npts_z = 3,
     x_threads = 2, order = 2, order2 = 2, order_m_1 = 1, delvolinv = 1,
     bsize_x = 4, bsize_y = 4\<rparr>"

definition ex_coeff :: "int \<Rightarrow> numtyp" where
  "ex_coeff l = (if l = 0 then 1 / 2 else if l = 1 then 1 / 2 else if l = 2 then - 1 else 1)"

definition ex_dev :: dev where
  "ex_dev = \<lparr>dev_x = ex_x, dev_q = (\<lambda>i. 1), d_brick_counts = (\<lambda>i. 0),
     d_brick_atoms = (\<lambda>i. - 1), d_brick = (\<lambda>i. 0), d_rho_coeff = ex_coeff,
     d_error_flag = 0, local_rho_coeff = (\<lambda>blk k. 7)\<rparr>"

text \<open>The small configuration after a mapping pass with capacity 2: particles 0 and 1 listed in cell 0, particle 3 in cell 1.\<close>

definition ex_mapped :: dev where
  "ex_mapped = ex_dev
     \<lparr>d_brick_counts := (\<lambda>c. if c = 0 then 2 else if c = 1 then 1 else 0),
      d_brick_atoms := (\<lambda>i. if i = 0 then 0 else if i = 1 then 3 else if i = 8 then 1 else - 1)\<rparr>"


text \<open>Some content for the arrays the kernel has not written yet.\<close>

definition ex_uninit :: uninit where
  "ex_uninit = \<lparr>u_rho_coeff = (\<lambda>k. 1), u_front = (\<lambda>k. 1), u_ans = (\<lambda>tx k. 1)\<rparr>"

text \<open>
  The lists that the mapper leaves for the first two particles of the configuration when
  the capacity of a cell is two: both particles in cell 0, rows 0 and 1.
\<close>

definition ex_pair :: dev where
  "ex_pair = ex_dev
     \<lparr>d_brick_counts := (\<lambda>c. if c = 0 then 2 else 0),
      d_brick_atoms := (\<lambda>i. if i = 0 then 0 else if i = 8 then 1 else - 1)\<rparr>"

declare horner.simps [simp del] rho1d_fill.simps [simp del] l_loop.simps [simp del]
  m_loop.simps [simp del] n_loop.simps [simp del] row_loop.simps [simp del]
  z_loop.simps [simp del]
  horner2.simps [simp del] ans_zero.simps [simp del] ans_add.simps [simp del]
  row2_loop.simps [simp del] l2_loop.simps [simp del] m2_loop.simps [simp del]
  rounds.simps [simp del] block_loop.simps [simp del]

section \<open>The atomic float add\<close>

lemma atomicFloatAdd_eq: "atomicFloatAdd mem address val = mem(address := mem address + val)"
proof (cases "mem address = 0")
  case True
  then show ?thesis
    unfolding atomicFloatAdd_def
    by (subst float_loop.simps) (simp add: float_iter_def atomicCAS_def Let_def)
next
  case False
  then show ?thesis
    unfolding atomicFloatAdd_def
    by (subst float_loop.simps) (simp add: float_iter_def atomicCAS_def Let_def add.commute)
qed

lemma fadd_zero [simp]: "fadd val (Num 0) = val"
  by (cases val) (simp_all add: fadd_def)

lemma fadd_NaN [simp]: "fadd val NaN = NaN"
  by (cases val) (simp_all add: fadd_def)

lemma float_iter_first:
  "float_iter fadd address val (mem, Num 0, val) =
     (if mem address = Num 0 then Exit (mem(address := val))
      else Again (mem, mem address, fadd val (mem address)))"
  by (simp add: float_iter_def atomicCAS_def Let_def)

lemma float_iter_second:
  "float_iter fadd address val (mem, mem address, v) = Exit (mem(address := v))"
  by (simp add: float_iter_def atomicCAS_def Let_def)

lemma atomicFloatAdd_float_eq:
  "atomicFloatAdd_float mem address val = mem(address := fadd val (mem address))"
proof (cases "mem address = Num 0")
  case True
  then show ?thesis
    unfolding atomicFloatAdd_float_def
    by (subst float_loop.simps) (simp add: float_iter_first)
next
  case False
  then show ?thesis
    unfolding atomicFloatAdd_float_def
    by (subst float_loop.simps) (simp add: float_iter_first float_iter_second)
qed

text \<open>On a brick without a NaN the float variant on floating values is the exact one.\<close>

lemma atomicFloatAdd_float_exact:
  "atomicFloatAdd_float (\<lambda>x. Num (mem x)) address (Num v) =
     (\<lambda>x. Num (atomicFloatAdd mem address v x))"
  by (simp add: atomicFloatAdd_float_eq atomicFloatAdd_eq fun_eq_iff fadd_def add.commute)

lemma double_iter_num:
  assumes "mem address = Num x"
  shows "double_iter address val (mem, mem address) = Exit (mem(address := fadd val (Num x)))"
  using assms by (simp add: double_iter_def atomicCAS_def Let_def fne_def)

lemma double_iter_nan:
  assumes "mem address = NaN"
  shows "double_iter address val (mem, NaN) = Again (mem(address := NaN), NaN)"
  using assms by (simp add: double_iter_def atomicCAS_def Let_def fne_def)

lemma double_loop_nan:
  assumes "mem address = NaN"
  shows "double_loop n address val (mem, NaN) = None"
  using assms
proof (induction n arbitrary: mem)
  case 0
  show ?case by simp
next
  case (Suc n)
  have "double_loop n address val (mem(address := NaN), NaN) = None"
    by (rule Suc.IH) simp
  then show ?case
    using Suc.prems by (simp add: double_iter_nan)
qed

text \<open>
  Claim C10. Without concurrent writers the float variant of \<^verbatim>\<open>atomicFloatAdd\<close>
  returns, in its first or its second iteration, and leaves \<open>val + old\<close> at the
  address for every old content, a NaN included: its loop test compares the patterns.
  The double variant returns in its first iteration and leaves \<open>val + old\<close> when the
  old content is a number. When the old content is a NaN its \<^verbatim>\<open>atomicCAS\<close> succeeds,
  but the loop test \<^verbatim>\<open>assumed != old\<close> compares a NaN with itself and stays true:
  whatever the number \<open>n\<close> of iterations it is given, the loop has not exited.
\<close>

theorem atomicFloatAdd_double_spins_on_NaN:
  "atomicFloatAdd_float mem address val = mem(address := fadd val (mem address)) \<and>
   ((\<exists>m. float_iter fadd address val (mem, Num 0, val) = Exit m) \<or>
    (\<exists>st m. float_iter fadd address val (mem, Num 0, val) = Again st \<and>
             float_iter fadd address val st = Exit m)) \<and>
   atomicFloatAdd_double (Suc n) (mem(address := Num x)) address val =
     Some (mem(address := fadd val (Num x))) \<and>
   atomicFloatAdd_double n (mem(address := NaN)) address val = None"
proof (intro conjI)
  show "atomicFloatAdd_float mem address val = mem(address := fadd val (mem address))"
    by (rule atomicFloatAdd_float_eq)
  show "(\<exists>m. float_iter fadd address val (mem, Num 0, val) = Exit m) \<or>
    (\<exists>st m. float_iter fadd address val (mem, Num 0, val) = Again st \<and>
             float_iter fadd address val st = Exit m)"
    by (cases "mem address = Num 0") (simp_all add: float_iter_first float_iter_second)
  have "double_iter address val (mem(address := Num x), (mem(address := Num x)) address) =
      Exit ((mem(address := Num x))(address := fadd val (Num x)))"
    by (rule double_iter_num) simp
  then show "atomicFloatAdd_double (Suc n) (mem(address := Num x)) address val =
     Some (mem(address := fadd val (Num x)))"
    by (simp add: atomicFloatAdd_double_def)
  show "atomicFloatAdd_double n (mem(address := NaN)) address val = None"
    by (simp add: atomicFloatAdd_double_def double_loop_nan)
qed


section \<open>The mapper, step by step\<close>

lemma floor_rat_numeral [simp]: "\<lfloor>numeral m / numeral n :: rat\<rfloor> = numeral m div numeral n"
  by (metis floor_divide_of_int_eq of_int_numeral)

lemma particle_map_out_of_domain:
  assumes "atom_of a gid < nlocal a" and "out_of_domain a (dev_x s (atom_of a gid))"
  shows "particle_map a gid s = s\<lparr>d_error_flag := 1\<rparr>"
  using assms by (simp add: particle_map_def pm_init_def pm_step_def Let_def)

lemma particle_map_full:
  assumes "atom_of a gid < nlocal a" and "\<not> out_of_domain a (dev_x s (atom_of a gid))"
    and "d_brick_counts s (cell_index a (dev_x s (atom_of a gid))) = max_atoms a"
  shows "particle_map a gid s = s\<lparr>d_error_flag := 2\<rparr>"
  using assms by (simp add: particle_map_def pm_init_def pm_step_def Let_def atom_add_def fun_upd_idem)

lemma particle_map_insert:
  assumes "atom_of a gid < nlocal a" and "\<not> out_of_domain a (dev_x s (atom_of a gid))"
    and "d_brick_counts s (cell_index a (dev_x s (atom_of a gid))) \<noteq> max_atoms a"
  shows "particle_map a gid s =
           s\<lparr>d_brick_counts := (d_brick_counts s)
                (cell_index a (dev_x s (atom_of a gid)) :=
                   d_brick_counts s (cell_index a (dev_x s (atom_of a gid))) + 1),
             d_brick_atoms := (d_brick_atoms s)
                (atom_stride a * d_brick_counts s (cell_index a (dev_x s (atom_of a gid)))
                   + cell_index a (dev_x s (atom_of a gid)) := atom_of a gid)\<rparr>"
  using assms by (simp add: particle_map_def pm_init_def pm_step_def Let_def atom_add_def)

lemma particle_map_idle:
  assumes "\<not> atom_of a gid < nlocal a"
  shows "particle_map a gid s = s"
  using assms by (simp add: particle_map_def pm_init_def pm_step_def Let_def)

lemma particle_map_cases:
  obtains (idle) "\<not> atom_of a gid < nlocal a" "particle_map a gid s = s"
  | (ood) "atom_of a gid < nlocal a" "out_of_domain a (dev_x s (atom_of a gid))"
      "particle_map a gid s = s\<lparr>d_error_flag := 1\<rparr>"
  | (full) "lands_in a s (cell_index a (dev_x s (atom_of a gid))) gid"
      "d_brick_counts s (cell_index a (dev_x s (atom_of a gid))) = max_atoms a"
      "particle_map a gid s = s\<lparr>d_error_flag := 2\<rparr>"
  | (ins) "lands_in a s (cell_index a (dev_x s (atom_of a gid))) gid"
      "d_brick_counts s (cell_index a (dev_x s (atom_of a gid))) \<noteq> max_atoms a"
      "particle_map a gid s =
           s\<lparr>d_brick_counts := (d_brick_counts s)
                (cell_index a (dev_x s (atom_of a gid)) :=
                   d_brick_counts s (cell_index a (dev_x s (atom_of a gid))) + 1),
             d_brick_atoms := (d_brick_atoms s)
                (atom_stride a * d_brick_counts s (cell_index a (dev_x s (atom_of a gid)))
                   + cell_index a (dev_x s (atom_of a gid)) := atom_of a gid)\<rparr>"
  using particle_map_idle particle_map_out_of_domain particle_map_full particle_map_insert
  unfolding lands_in_def by metis

lemma particle_map_dev_x [simp]: "dev_x (particle_map a gid s) = dev_x s"
  by (cases a gid s rule: particle_map_cases) simp_all

lemma particle_map_pass_dev_x [simp]: "dev_x (particle_map_pass a ws s) = dev_x s"
  unfolding particle_map_pass_def by (induction ws arbitrary: s) simp_all

lemma lands_in_particle_map [simp]: "lands_in a (particle_map a gid s) c w = lands_in a s c w"
  by (simp add: lands_in_def)

lemma particle_map_counts:
  "d_brick_counts (particle_map a gid s) c =
     (if lands_in a s c gid \<and> d_brick_counts s c \<noteq> max_atoms a
      then d_brick_counts s c + 1 else d_brick_counts s c)"
  by (cases a gid s rule: particle_map_cases) (auto simp: lands_in_def)

lemma particle_map_pass_Cons:
  "particle_map_pass a (w # ws) s = particle_map_pass a ws (particle_map a w s)"
  by (simp add: particle_map_pass_def)

lemma particle_map_pass_Nil: "particle_map_pass a [] s = s"
  by (simp add: particle_map_pass_def)

lemma particle_map_pass_snoc:
  "particle_map_pass a (ws @ [w]) s = particle_map a w (particle_map_pass a ws s)"
  by (simp add: particle_map_pass_def)

lemma particle_map_pass_counts:
  assumes "d_brick_counts s c \<le> max_atoms a"
  shows "d_brick_counts (particle_map_pass a ws s) c =
           min (max_atoms a) (d_brick_counts s c + int (length (filter (lands_in a s c) ws)))"
  using assms
proof (induction ws arbitrary: s)
  case Nil
  then show ?case by (simp add: particle_map_pass_Nil)
next
  case (Cons w ws)
  have le: "d_brick_counts (particle_map a w s) c \<le> max_atoms a"
    using Cons.prems by (simp add: particle_map_counts)
  have flt: "filter (lands_in a (particle_map a w s) c) ws = filter (lands_in a s c) ws"
    by (rule filter_cong) simp_all
  show ?case
    unfolding particle_map_pass_Cons Cons.IH [OF le] flt
    using Cons.prems by (auto simp: particle_map_counts)
qed

lemma particle_map_pass_le:
  assumes "d_brick_counts s c \<le> max_atoms a"
  shows "d_brick_counts (particle_map_pass a ws s) c \<le> max_atoms a"
  by (simp add: particle_map_pass_counts [OF assms])

lemma rho_coeff3_upd [simp]:
  "rho_coeff3 a (s\<lparr>dev_q := q\<rparr>) = rho_coeff3 a s"
  "rho_coeff3 a (s\<lparr>d_brick := b\<rparr>) = rho_coeff3 a s"
  "rho_coeff3 a (s\<lparr>d_error_flag := e\<rparr>) = rho_coeff3 a s"
  by (simp_all add: rho_coeff3_def fun_eq_iff cong: if_cong)

lemma make_rho3_out_of_domain:
  assumes "atom_of a gid < nlocal a" and "out_of_domain a (dev_x s (atom_of a gid))"
  shows "make_rho3 a gid s = s\<lparr>d_error_flag := 1\<rparr>"
  using assms by (simp add: make_rho3_def Let_def)

lemma make_rho3_dev_x [simp]: "dev_x (make_rho3 a gid s) = dev_x s"
  by (simp add: make_rho3_def Let_def)

lemma make_rho3_dev_q [simp]: "dev_q (make_rho3 a gid s) = dev_q s"
  by (simp add: make_rho3_def Let_def)

lemma make_rho3_charge_irrelevant:
  assumes "out_of_domain a (dev_x s j)"
  shows "make_rho3 a gid (s\<lparr>dev_q := (dev_q s)(j := q')\<rparr>) =
           (make_rho3 a gid s)\<lparr>dev_q := (dev_q s)(j := q')\<rparr>"
  using assms by (auto simp: make_rho3_def Let_def)

lemma make_rho3_pass_Cons:
  "make_rho3_pass a (w # ws) s = make_rho3_pass a ws (make_rho3 a w s)"
  by (simp add: make_rho3_pass_def)

lemma make_rho3_pass_charge_irrelevant:
  assumes "out_of_domain a (dev_x s j)"
  shows "make_rho3_pass a ws (s\<lparr>dev_q := (dev_q s)(j := q')\<rparr>) =
           (make_rho3_pass a ws s)\<lparr>dev_q := (dev_q s)(j := q')\<rparr>"
  using assms
proof (induction ws arbitrary: s)
  case Nil
  then show ?case by (simp add: make_rho3_pass_def)
next
  case (Cons w ws)
  have ood: "out_of_domain a (dev_x (make_rho3 a w s) j)"
    using Cons.prems by simp
  have "make_rho3_pass a (w # ws) (s\<lparr>dev_q := (dev_q s)(j := q')\<rparr>) =
          make_rho3_pass a ws ((make_rho3 a w s)\<lparr>dev_q := (dev_q s)(j := q')\<rparr>)"
    by (simp only: make_rho3_pass_Cons make_rho3_charge_irrelevant [OF Cons.prems])
  also have "\<dots> = (make_rho3_pass a ws (make_rho3 a w s))\<lparr>dev_q := (dev_q s)(j := q')\<rparr>"
    using Cons.IH [OF ood] by (simp only: make_rho3_dev_q)
  also have "\<dots> = (make_rho3_pass a (w # ws) s)\<lparr>dev_q := (dev_q s)(j := q')\<rparr>"
    by (simp only: make_rho3_pass_Cons)
  finally show ?case .
qed


lemma lists_in_domain_step:
  assumes "lists_in_domain a s"
  shows "lists_in_domain a (particle_map a gid s)"
proof (cases a gid s rule: particle_map_cases)
  case idle
  then show ?thesis using assms by simp
next
  case ood
  then show ?thesis using assms by (simp add: lists_in_domain_def)
next
  case full
  then show ?thesis using assms by (simp add: lists_in_domain_def)
next
  case ins
  let ?i = "cell_index a (dev_x s (atom_of a gid))"
  let ?old = "d_brick_counts s ?i"
  show ?thesis
    unfolding lists_in_domain_def
  proof (intro allI impI)
    fix c row
    assume v: "0 \<le> row \<and> row < d_brick_counts (particle_map a gid s) c"
    show "d_brick_atoms (particle_map a gid s) (atom_stride a * row + c) < nlocal a \<and>
          \<not> out_of_domain a (dev_x (particle_map a gid s)
               (d_brick_atoms (particle_map a gid s) (atom_stride a * row + c)))"
    proof (cases "atom_stride a * row + c = atom_stride a * ?old + ?i")
      case True
      then show ?thesis using ins(1) by (simp add: ins(3) lands_in_def)
    next
      case False
      then have "row < d_brick_counts s c"
        using v by (auto simp: ins(3) split: if_splits)
      with v assms False show ?thesis
        by (simp add: ins(3) lists_in_domain_def)
    qed
  qed
qed

lemma lists_in_domain_pass:
  assumes "lists_in_domain a s"
  shows "lists_in_domain a (particle_map_pass a ws s)"
  using assms
  by (induction ws arbitrary: s) (simp_all add: particle_map_pass_def lists_in_domain_step)

section \<open>The mapper under every schedule\<close>

lemma pm_run_Nil [simp]: "pm_run a [] conf = conf"
  by (simp add: pm_run_def)

lemma pm_run_snoc: "pm_run a (sched @ [g]) conf = pm_step a g (pm_run a sched conf)"
  by (simp add: pm_run_def)

lemma pm_run_Cons: "pm_run a (g # sched) conf = pm_run a sched (pm_step a g conf)"
  by (simp add: pm_run_def)

lemma pm_run_append: "pm_run a (xs @ ys) conf = pm_run a ys (pm_run a xs conf)"
  by (simp add: pm_run_def)

lemma pm_run_induct:
  assumes "P conf"
    and "\<And>conf g. P conf \<Longrightarrow> g \<in> set sched \<Longrightarrow> P (pm_step a g conf)"
  shows "P (pm_run a sched conf)"
  using assms(2)
proof (induction sched rule: rev_induct)
  case Nil
  show ?case using assms(1) by simp
next
  case (snoc g sched)
  have "P (pm_run a sched conf)"
    by (rule snoc.IH) (simp add: snoc.prems)
  then show ?case
    unfolding pm_run_snoc by (rule snoc.prems) simp
qed

lemma pm_step_cases [case_names idle flag reserve full store undo halted]:
  obtains
    (idle) "pc g = Start" "\<not> atom_of a g < nlocal a" "pm_step a g (s, pc) = (s, pc(g := Idle))"
  | (flag) "pc g = Start" "atom_of a g < nlocal a" "out_of_domain a (dev_x s (atom_of a g))"
      "pm_step a g (s, pc) = (s\<lparr>d_error_flag := 1\<rparr>, pc(g := Flagged))"
  | (reserve) i where "pc g = Start" "lands_in a s i g"
      "pm_step a g (s, pc) =
         (s\<lparr>d_brick_counts := (d_brick_counts s)(i := d_brick_counts s i + 1)\<rparr>,
          pc(g := Reserved i (atom_of a g) (d_brick_counts s i)))"
  | (full) i ii where "pc g = Reserved i ii (max_atoms a)"
      "pm_step a g (s, pc) = (s\<lparr>d_error_flag := 2\<rparr>, pc(g := Undo i))"
  | (store) i ii old where "pc g = Reserved i ii old" "old \<noteq> max_atoms a"
      "pm_step a g (s, pc) =
         (s\<lparr>d_brick_atoms := (d_brick_atoms s)(atom_stride a * old + i := ii)\<rparr>,
          pc(g := Stored))"
  | (undo) i where "pc g = Undo i"
      "pm_step a g (s, pc) =
         (s\<lparr>d_brick_counts := (d_brick_counts s)(i := d_brick_counts s i - 1)\<rparr>,
          pc(g := Refused))"
  | (halted) "pm_done (pc g)" "pm_step a g (s, pc) = (s, pc)"
proof (cases "pc g")
  case Start
  show ?thesis
  proof (cases "atom_of a g < nlocal a")
    case False
    with Start show ?thesis
      by (intro idle) (simp_all add: pm_step_def Let_def)
  next
    case True
    show ?thesis
    proof (cases "out_of_domain a (dev_x s (atom_of a g))")
      case ood: True
      with Start True show ?thesis
        by (intro flag) (simp_all add: pm_step_def Let_def)
    next
      case ind: False
      with Start True show ?thesis
        by (intro reserve [of "cell_index a (dev_x s (atom_of a g))"])
           (simp_all add: pm_step_def Let_def lands_in_def atom_add_def)
    qed
  qed
next
  case (Reserved i ii old)
  show ?thesis
  proof (cases "old = max_atoms a")
    case True
    with Reserved show ?thesis
      by (intro full [of i ii]) (simp_all add: pm_step_def)
  next
    case False
    with Reserved show ?thesis
      by (intro store [of i ii old]) (simp_all add: pm_step_def)
  qed
next
  case (Undo i)
  then show ?thesis
    by (intro undo [of i]) (simp_all add: pm_step_def atom_add_def)
next
  case Refused
  then show ?thesis by (intro halted) (simp_all add: pm_step_def pm_done_def)
next
  case Stored
  then show ?thesis by (intro halted) (simp_all add: pm_step_def pm_done_def)
next
  case Flagged
  then show ?thesis by (intro halted) (simp_all add: pm_step_def pm_done_def)
next
  case Idle
  then show ?thesis by (intro halted) (simp_all add: pm_step_def pm_done_def)
qed

lemma lands_in_dev_x:
  assumes "dev_x s' = dev_x s"
  shows "lands_in a s' = lands_in a s"
  by (simp add: lands_in_def fun_eq_iff assms)


lemma pm_sound_init: "pm_sound a s (pm_init s)"
  by (simp add: pm_sound_def pm_init_def)

lemma pm_sound_step:
  assumes "pm_sound a s conf"
  shows "pm_sound a s (pm_step a g conf)"
proof -
  obtain s' pc where conf: "conf = (s', pc)"
    by (cases conf)
  have x: "dev_x s' = dev_x s"
    and r: "\<And>w i ii old. pc w = Reserved i ii old \<Longrightarrow> lands_in a s i w \<and> ii = atom_of a w"
    and u: "\<And>w i. pc w = Undo i \<Longrightarrow> lands_in a s i w"
    and f: "\<And>w. pc w = Flagged \<Longrightarrow>
         atom_of a w < nlocal a \<and> out_of_domain a (dev_x s (atom_of a w))"
    and o: "\<And>w. atom_of a w < nlocal a \<and> out_of_domain a (dev_x s (atom_of a w)) \<Longrightarrow>
         pc w = Start \<or> pc w = Flagged"
    using assms unfolding pm_sound_def conf by simp_all
  note l = lands_in_dev_x [OF x]
  show ?thesis
  proof (cases rule: pm_step_cases [where pc = pc and g = g and a = a and s = s'])
    case idle
    show ?thesis
      unfolding conf idle(3) pm_sound_def
      using x r u f o idle(1,2) by (auto simp: x)
  next
    case flag
    show ?thesis
      unfolding conf flag(4) pm_sound_def
      using x r u f o flag(1,2,3) by (auto simp: x)
  next
    case (reserve i)
    have li: "lands_in a s i g"
      using reserve(2) by (simp add: l)
    then have nood: "\<not> (atom_of a g < nlocal a \<and> out_of_domain a (dev_x s (atom_of a g)))"
      by (simp add: lands_in_def)
    show ?thesis
      unfolding conf reserve(3) pm_sound_def
      using x r u f o li nood by auto
  next
    case (full i ii)
    from r [OF full(1)] have li: "lands_in a s i g"
      by simp
    then have nood: "\<not> (atom_of a g < nlocal a \<and> out_of_domain a (dev_x s (atom_of a g)))"
      by (simp add: lands_in_def)
    show ?thesis
      unfolding conf full(2) pm_sound_def
      using x r u f o li nood by auto
  next
    case (store i ii old)
    from r [OF store(1)] have li: "lands_in a s i g"
      by simp
    then have nood: "\<not> (atom_of a g < nlocal a \<and> out_of_domain a (dev_x s (atom_of a g)))"
      by (simp add: lands_in_def)
    show ?thesis
      unfolding conf store(3) pm_sound_def
      using x r u f o li nood by auto
  next
    case (undo i)
    from u [OF undo(1)] have li: "lands_in a s i g" .
    then have nood: "\<not> (atom_of a g < nlocal a \<and> out_of_domain a (dev_x s (atom_of a g)))"
      by (simp add: lands_in_def)
    show ?thesis
      unfolding conf undo(2) pm_sound_def
      using x r u f o li nood by auto
  next
    case halted
    show ?thesis
      unfolding conf halted(2) using assms by (simp add: conf)
  qed
qed

lemma pm_sound_run: "pm_sound a s (pm_run a sched (pm_init s))"
  by (rule pm_run_induct [where P = "pm_sound a s"]) (simp_all add: pm_sound_init pm_sound_step)

lemma pm_lists_step:
  assumes "pm_sound a s conf" "pm_lists a s conf"
  shows "pm_lists a s (pm_step a g conf)"
proof -
  obtain s' pc where conf: "conf = (s', pc)"
    by (cases conf)
  have r: "\<And>w i ii old. pc w = Reserved i ii old \<Longrightarrow> lands_in a s i w \<and> ii = atom_of a w"
    using assms(1) unfolding pm_sound_def conf by simp
  have k: "\<And>k. d_brick_atoms s' k = d_brick_atoms s k \<or>
          (d_brick_atoms s' k < nlocal a \<and> \<not> out_of_domain a (dev_x s (d_brick_atoms s' k)))"
    using assms(2) unfolding pm_lists_def conf by simp
  show ?thesis
  proof (cases rule: pm_step_cases [where pc = pc and g = g and a = a and s = s'])
    case (store i ii old)
    from r [OF store(1)] have "ii < nlocal a \<and> \<not> out_of_domain a (dev_x s ii)"
      by (simp add: lands_in_def)
    then show ?thesis
      unfolding conf store(3) pm_lists_def using k by auto
  qed (use k in \<open>simp_all add: conf pm_lists_def\<close>)
qed

lemma pm_lists_run: "pm_lists a s (pm_run a sched (pm_init s))"
proof -
  have "pm_sound a s (pm_run a sched (pm_init s)) \<and> pm_lists a s (pm_run a sched (pm_init s))"
  proof (rule pm_run_induct [where P = "\<lambda>conf. pm_sound a s conf \<and> pm_lists a s conf"])
    show "pm_sound a s (pm_init s) \<and> pm_lists a s (pm_init s)"
      by (simp add: pm_sound_init) (simp add: pm_lists_def pm_init_def)
  next
    fix conf g
    assume "pm_sound a s conf \<and> pm_lists a s conf"
    then show "pm_sound a s (pm_step a g conf) \<and> pm_lists a s (pm_step a g conf)"
      by (simp add: pm_sound_step pm_lists_step)
  qed
  then show ?thesis ..
qed

lemma pm_flag_step:
  assumes "pm_flag conf"
  shows "pm_flag (pm_step a g conf)"
proof -
  obtain s' pc where conf: "conf = (s', pc)"
    by (cases conf)
  have 1: "(\<exists>w. pm_overflowed (pc w)) \<Longrightarrow> (\<forall>w. pc w \<noteq> Flagged) \<Longrightarrow> d_error_flag s' = 2"
    and 2: "(\<exists>w. pc w = Flagged) \<Longrightarrow> (\<forall>w. \<not> pm_overflowed (pc w)) \<Longrightarrow> d_error_flag s' = 1"
    and 3: "(\<exists>w. pc w = Flagged \<or> pm_overflowed (pc w)) \<Longrightarrow>
         d_error_flag s' = 1 \<or> d_error_flag s' = 2"
    using assms unfolding pm_flag_def conf by simp_all
  show ?thesis
  proof (cases rule: pm_step_cases [where pc = pc and g = g and a = a and s = s'])
    case idle
    have e: "pm_overflowed ((pc(g := Idle)) w) = pm_overflowed (pc w)"
      "((pc(g := Idle)) w = Flagged) = (pc w = Flagged)" for w
      using idle(1) by (auto simp: pm_overflowed_def)
    show ?thesis
      unfolding conf idle(3) using assms by (simp add: pm_flag_def conf e del: fun_upd_apply)
  next
    case flag
    show ?thesis
      unfolding conf flag(4) by (auto simp: pm_flag_def)
  next
    case (reserve i)
    have e: "pm_overflowed ((pc(g := Reserved i u v)) w) = pm_overflowed (pc w)"
      "((pc(g := Reserved i u v)) w = Flagged) = (pc w = Flagged)" for w u v
      using reserve(1) by (auto simp: pm_overflowed_def)
    show ?thesis
      unfolding conf reserve(3) using assms by (simp add: pm_flag_def conf e del: fun_upd_apply)
  next
    case (full i ii)
    show ?thesis
      unfolding conf full(2) by (auto simp: pm_flag_def pm_overflowed_def)
  next
    case (store i ii old)
    have e: "pm_overflowed ((pc(g := Stored)) w) = pm_overflowed (pc w)"
      "((pc(g := Stored)) w = Flagged) = (pc w = Flagged)" for w
      using store(1) by (auto simp: pm_overflowed_def)
    show ?thesis
      unfolding conf store(3) using assms by (simp add: pm_flag_def conf e del: fun_upd_apply)
  next
    case (undo i)
    have e: "pm_overflowed ((pc(g := Refused)) w) = pm_overflowed (pc w)"
      "((pc(g := Refused)) w = Flagged) = (pc w = Flagged)" for w
      using undo(1) by (auto simp: pm_overflowed_def)
    show ?thesis
      unfolding conf undo(2) using assms by (simp add: pm_flag_def conf e del: fun_upd_apply)
  next
    case halted
    show ?thesis
      unfolding conf halted(2) using assms by (simp add: conf)
  qed
qed

lemma pm_flag_run: "pm_flag (pm_run a sched (pm_init s))"
proof (rule pm_run_induct [where P = pm_flag])
  show "pm_flag (pm_init s)"
    by (simp add: pm_flag_def pm_init_def pm_overflowed_def)
next
  fix conf g
  assume "pm_flag conf"
  then show "pm_flag (pm_step a g conf)"
    by (rule pm_flag_step)
qed

lemma pm_step_left_Start: "snd (pm_step a g conf) g \<noteq> Start"
proof -
  obtain s' pc where conf: "conf = (s', pc)"
    by (cases conf)
  show ?thesis
    unfolding conf
    by (cases rule: pm_step_cases [where pc = pc and g = g and a = a and s = s']) (auto simp: pm_done_def)
qed

lemma pm_step_other: "w \<noteq> g \<Longrightarrow> snd (pm_step a g conf) w = snd conf w"
proof -
  assume w: "w \<noteq> g"
  obtain s' pc where conf: "conf = (s', pc)"
    by (cases conf)
  show ?thesis
    unfolding conf
    by (cases rule: pm_step_cases [where pc = pc and g = g and a = a and s = s']) (simp_all add: w)
qed

lemma pm_step_stays_left: "snd conf w \<noteq> Start \<Longrightarrow> snd (pm_step a g conf) w \<noteq> Start"
  using pm_step_left_Start [of a g conf] pm_step_other [of w g a conf] by (cases "w = g") auto

lemma pm_run_scheduled:
  assumes "w \<in> set sched"
  shows "snd (pm_run a sched conf) w \<noteq> Start"
  using assms
proof (induction sched rule: rev_induct)
  case Nil
  then show ?case by simp
next
  case (snoc g sched)
  show ?case
  proof (cases "w = g")
    case True
    then show ?thesis
      by (simp add: pm_run_snoc pm_step_left_Start)
  next
    case False
    with snoc.prems have "w \<in> set sched" by simp
    then show ?thesis
      unfolding pm_run_snoc by (intro pm_step_stays_left snoc.IH)
  qed
qed

lemma pm_run_unscheduled:
  assumes "w \<notin> set sched"
  shows "snd (pm_run a sched conf) w = snd conf w"
  using assms
  by (induction sched rule: rev_induct) (simp_all add: pm_run_snoc pm_step_other)















text \<open>A schedule that gives every worker three steps is complete.\<close>

lemma pm_todo_done: "pm_done p \<longleftrightarrow> pm_todo p = 0"
  by (simp add: pm_done_def pm_todo_def split: pm_pc.splits)

lemma pm_step_todo: "pm_todo (snd (pm_step a g conf) g) \<le> pm_todo (snd conf g) - 1"
proof -
  obtain s' pc where conf: "conf = (s', pc)"
    by (cases conf)
  show ?thesis
    unfolding conf
    by (cases rule: pm_step_cases [where pc = pc and g = g and a = a and s = s'])
       (auto simp: pm_todo_def pm_done_def split: pm_pc.splits)
qed

lemma pm_run_todo:
  "pm_todo (snd (pm_run a sched conf) w) \<le> pm_todo (snd conf w) - count_list sched w"
proof (induction sched rule: rev_induct)
  case Nil
  show ?case by simp
next
  case (snoc g sched)
  show ?case
  proof (cases "w = g")
    case True
    have "pm_todo (snd (pm_run a (sched @ [g]) conf) g) \<le> pm_todo (snd (pm_run a sched conf) g) - 1"
      unfolding pm_run_snoc by (rule pm_step_todo)
    with snoc.IH True show ?thesis
      by simp
  next
    case False
    with snoc.IH show ?thesis
      by (simp add: pm_run_snoc pm_step_other)
  qed
qed

lemma pm_run_complete:
  assumes "3 \<le> count_list sched w"
  shows "pm_done (snd (pm_run a sched (pm_init s)) w)"
proof -
  have "pm_todo (snd (pm_init s) w) = 3"
    by (simp add: pm_init_def pm_todo_def)
  with pm_run_todo [of a sched "pm_init s" w] assms show ?thesis
    by (simp add: pm_todo_done)
qed

text \<open>A pass with the workers one after the other is the run under the schedule that gives each worker its three steps in turn.\<close>

lemma pm_step_frame:
  assumes "pc' g = pc g"
  shows "fst (pm_step a g (s, pc')) = fst (pm_step a g (s, pc)) \<and>
         snd (pm_step a g (s, pc')) g = snd (pm_step a g (s, pc)) g"
  using assms by (simp add: pm_step_def Let_def atom_add_def split: pm_pc.splits)

lemma pm_step3:
  assumes "pc g = Start"
  shows "fst (pm_step a g (pm_step a g (pm_step a g (s, pc)))) = particle_map a g s"
proof -
  have 1: "fst (pm_step a g (s, pc)) = fst (pm_step a g (pm_init s))"
    "snd (pm_step a g (s, pc)) g = snd (pm_step a g (pm_init s)) g"
    using pm_step_frame [of pc g "\<lambda>w. Start" a s] assms by (simp_all add: pm_init_def)
  obtain s1 pc1 where c1: "pm_step a g (s, pc) = (s1, pc1)"
    by (cases "pm_step a g (s, pc)")
  obtain pc1' where c1': "pm_step a g (pm_init s) = (s1, pc1')" and e1: "pc1 g = pc1' g"
    using 1 c1 by (cases "pm_step a g (pm_init s)") auto
  have 2: "fst (pm_step a g (s1, pc1)) = fst (pm_step a g (s1, pc1'))"
    "snd (pm_step a g (s1, pc1)) g = snd (pm_step a g (s1, pc1')) g"
    using pm_step_frame [of pc1 g pc1' a s1] e1 by simp_all
  obtain s2 pc2 where c2: "pm_step a g (s1, pc1) = (s2, pc2)"
    by (cases "pm_step a g (s1, pc1)")
  obtain pc2' where c2': "pm_step a g (s1, pc1') = (s2, pc2')" and e2: "pc2 g = pc2' g"
    using 2 c2 by (cases "pm_step a g (s1, pc1')") auto
  have 3: "fst (pm_step a g (s2, pc2)) = fst (pm_step a g (s2, pc2'))"
    using pm_step_frame [of pc2 g pc2' a s2] e2 by simp
  show ?thesis
    by (simp add: particle_map_def c1 c1' c2 c2' 3)
qed

lemma particle_map_pass_is_a_run:
  assumes "distinct ws"
  shows "particle_map_pass a ws s =
           fst (pm_run a (concat (map (\<lambda>w. [w, w, w]) ws)) (pm_init s))"
proof -
  have "\<forall>w\<in>set ws. pc w = Start \<Longrightarrow>
      particle_map_pass a ws s = fst (pm_run a (concat (map (\<lambda>w. [w, w, w]) ws)) (s, pc))" for pc
    using assms
  proof (induction ws arbitrary: s pc)
    case Nil
    show ?case by (simp add: particle_map_pass_def)
  next
    case (Cons g ws)
    obtain s3 pc3 where c: "pm_step a g (pm_step a g (pm_step a g (s, pc))) = (s3, pc3)"
      by (cases "pm_step a g (pm_step a g (pm_step a g (s, pc)))")
    have g: "pc g = Start" and d: "distinct ws" and n: "g \<notin> set ws"
      using Cons.prems by simp_all
    have s3: "s3 = particle_map a g s"
      using pm_step3 [where pc = pc and g = g and a = a and s = s, OF g] by (simp add: c)
    have "pc3 w = pc w" if "w \<in> set ws" for w
    proof -
      from that n have "w \<noteq> g" by auto
      then have "snd (pm_step a g (pm_step a g (pm_step a g (s, pc)))) w = pc w"
        by (simp add: pm_step_other)
      then show ?thesis by (simp add: c)
    qed
    then have st: "\<forall>w\<in>set ws. pc3 w = Start"
      using Cons.prems(1) by simp
    have "particle_map_pass a (g # ws) s = particle_map_pass a ws (particle_map a g s)"
      by (simp add: particle_map_pass_def)
    also have "\<dots> = fst (pm_run a (concat (map (\<lambda>w. [w, w, w]) ws)) (s3, pc3))"
      unfolding s3 [symmetric] by (rule Cons.IH [OF st d])
    also have "\<dots> = fst (pm_run a (concat (map (\<lambda>w. [w, w, w]) (g # ws))) (s, pc))"
      by (simp add: pm_run_Cons c)
    finally show ?case .
  qed
  from this [of "\<lambda>w. Start"] show ?thesis
    by (simp add: pm_init_def)
qed

section \<open>Out-of-domain particles\<close>

text \<open>
  Claim C3 fails as stated in two ways. A particle that no worker handles is never
  tested: with three workers and stride 2 the workers handle the particles 0, 2 and 2,
  and with particle 1 outside the domain the flag is still 0 when all workers have
  returned. And the code 1 does not stay: in the small configuration worker 1 writes 1
  for particle 2, then worker 2 finds cell 0 full and writes 2, which is what the pass
  leaves.
\<close>

theorem unhandled_or_overtaken_particle_leaves_no_code_1:
  "1 < nlocal (ex_args\<lparr>nthreads := 3, nlocal := 3, max_atoms := 4\<rparr>) \<and>
   out_of_domain (ex_args\<lparr>nthreads := 3, nlocal := 3, max_atoms := 4\<rparr>)
     (dev_x (ex_dev\<lparr>dev_x := (\<lambda>i. if i = 1 then ex_x 2 else ex_x 0)\<rparr>) 1) \<and>
   map (atom_of (ex_args\<lparr>nthreads := 3, nlocal := 3, max_atoms := 4\<rparr>)) [0, 1, 2] = [0, 2, 2] \<and>
   map (snd (pm_run (ex_args\<lparr>nthreads := 3, nlocal := 3, max_atoms := 4\<rparr>) [0, 1, 2, 0, 1, 2]
          (pm_init (ex_dev\<lparr>dev_x := (\<lambda>i. if i = 1 then ex_x 2 else ex_x 0)\<rparr>)))) [0, 1, 2] =
     [Stored, Stored, Stored] \<and>
   d_error_flag (fst (pm_run (ex_args\<lparr>nthreads := 3, nlocal := 3, max_atoms := 4\<rparr>) [0, 1, 2, 0, 1, 2]
     (pm_init (ex_dev\<lparr>dev_x := (\<lambda>i. if i = 1 then ex_x 2 else ex_x 0)\<rparr>)))) = 0 \<and>
   2 < nlocal ex_args \<and> out_of_domain ex_args (dev_x ex_dev 2) \<and> atom_of ex_args 1 = 2 \<and>
   map (snd (pm_run ex_args [0, 1, 2, 3, 0, 2, 3, 2] (pm_init ex_dev))) [0, 1, 2, 3] =
     [Stored, Flagged, Refused, Stored] \<and>
   d_error_flag (fst (pm_run ex_args [0, 1, 2, 3, 0, 2, 3, 2] (pm_init ex_dev))) = 2"
  by code_simp

text \<open>
  Claim C3, amended. A particle \<open>j < nlocal\<close> whose fractional coordinate is negative
  on some axis, or whose integer part reaches the local extent on some axis, under any
  schedule of the workers' steps: the one step of a worker that handles it writes 1 to
  the flag and nothing else; once such a worker has taken its step the flag is 1 or 2,
  and it is 1 when no worker has found its cell full; no slot of the atom lists holds
  \<open>j\<close> unless it held it before the pass; the worker of \<^verbatim>\<open>make_rho3\<close> that
  handles it only writes 1 to the flag, and the brick of a pass of \<^verbatim>\<open>make_rho3\<close>
  does not depend on its charge.
\<close>

theorem out_of_domain_particle_is_excluded:
  assumes "j < nlocal a"
    and "frac_x a (dev_x s j) < 0 \<or> frac_y a (dev_x s j) < 0 \<or> frac_z a (dev_x s j) < 0 \<or>
         nlocal_x a \<le> int_cast (frac_x a (dev_x s j)) \<or>
         nlocal_y a \<le> int_cast (frac_y a (dev_x s j)) \<or>
         nlocal_z a \<le> int_cast (frac_z a (dev_x s j))"
    and "conf = pm_run a sched (pm_init s)"
  shows "(\<forall>g. atom_of a g = j \<and> snd conf g = Start \<longrightarrow>
            pm_step a g conf = ((fst conf)\<lparr>d_error_flag := 1\<rparr>, (snd conf)(g := Flagged))) \<and>
         (\<forall>g\<in>set sched. atom_of a g = j \<longrightarrow>
            snd conf g = Flagged \<and>
            (d_error_flag (fst conf) = 1 \<or> d_error_flag (fst conf) = 2) \<and>
            ((\<forall>w\<in>set sched. \<not> pm_overflowed (snd conf w)) \<longrightarrow> d_error_flag (fst conf) = 1)) \<and>
         (\<forall>k. d_brick_atoms (fst conf) k = j \<longrightarrow> d_brick_atoms s k = j) \<and>
         (\<forall>gid. atom_of a gid = j \<longrightarrow> make_rho3 a gid s = s\<lparr>d_error_flag := 1\<rparr>) \<and>
         (\<forall>ws q'. d_brick (make_rho3_pass a ws (s\<lparr>dev_q := (dev_q s)(j := q')\<rparr>)) =
                   d_brick (make_rho3_pass a ws s))"
proof -
  obtain s' pc where sp: "conf = (s', pc)"
    by (cases conf)
  have ood: "out_of_domain a (dev_x s j)"
    using assms(2) by (simp add: out_of_domain_def)
  have snd: "pm_sound a s conf"
    unfolding assms(3) by (rule pm_sound_run)
  have lst: "pm_lists a s conf"
    unfolding assms(3) by (rule pm_lists_run)
  have flg: "pm_flag conf"
    unfolding assms(3) by (rule pm_flag_run)
  have x: "dev_x s' = dev_x s"
    using snd unfolding pm_sound_def sp by simp
  have 1: "pm_step a g conf = ((fst conf)\<lparr>d_error_flag := 1\<rparr>, (snd conf)(g := Flagged))"
    if "atom_of a g = j \<and> snd conf g = Start" for g
    using that assms(1) ood by (simp add: sp pm_step_def Let_def x)
  have 2: "snd conf g = Flagged \<and>
            (d_error_flag (fst conf) = 1 \<or> d_error_flag (fst conf) = 2) \<and>
            ((\<forall>w\<in>set sched. \<not> pm_overflowed (snd conf w)) \<longrightarrow> d_error_flag (fst conf) = 1)"
    if g: "g \<in> set sched" and j: "atom_of a g = j" for g
  proof -
    have "snd conf g \<noteq> Start"
      unfolding assms(3) by (rule pm_run_scheduled [OF g])
    moreover have "snd conf g = Start \<or> snd conf g = Flagged"
      using snd assms(1) ood j unfolding pm_sound_def by blast
    ultimately have f: "snd conf g = Flagged"
      by simp
    then have r: "d_error_flag (fst conf) = 1 \<or> d_error_flag (fst conf) = 2"
      using flg unfolding pm_flag_def by blast
    have "d_error_flag (fst conf) = 1" if n: "\<forall>w\<in>set sched. \<not> pm_overflowed (snd conf w)"
    proof -
      have "\<not> pm_overflowed (snd conf w)" for w
      proof (cases "w \<in> set sched")
        case True
        with n show ?thesis by simp
      next
        case False
        then have "snd conf w = snd (pm_init s) w"
          unfolding assms(3) by (rule pm_run_unscheduled)
        then show ?thesis
          by (simp add: pm_init_def pm_overflowed_def)
      qed
      with f flg show ?thesis
        unfolding pm_flag_def by blast
    qed
    with f r show ?thesis
      by simp
  qed
  have 3: "d_brick_atoms s k = j" if k: "d_brick_atoms (fst conf) k = j" for k
  proof -
    from lst have "d_brick_atoms (fst conf) k = d_brick_atoms s k \<or>
        \<not> out_of_domain a (dev_x s (d_brick_atoms (fst conf) k))"
      unfolding pm_lists_def by blast
    with ood k show ?thesis
      by auto
  qed
  have 4: "make_rho3 a gid s = s\<lparr>d_error_flag := 1\<rparr>" if "atom_of a gid = j" for gid
    using that assms(1) ood by (simp add: make_rho3_out_of_domain)
  have 5: "d_brick (make_rho3_pass a ws (s\<lparr>dev_q := (dev_q s)(j := q')\<rparr>)) =
                   d_brick (make_rho3_pass a ws s)" for ws q'
    by (simp add: make_rho3_pass_charge_irrelevant [OF ood])
  from 1 2 3 4 5 show ?thesis
    by blast
qed

theorem out_of_domain_particle_is_excluded_witness:
  "snd (pm_run ex_args [0, 1, 3, 0, 3] (pm_init ex_dev)) 1 = Flagged \<and>
   d_error_flag (fst (pm_run ex_args [0, 1, 3, 0, 3] (pm_init ex_dev))) = 1 \<and>
   d_brick_atoms (fst (pm_run ex_args [0, 1, 3, 0, 3] (pm_init ex_dev))) 0 \<noteq> 2 \<and>
   fst (pm_step ex_args 1 (pm_run ex_args [0, 3] (pm_init ex_dev))) =
     (fst (pm_run ex_args [0, 3] (pm_init ex_dev)))\<lparr>d_error_flag := 1\<rparr> \<and>
   make_rho3 ex_args 1 ex_dev = ex_dev\<lparr>d_error_flag := 1\<rparr> \<and>
   d_brick (make_rho3_pass ex_args [0, 1, 2, 3] (ex_dev\<lparr>dev_q := (dev_q ex_dev)(2 := 5)\<rparr>)) =
     d_brick (make_rho3_pass ex_args [0, 1, 2, 3] ex_dev)"
proof -
  let ?c = "pm_run ex_args [0, 1, 3, 0, 3] (pm_init ex_dev)"
  let ?d = "pm_run ex_args [0, 3] (pm_init ex_dev)"
  have h1: "2 < nlocal ex_args"
    by (simp add: ex_args_def)
  have h2: "frac_x ex_args (dev_x ex_dev 2) < 0 \<or> frac_y ex_args (dev_x ex_dev 2) < 0 \<or>
         frac_z ex_args (dev_x ex_dev 2) < 0 \<or>
         nlocal_x ex_args \<le> int_cast (frac_x ex_args (dev_x ex_dev 2)) \<or>
         nlocal_y ex_args \<le> int_cast (frac_y ex_args (dev_x ex_dev 2)) \<or>
         nlocal_z ex_args \<le> int_cast (frac_z ex_args (dev_x ex_dev 2))"
    by (simp add: ex_args_def ex_dev_def ex_x_def frac_x_def)
  have g: "atom_of ex_args 1 = 2" "(1::int) \<in> set [0, 1, 3, 0, 3]"
    by (simp_all add: ex_args_def resequence_def mul24_def Let_def)
  have n: "\<forall>w\<in>set [0, 1, 3, 0, 3]. \<not> pm_overflowed (snd ?c w)"
    by code_simp
  have st: "snd ?d 1 = Start"
    by code_simp
  have z: "d_brick_atoms ex_dev 0 \<noteq> 2"
    by (simp add: ex_dev_def)
  note t = out_of_domain_particle_is_excluded [OF h1 h2 refl, of "[0, 1, 3, 0, 3]"]
  note t0 = out_of_domain_particle_is_excluded [OF h1 h2 refl, of "[0, 3]"]
  from t g n have a: "snd ?c 1 = Flagged" "d_error_flag (fst ?c) = 1"
    by blast+
  from t z have b: "d_brick_atoms (fst ?c) 0 \<noteq> 2"
    by blast
  from t0 g(1) st have "pm_step ex_args 1 ?d = ((fst ?d)\<lparr>d_error_flag := 1\<rparr>, (snd ?d)(1 := Flagged))"
    by blast
  then have c: "fst (pm_step ex_args 1 ?d) = (fst ?d)\<lparr>d_error_flag := 1\<rparr>"
    by simp
  from t g(1) have d: "make_rho3 ex_args 1 ex_dev = ex_dev\<lparr>d_error_flag := 1\<rparr>"
    by blast
  from t have e: "d_brick (make_rho3_pass ex_args [0, 1, 2, 3]
        (ex_dev\<lparr>dev_q := (dev_q ex_dev)(2 := 5)\<rparr>)) =
     d_brick (make_rho3_pass ex_args [0, 1, 2, 3] ex_dev)"
    by blast
  from a b c d e show ?thesis
    by simp
qed

lemma ex_atom_of: "atom_of ex_args 0 = 0" "atom_of ex_args 1 = 2" "atom_of ex_args 2 = 1"
  "atom_of ex_args 3 = 3"
  by (simp_all add: ex_args_def resequence_def mul24_def Let_def)

section \<open>Cell overflow\<close>

lemma particle_map_pass_flag_full:
  assumes "\<forall>w\<in>set ws. lands_in a s c w"
    and "d_brick_counts s c \<le> max_atoms a"
    and "max_atoms a < d_brick_counts s c + int (length ws)"
  shows "d_error_flag (particle_map_pass a ws s) = 2"
  using assms
proof (induction ws arbitrary: s rule: rev_induct)
  case Nil
  then show ?case by simp
next
  case (snoc w ws)
  let ?s' = "particle_map_pass a ws s"
  have all: "\<forall>w\<in>set ws. lands_in a s c w" and lw: "lands_in a s c w"
    using snoc.prems(1) by simp_all
  have flt: "filter (lands_in a s c) ws = ws"
    using all by simp
  have cnt: "d_brick_counts ?s' c = min (max_atoms a) (d_brick_counts s c + int (length ws))"
    using particle_map_pass_counts [OF snoc.prems(2), of ws] by (simp only: flt)
  have lw': "lands_in a ?s' c w"
    using lw by (simp add: lands_in_def)
  show ?case
  proof (cases "d_brick_counts ?s' c = max_atoms a")
    case True
    with lw' show ?thesis
      by (simp add: particle_map_pass_snoc particle_map_full lands_in_def)
  next
    case False
    with cnt snoc.prems have "max_atoms a < d_brick_counts s c + int (length ws)"
      by (auto simp: min_def split: if_splits)
    with snoc.IH [OF all snoc.prems(2)] have "d_error_flag ?s' = 2"
      by simp
    with lw' False show ?thesis
      by (simp add: particle_map_pass_snoc particle_map_insert lands_in_def)
  qed
qed

lemma ex_lands_in: "lands_in ex_args ex_dev 0 0" "lands_in ex_args ex_dev 0 2"
  by code_simp+




section \<open>The error flag\<close>

text \<open>
  Claim C5 fails as stated: the flag is written with a plain store. In the small
  configuration worker 2 finds cell 0 full and writes 2, then worker 1 finds its particle
  out of the domain and writes 1, which is what the pass leaves.
\<close>

theorem error_flag_code_1_replaces_code_2:
  "lands_in ex_args ex_dev 0 2 \<and>
   d_brick_counts (particle_map_pass ex_args [0] ex_dev) 0 = max_atoms ex_args \<and>
   d_error_flag (particle_map_pass ex_args [0, 2] ex_dev) = 2 \<and>
   atom_of ex_args 1 < nlocal ex_args \<and>
   out_of_domain ex_args (dev_x ex_dev (atom_of ex_args 1)) \<and>
   d_error_flag (particle_map_pass ex_args [0, 2, 1] ex_dev) = 1 \<and>
   d_error_flag (make_rho3 ex_args 1 (particle_map_pass ex_args [0, 2] ex_dev)) = 1"
  by code_simp

lemma make_rho3_flag:
  "d_error_flag (make_rho3 a gid s) =
     (if atom_of a gid < nlocal a \<and> out_of_domain a (dev_x s (atom_of a gid)) then 1
      else d_error_flag s)"
  by (simp add: make_rho3_def Let_def)

text \<open>
  Claim C5, amended. The flag holds the code written last: a worker that finds its
  particle out of the domain leaves 1 (in the mapper and in \<^verbatim>\<open>make_rho3\<close>),
  whatever the flag held; a worker that finds its cell full leaves 2; a worker that
  inserts its particle, or has no particle, leaves the flag as it was.
\<close>

theorem error_flag_last_write_wins:
  "(atom_of a w1 < nlocal a \<and> out_of_domain a (dev_x s (atom_of a w1)) \<longrightarrow>
      d_error_flag (particle_map_pass a (ws1 @ [w1]) s) = 1 \<and>
      d_error_flag (make_rho3_pass a (ws1 @ [w1]) s) = 1) \<and>
   (lands_in a s c2 w2 \<and> d_brick_counts (particle_map_pass a ws2 s) c2 = max_atoms a \<longrightarrow>
      d_error_flag (particle_map_pass a (ws2 @ [w2]) s) = 2) \<and>
   (lands_in a s c3 w3 \<and> d_brick_counts (particle_map_pass a ws3 s) c3 \<noteq> max_atoms a \<longrightarrow>
      d_error_flag (particle_map_pass a (ws3 @ [w3]) s) =
        d_error_flag (particle_map_pass a ws3 s)) \<and>
   (\<not> atom_of a w4 < nlocal a \<longrightarrow>
      d_error_flag (particle_map_pass a (ws4 @ [w4]) s) =
        d_error_flag (particle_map_pass a ws4 s))"
proof (intro conjI impI)
  {
    assume h: "atom_of a w1 < nlocal a \<and> out_of_domain a (dev_x s (atom_of a w1))"
    then show "d_error_flag (particle_map_pass a (ws1 @ [w1]) s) = 1"
      by (simp add: particle_map_pass_snoc particle_map_out_of_domain)
    have "dev_x (make_rho3_pass a ws1 s) = dev_x s"
      unfolding make_rho3_pass_def by (induction ws1 arbitrary: s) simp_all
    with h show "d_error_flag (make_rho3_pass a (ws1 @ [w1]) s) = 1"
      by (simp add: make_rho3_pass_def make_rho3_flag)
  next
    assume "lands_in a s c2 w2 \<and> d_brick_counts (particle_map_pass a ws2 s) c2 = max_atoms a"
    then show "d_error_flag (particle_map_pass a (ws2 @ [w2]) s) = 2"
      by (simp add: particle_map_pass_snoc particle_map_full lands_in_def)
  next
    assume "lands_in a s c3 w3 \<and>
      d_brick_counts (particle_map_pass a ws3 s) c3 \<noteq> max_atoms a"
    then show "d_error_flag (particle_map_pass a (ws3 @ [w3]) s) =
        d_error_flag (particle_map_pass a ws3 s)"
      by (simp add: particle_map_pass_snoc particle_map_insert lands_in_def)
  next
    assume "\<not> atom_of a w4 < nlocal a"
    then show "d_error_flag (particle_map_pass a (ws4 @ [w4]) s) =
        d_error_flag (particle_map_pass a ws4 s)"
      by (simp add: particle_map_pass_snoc particle_map_idle)
  }
qed

theorem error_flag_last_write_wins_witness:
  "d_error_flag (particle_map_pass ex_args ([0, 2] @ [1]) ex_dev) = 1 \<and>
   d_error_flag (make_rho3_pass ex_args ([0, 2] @ [1]) ex_dev) = 1 \<and>
   d_error_flag (particle_map_pass ex_args ([0] @ [2]) ex_dev) = 2 \<and>
   d_error_flag (particle_map_pass ex_args ([] @ [0]) ex_dev) =
     d_error_flag (particle_map_pass ex_args [] ex_dev) \<and>
   d_error_flag (particle_map_pass (ex_args\<lparr>nlocal := 3\<rparr>) ([0] @ [3]) ex_dev) =
     d_error_flag (particle_map_pass (ex_args\<lparr>nlocal := 3\<rparr>) [0] ex_dev)"
proof -
  have h1: "atom_of ex_args 1 < nlocal ex_args \<and>
      out_of_domain ex_args (dev_x ex_dev (atom_of ex_args 1))"
    by code_simp
  have h2: "lands_in ex_args ex_dev 0 2 \<and>
      d_brick_counts (particle_map_pass ex_args [0] ex_dev) 0 = max_atoms ex_args"
    by code_simp
  have h3: "lands_in ex_args ex_dev 0 0 \<and>
      d_brick_counts (particle_map_pass ex_args [] ex_dev) 0 \<noteq> max_atoms ex_args"
    by code_simp
  have h4: "\<not> atom_of (ex_args\<lparr>nlocal := 3\<rparr>) 3 < nlocal (ex_args\<lparr>nlocal := 3\<rparr>)"
    by code_simp
  from error_flag_last_write_wins [of ex_args 1 ex_dev "[0, 2]" 0 2 "[0]" 0 0 "[]"] h1 h2 h3
  have a: "d_error_flag (particle_map_pass ex_args ([0, 2] @ [1]) ex_dev) = 1"
    and b: "d_error_flag (make_rho3_pass ex_args ([0, 2] @ [1]) ex_dev) = 1"
    and c: "d_error_flag (particle_map_pass ex_args ([0] @ [2]) ex_dev) = 2"
    and d: "d_error_flag (particle_map_pass ex_args ([] @ [0]) ex_dev) =
     d_error_flag (particle_map_pass ex_args [] ex_dev)"
    by blast+
  from error_flag_last_write_wins [where a = "ex_args\<lparr>nlocal := 3\<rparr>" and s = ex_dev
      and ?w4.0 = 3 and ?ws4.0 = "[0]"] h4
  have e: "d_error_flag (particle_map_pass (ex_args\<lparr>nlocal := 3\<rparr>) ([0] @ [3]) ex_dev) =
     d_error_flag (particle_map_pass (ex_args\<lparr>nlocal := 3\<rparr>) [0] ex_dev)"
    by blast
  from a b c d e show ?thesis
    by blast
qed


section \<open>Insertion into the atom lists\<close>

text \<open>
  Claim C7 fails as stated for an in-domain particle that finds its cell full: in the
  small configuration particle 1 lies in cell 0, whose counter is 1, the capacity, and
  slot 1 of cell 0 does not receive it.
\<close>

theorem full_cell_stores_no_index:
  "atom_of ex_args 2 = 1 \<and> 1 < nlocal ex_args \<and>
   \<not> out_of_domain ex_args (dev_x (particle_map ex_args 0 ex_dev) 1) \<and>
   cell_index ex_args (dev_x (particle_map ex_args 0 ex_dev) 1) = 0 \<and>
   d_brick_counts (particle_map ex_args 0 ex_dev) 0 = 1 \<and>
   d_brick_atoms (particle_map ex_args 2 (particle_map ex_args 0 ex_dev))
     (atom_stride ex_args * 1 + 0) \<noteq> 1"
  by code_simp

text \<open>
  Claim C7, amended. For an in-domain particle the integer part of each fractional
  coordinate \<open>(pos - lower) * inverseSpacing\<close> is its floor, the cell offset is built
  from these floors, and, when the counter of the cell differs from \<open>max_atoms\<close>, the
  particle's index is stored at the slot of the counter's value before the increment
  and the counter grows by one.
\<close>

theorem in_domain_particle_is_listed:
  assumes "atom_of a gid < nlocal a"
    and "\<not> out_of_domain a (dev_x s (atom_of a gid))"
    and "p = dev_x s (atom_of a gid)"
    and "i = cell_index a p"
  shows "int_cast ((p_x p - b_lo_x a) * delxinv a) = \<lfloor>(p_x p - b_lo_x a) * delxinv a\<rfloor> \<and>
         int_cast ((p_y p - b_lo_y a) * delyinv a) = \<lfloor>(p_y p - b_lo_y a) * delyinv a\<rfloor> \<and>
         int_cast ((p_z p - b_lo_z a) * delzinv a) = \<lfloor>(p_z p - b_lo_z a) * delzinv a\<rfloor> \<and>
         i = \<lfloor>(p_z p - b_lo_z a) * delzinv a\<rfloor> * nlocal_y a * nlocal_x a
               + \<lfloor>(p_y p - b_lo_y a) * delyinv a\<rfloor> * nlocal_x a
               + \<lfloor>(p_x p - b_lo_x a) * delxinv a\<rfloor> \<and>
         (d_brick_counts s i \<noteq> max_atoms a \<longrightarrow>
            d_brick_atoms (particle_map a gid s) (atom_stride a * d_brick_counts s i + i)
              = atom_of a gid \<and>
            d_brick_counts (particle_map a gid s) i = d_brick_counts s i + 1)"
proof -
  have nn: "0 \<le> frac_x a p" "0 \<le> frac_y a p" "0 \<le> frac_z a p"
    using assms(2,3) by (auto simp: out_of_domain_def)
  then have fl: "int_cast (frac_x a p) = \<lfloor>frac_x a p\<rfloor>" "int_cast (frac_y a p) = \<lfloor>frac_y a p\<rfloor>"
    "int_cast (frac_z a p) = \<lfloor>frac_z a p\<rfloor>"
    by (simp_all add: int_cast_def)
  have ins: "d_brick_counts s i \<noteq> max_atoms a \<Longrightarrow>
    d_brick_atoms (particle_map a gid s) (atom_stride a * d_brick_counts s i + i) = atom_of a gid \<and>
    d_brick_counts (particle_map a gid s) i = d_brick_counts s i + 1"
    using assms by (simp add: particle_map_insert)
  from fl ins assms(4) show ?thesis
    by (simp add: cell_index_def frac_x_def frac_y_def frac_z_def)
qed

theorem in_domain_particle_is_listed_witness:
  "int_cast ((p_x (ex_x 3) - b_lo_x ex_args) * delxinv ex_args) = 1 \<and>
   cell_index ex_args (ex_x 3) = 1 \<and>
   d_brick_atoms (particle_map ex_args 3 ex_dev) (atom_stride ex_args * 0 + 1) = 3 \<and>
   d_brick_counts (particle_map ex_args 3 ex_dev) 1 = 1"
proof -
  have h1: "atom_of ex_args 3 < nlocal ex_args"
    by code_simp
  have h2: "\<not> out_of_domain ex_args (dev_x ex_dev (atom_of ex_args 3))"
    by code_simp
  have h3: "ex_x 3 = dev_x ex_dev (atom_of ex_args 3)"
    by (simp add: ex_atom_of) (simp add: ex_dev_def)
  have h4: "1 = cell_index ex_args (ex_x 3)"
    by code_simp
  have c: "d_brick_counts ex_dev 1 = 0" "max_atoms ex_args = 1" "atom_of ex_args 3 = 3"
    by code_simp+
  have f: "\<lfloor>(p_x (ex_x 3) - b_lo_x ex_args) * delxinv ex_args\<rfloor> = 1"
    by code_simp
  from in_domain_particle_is_listed [OF h1 h2 h3 h4] c f h4 show ?thesis
    by simp
qed

section \<open>The resequencing of the workers\<close>

lemma mul24_small:
  assumes "0 \<le> x" "x < 2 ^ 23" "0 \<le> y" "y < 2 ^ 23" "x * y < 2 ^ 31"
  shows "mul24 x y = x * y"
proof -
  have a: "signed_take_bit 23 x = x"
    using assms(1,2) by (intro signed_take_bit_int_eq_self) simp_all
  have b: "signed_take_bit 23 y = y"
    using assms(3,4) by (intro signed_take_bit_int_eq_self) simp_all
  have "0 \<le> x * y" using assms by simp
  then have c: "signed_take_bit 31 (x * y) = x * y"
    using assms(5) by (intro signed_take_bit_int_eq_self) simp_all
  show ?thesis
    unfolding mul24_def a b c ..
qed

lemma sdiv_nonneg:
  assumes "0 \<le> k" "0 < l"
  shows "k sdiv l = k div (l::int)"
proof (cases "k = 0")
  case True
  then show ?thesis by simp
next
  case False
  with assms have "sgn k = 1" "sgn l = 1" "\<bar>k\<bar> = k" "\<bar>l\<bar> = l" by simp_all
  then show ?thesis by (simp add: signed_divide_int_def)
qed


lemma resequence_eq:
  assumes "0 \<le> i" "i < n" "1 \<le> sk" "sk dvd n" "n < 2 ^ 23" "n * sk \<le> 2 ^ 31"
  shows "resequence n sk i = sk * (i mod (n div sk)) + i div (n div sk)"
proof -
  define m where "m = n div sk"
  have n: "n = sk * m" using assms(4) by (simp add: m_def)
  have npos: "0 < n" using assms(1,2) by simp
  have skn: "sk \<le> n" using assms(4) npos by (rule zdvd_imp_le)
  have "i * sk < n * sk" using assms(2,3) by simp
  then have prod: "i * sk < 2 ^ 31" using assms(6) by simp
  have sk23: "sk < 2 ^ 23" using skn assms(5) by simp
  have i23: "i < 2 ^ 23" using assms(2,5) by simp
  have sk0: "0 \<le> sk" using assms(3) by simp
  have mul: "mul24 i sk = i * sk"
    using assms(1) i23 sk0 sk23 prod by (rule mul24_small)
  have nonneg: "0 \<le> i * sk" using assms(1) sk0 by simp
  have "(i * sk) sdiv n = (i * sk) div n"
    using nonneg npos by (rule sdiv_nonneg)
  also have "\<dots> = (sk * i) div (sk * m)" by (simp add: n mult.commute)
  also have "\<dots> = i div m" using assms(3) by simp
  finally have q: "(i * sk) sdiv n = i div m" .
  have "resequence n sk i = i * sk - (i div m) * (n - 1)"
    by (simp add: resequence_def Let_def mul q)
  also have "\<dots> = sk * (i - (i div m) * m) + i div m"
    by (simp add: n algebra_simps)
  also have "i - (i div m) * m = i mod m"
    by (simp add: minus_div_mult_eq_mod)
  finally show ?thesis by (simp add: m_def)
qed

lemma int_div_less:
  assumes "0 < m" "i < m * sk"
  shows "i div m < (sk::int)"
proof (rule ccontr)
  assume "\<not> i div m < sk"
  then have "sk \<le> i div m" by simp
  then have a: "m * sk \<le> m * (i div m)" using assms(1) by (simp add: mult_left_mono)
  have "m * (i div m) + i mod m = i" by simp
  moreover have "0 \<le> i mod m" using assms(1) by simp
  ultimately have "m * (i div m) \<le> i" by linarith
  with a assms(2) show False by simp
qed

lemma resequence_range:
  assumes "0 \<le> i" "i < n" "1 \<le> sk" "sk dvd n" "n < 2 ^ 23" "n * sk \<le> 2 ^ 31"
  shows "0 \<le> resequence n sk i \<and> resequence n sk i < n"
proof -
  define m where "m = n div sk"
  have n: "n = sk * m" using assms(4) by (simp add: m_def)
  have "0 < sk * m" "0 < sk" using assms(1,2,3) n by simp_all
  then have mpos: "0 < m" by (rule zero_less_mult_pos)
  have d: "0 \<le> i div m" "i div m < sk"
    using assms(1,2) mpos n by (simp_all add: pos_imp_zdiv_nonneg_iff int_div_less mult.commute)
  have r: "0 \<le> i mod m" "i mod m \<le> m - 1"
    using mpos by simp_all
  have "sk * (i mod m) \<le> sk * (m - 1)"
    using r(2) assms(3) by (intro mult_left_mono) simp_all
  then have "sk * (i mod m) + i div m < n"
    using d(2) by (simp add: n algebra_simps)
  moreover have "0 \<le> sk * (i mod m) + i div m"
    using d(1) r(1) assms(3) by simp
  ultimately show ?thesis
    unfolding resequence_eq [OF assms] m_def by simp
qed

lemma resequence_inj:
  assumes "0 \<le> i" "i < n" "0 \<le> j" "j < n" "1 \<le> sk" "sk dvd n" "n < 2 ^ 23"
    "n * sk \<le> 2 ^ 31" "resequence n sk i = resequence n sk j"
  shows "i = j"
proof -
  define m where "m = n div sk"
  have n: "n = sk * m" using assms(6) by (simp add: m_def)
  have "0 < sk * m" "0 < sk" using assms(1,2,5) n by simp_all
  then have mpos: "0 < m" by (rule zero_less_mult_pos)
  have di: "0 \<le> i div m" "i div m < sk"
    using assms(1,2) mpos n by (simp_all add: pos_imp_zdiv_nonneg_iff int_div_less mult.commute)
  have dj: "0 \<le> j div m" "j div m < sk"
    using assms(3,4) mpos n by (simp_all add: pos_imp_zdiv_nonneg_iff int_div_less mult.commute)
  have eq: "sk * (i mod m) + i div m = sk * (j mod m) + j div m"
    using assms(9)
    unfolding resequence_eq [OF assms(1,2,5,6,7,8)] resequence_eq [OF assms(3,4,5,6,7,8)] m_def .
  have "(sk * (i mod m) + i div m) mod sk = i div m" "(sk * (j mod m) + j div m) mod sk = j div m"
    using di dj by simp_all
  with eq have e1: "i div m = j div m" by simp
  with eq assms(5) have e2: "i mod m = j mod m" by simp
  have "i = m * (i div m) + i mod m" by simp
  also have "\<dots> = m * (j div m) + j mod m" by (simp only: e1 e2)
  also have "\<dots> = j" by simp
  finally show ?thesis .
qed

lemma resequence_bij:
  assumes "1 \<le> sk" "sk dvd n" "n < 2 ^ 23" "n * sk \<le> 2 ^ 31"
  shows "bij_betw (resequence n sk) {0..<n} {0..<n}"
proof -
  have inj: "inj_on (resequence n sk) {0..<n}"
    by (rule inj_onI) (use assms in \<open>auto intro: resequence_inj\<close>)
  have "resequence n sk ` {0..<n} \<subseteq> {0..<n}"
    using resequence_range [OF _ _ assms] by auto
  then have "resequence n sk ` {0..<n} = {0..<n}"
    using inj by (intro endo_inj_surj) simp_all
  with inj show ?thesis
    by (simp add: bij_betw_def)
qed


lemma mset_upto_int: "mset [i..j] = mset_set {i..j::int}"
  by (metis distinct_upto mset_set_set set_upto)

lemma resequence_mset:
  assumes "1 \<le> sk" "sk dvd n" "n < 2 ^ 23" "n * sk \<le> 2 ^ 31"
  shows "mset (map (resequence n sk) [0..n - 1]) = mset [0..n - 1]"
proof -
  have eq: "{0..n - 1} = {0..<n}" by auto
  have b: "bij_betw (resequence n sk) {0..<n} {0..<n}"
    using assms by (rule resequence_bij)
  have "mset (map (resequence n sk) [0..n - 1]) = image_mset (resequence n sk) (mset_set {0..<n})"
    by (simp add: mset_upto_int eq)
  also have "\<dots> = mset_set (resequence n sk ` {0..<n})"
    using b by (intro image_mset_mset_set) (simp add: bij_betw_def)
  also have "\<dots> = mset_set {0..<n}"
    using b by (simp add: bij_betw_def)
  finally show ?thesis by (simp add: mset_upto_int eq)
qed










section \<open>Charge assignment: the deposit of one particle and of a pass\<close>

lemma int_interval_insert: "l < u \<Longrightarrow> {l..<u::int} = insert l {l + 1..<u}"
  by auto

lemma sum_int_interval_head:
  fixes f :: "int \<Rightarrow> numtyp"
  assumes "l < u"
  shows "(\<Sum>k\<in>{l..<u}. f k) = f l + (\<Sum>k\<in>{l + 1..<u}. f k)"
  by (simp add: int_interval_insert [OF assms])

lemma horner_cong:
  "(\<And>j. k \<le> j \<Longrightarrow> j \<le> l \<Longrightarrow> c j = c' j) \<Longrightarrow> horner c ord k d l r = horner c' ord k d l r"
proof (induction c ord k d l r rule: horner.induct)
  case (1 c ord k d l r)
  have u: "horner c ord k d l r = (if 0 < ord \<and> k \<le> l then horner c ord k d (l - ord) (c l + r * d) else r)"
    by (rule horner.simps)
  have u': "horner c' ord k d l r = (if 0 < ord \<and> k \<le> l then horner c' ord k d (l - ord) (c' l + r * d) else r)"
    by (rule horner.simps)
  show ?case
  proof (cases "0 < ord \<and> k \<le> l")
    case True
    have e: "c l = c' l"
      using True "1.prems" by simp
    have "horner c ord k d (l - ord) (c l + r * d) = horner c' ord k d (l - ord) (c l + r * d)"
      using True "1.prems" by (intro "1.IH") simp_all
    then show ?thesis
      by (simp only: u u' True if_True e)
  next
    case False
    show ?thesis
      by (simp only: u u' False if_False)
  qed
qed

lemma weight_cong:
  assumes "\<And>j. 0 \<le> j \<Longrightarrow> j < order2 a + order a \<Longrightarrow> c' j = c j" "0 \<le> k" "k < order a"
  shows "weight a c' k d = weight a c k d"
  unfolding weight_def using assms by (intro horner_cong) simp_all

lemma rho1d_fill_at:
  "fst (rho1d_fill a c dx dy k0 r) k = (if k0 \<le> k \<and> k < order a then weight a c k dx else fst r k) \<and>
   snd (rho1d_fill a c dx dy k0 r) k = (if k0 \<le> k \<and> k < order a then weight a c k dy else snd r k)"
proof (induction a c dx dy k0 r rule: rho1d_fill.induct)
  case (1 a c dx dy k0 r)
  show ?case
  proof (cases "k0 < order a")
    case True
    from "1.IH" [OF True] True show ?thesis
      by (subst (1 2) rho1d_fill.simps) (auto simp: weight_def)
  next
    case False
    then show ?thesis
      by (subst (1 2) rho1d_fill.simps) simp
  qed
qed

lemma l_loop_at:
  "l_loop a rho0 x0 my l b x =
     b x + (\<Sum>l'\<in>{l..<order a}. if my + l' = x then x0 * rho0 l' else 0)"
proof (induction a rho0 x0 my l b rule: l_loop.induct)
  case (1 a rho0 x0 my l b)
  show ?case
  proof (cases "l < order a")
    case True
    show ?thesis
      by (subst l_loop.simps)
         (simp add: True "1.IH" [OF True, unfolded atomicFloatAdd_eq] atomicFloatAdd_eq
            sum_int_interval_head [OF True])
  next
    case False
    then show ?thesis
      by (subst l_loop.simps) simp
  qed
qed

lemma m_loop_at:
  "m_loop a rho0 rho1 y0 my m b x =
     b x + (\<Sum>m'\<in>{m..<order a}. \<Sum>l'\<in>{0..<order a}.
              if my + (m' - m) * npts_x a + l' = x then y0 * rho1 m' * rho0 l' else 0)"
proof (induction a rho0 rho1 y0 my m b rule: m_loop.induct)
  case (1 a rho0 rho1 y0 my m b)
  show ?case
  proof (cases "m < order a")
    case True
    have sh: "my + npts_x a + (m' - (m + 1)) * npts_x a + l' = my + (m' - m) * npts_x a + l'"
      for m' l'
      by (simp add: algebra_simps)
    show ?thesis
      by (subst m_loop.simps)
         (simp add: True "1.IH" [OF True] l_loop_at sum_int_interval_head [OF True] sh)
  next
    case False
    then show ?thesis
      by (subst m_loop.simps) simp
  qed
qed

lemma n_loop_at:
  "n_loop a c rho0 rho1 z0 dz ny mz n b x =
     b x + (\<Sum>n'\<in>{n..<order a}. \<Sum>m'\<in>{0..<order a}. \<Sum>l'\<in>{0..<order a}.
              if mz + (n' - n) * npts_yx a + mul24 ny (npts_x a) + m' * npts_x a + l' = x
              then z0 * weight a c n' dz * rho1 m' * rho0 l' else 0)"
proof (induction a c rho0 rho1 z0 dz ny mz n b rule: n_loop.induct)
  case (1 a c rho0 rho1 z0 dz ny mz n b)
  show ?case
  proof (cases "n < order a")
    case True
    have sh: "mz + npts_yx a + (n' - (n + 1)) * npts_yx a + mul24 ny (npts_x a) + m' * npts_x a + l'
        = mz + (n' - n) * npts_yx a + mul24 ny (npts_x a) + m' * npts_x a + l'"
      for n' m' l'
      by (simp add: algebra_simps)
    show ?thesis
      by (subst n_loop.simps)
         (simp add: True "1.IH" [OF True, folded weight_def] m_loop_at
            sum_int_interval_head [OF True] sh flip: weight_def)
  next
    case False
    then show ?thesis
      by (subst n_loop.simps) simp
  qed
qed

lemma spread_at:
  "spread a c z0 dx dy dz nx ny nz b x =
     b x + (\<Sum>n\<in>{0..<order a}. \<Sum>m\<in>{0..<order a}. \<Sum>l\<in>{0..<order a}.
              if mul24 nz (npts_yx a) + nx + n * npts_yx a + mul24 ny (npts_x a)
                   + m * npts_x a + l = x
              then z0 * weight a c n dz * weight a c m dy * weight a c l dx else 0)"
proof -
  have r: "fst (rho1d_fill a c dx dy 0 (\<lambda>k. 0, \<lambda>k. 0)) l = weight a c l dx"
    "snd (rho1d_fill a c dx dy 0 (\<lambda>k. 0, \<lambda>k. 0)) l = weight a c l dy"
    if "l \<in> {0..<order a}" for l
    using that rho1d_fill_at [of a c dx dy 0 "(\<lambda>k. 0, \<lambda>k. 0)" l] by simp_all
  show ?thesis
    unfolding spread_def Let_def n_loop_at
    by (intro arg_cong2 [where f = "(+)"] refl sum.cong) (simp_all add: r)
qed

lemma spread_cong:
  assumes "\<And>j. 0 \<le> j \<Longrightarrow> j < order2 a + order a \<Longrightarrow> c' j = c j"
  shows "spread a c' = spread a c"
proof (intro ext)
  fix z0 dx dy dz nx ny nz b x
  have w: "weight a c' k d = weight a c k d" if "k \<in> {0..<order a}" for k d
    using that by (intro weight_cong assms) simp_all
  show "spread a c' z0 dx dy dz nx ny nz b x = spread a c z0 dx dy dz nx ny nz b x"
    unfolding spread_at
    by (intro arg_cong2 [where f = "(+)"] refl sum.cong) (simp add: w)
qed

lemma fold_load:
  "fold (\<lambda>t rc. if P t then rc(f t := c (f t)) else rc) ts rc0 k =
     (if \<exists>t\<in>set ts. P t \<and> f t = k then c k else rc0 k)"
  by (induction ts arbitrary: rc0) auto

lemma rho_coeff3_loaded:
  assumes "table_copied3 a" "0 \<le> j" "j < order2 a + order a"
  shows "rho_coeff3 a s blk j = d_rho_coeff s j"
proof -
  have "j \<in> set [0..bsize_x a - 1]"
    using assms by (simp add: table_copied3_def)
  with assms(3) have "\<exists>t\<in>set [0..bsize_x a - 1]. t < order2 a + order a \<and> t = j"
    by blast
  then show ?thesis
    unfolding rho_coeff3_def
    using fold_load [where P = "\<lambda>t. t < order2 a + order a" and f = "\<lambda>t. t"
        and c = "d_rho_coeff s" and ts = "[0..bsize_x a - 1]"
        and ?rc0.0 = "local_rho_coeff s (blk, 0)" and k = j]
    by simp
qed

lemma div_less_square:
  fixes j :: int
  assumes "1 \<le> ord" "0 \<le> j" "j < ord * ord"
  shows "j div ord < ord"
proof -
  have "j div ord * ord + j mod ord = j"
    by simp
  moreover have "0 \<le> j mod ord"
    using assms(1) by simp
  ultimately have "j div ord * ord \<le> j"
    by linarith
  then have "j div ord * ord < ord * ord"
    using assms(3) by simp
  then show ?thesis
    using assms(1) by (simp add: mult_less_cancel_right)
qed

lemma rho_coeff1_loaded:
  assumes "table_copied a" "0 \<le> j" "j < order2 a + order a"
  shows "rho_coeff1 a s blk j = d_rho_coeff s j"
proof -
  have o: "1 \<le> order a" "order a \<le> 8" "order a \<le> bsize_x a" "order a \<le> bsize_y a"
    and o2: "order2 a = (order a - 1) * order a"
    using assms(1) by (simp_all add: table_copied_def MAX_STENCIL_def)
  have jo: "j < order a * order a"
    using assms(3) by (simp add: o2 algebra_simps)
  define tx where "tx = j div order a"
  define ty where "ty = j mod order a"
  have ty: "0 \<le> ty" "ty < order a"
    using o(1) by (simp_all add: ty_def)
  have tx: "0 \<le> tx" "tx < order a"
    using o(1) assms(2) div_less_square [OF o(1) assms(2) jo]
    by (simp_all add: tx_def pos_imp_zdiv_nonneg_iff)
  have "tx * order a \<le> 8 * 8"
    using tx o by (intro mult_mono) simp_all
  then have m: "mul24 tx (order a) = tx * order a"
    using tx o by (intro mul24_small) simp_all
  have j: "mul24 tx (order a) + ty = j"
    unfolding m by (simp add: tx_def ty_def)
  have "(tx, ty) \<in> set (List.product [0..bsize_x a - 1] [0..bsize_y a - 1])"
    using tx ty o by simp
  with tx ty j
  have "\<exists>t\<in>set (List.product [0..bsize_x a - 1] [0..bsize_y a - 1]).
          (fst t < order a \<and> snd t < order a) \<and> mul24 (fst t) (order a) + snd t = j"
    by force
  then show ?thesis
    unfolding rho_coeff1_def
    using fold_load [where P = "\<lambda>t. fst t < order a \<and> snd t < order a"
        and f = "\<lambda>t. mul24 (fst t) (order a) + snd t"
        and c = "d_rho_coeff s" and ts = "List.product [0..bsize_x a - 1] [0..bsize_y a - 1]"
        and ?rc0.0 = "local_rho_coeff s blk" and k = j]
    by simp
qed

lemma lin_inj:
  fixes p :: int
  assumes "0 \<le> x" "x < p" "0 \<le> x'" "x' < p" "u * p + x = u' * p + x'"
  shows "u = u' \<and> x = x'"
proof -
  have "(u * p + x) div p = u" "(u' * p + x') div p = u'"
    using assms(1-4) by simp_all
  with assms(5) have "u = u'" by simp
  with assms(5) show ?thesis by simp
qed

lemma brick_at_inj:
  assumes "npts_yx a = q * npts_x a"
    and "0 \<le> X" "X < npts_x a" "0 \<le> X'" "X' < npts_x a"
    and "0 \<le> Y" "Y < q" "0 \<le> Y'" "Y' < q"
    and "brick_at a X Y Z = brick_at a X' Y' Z'"
  shows "X = X' \<and> Y = Y' \<and> Z = Z'"
proof -
  have "(Z * q + Y) * npts_x a + X = (Z' * q + Y') * npts_x a + X'"
    using assms(10) by (simp add: brick_at_def assms(1) algebra_simps)
  from lin_inj [OF assms(2-5) this] have e: "Z * q + Y = Z' * q + Y'" and x: "X = X'"
    by simp_all
  from lin_inj [OF assms(6-9) e] x show ?thesis
    by simp
qed

lemma triple_delta:
  fixes f :: "int \<Rightarrow> int \<Rightarrow> int \<Rightarrow> numtyp"
  assumes "finite A" "finite B" "finite C"
  shows "(\<Sum>n\<in>A. \<Sum>m\<in>B. \<Sum>l\<in>C. if n = N \<and> m = M \<and> l = L then f n m l else 0) =
           (if N \<in> A \<and> M \<in> B \<and> L \<in> C then f N M L else 0)"
proof -
  have 1: "(\<Sum>l\<in>C. if n = N \<and> m = M \<and> l = L then f n m l else 0) =
      (if n = N \<and> m = M \<and> L \<in> C then f n m L else 0)" for n m
    using assms(3) by (cases "n = N \<and> m = M") (auto simp: sum.delta)
  have 2: "(\<Sum>m\<in>B. if n = N \<and> m = M \<and> L \<in> C then f n m L else 0) =
      (if n = N \<and> M \<in> B \<and> L \<in> C then f n M L else 0)" for n
    using assms(2) by (cases "n = N \<and> L \<in> C") (auto simp: sum.delta)
  have 3: "(\<Sum>n\<in>A. if n = N \<and> M \<in> B \<and> L \<in> C then f n M L else 0) =
      (if N \<in> A \<and> M \<in> B \<and> L \<in> C then f N M L else 0)"
    using assms(1) by (cases "M \<in> B \<and> L \<in> C") (auto simp: sum.delta)
  show ?thesis
    by (simp only: 1 2 3)
qed

lemma stencil_address:
  assumes f: "brick_fits a npts_y" and c: "in_cell_range a nx ny nz"
  shows "mul24 nz (npts_yx a) + nx + n * npts_yx a + mul24 ny (npts_x a) + m * npts_x a + l =
           brick_at a (nx + l) (ny + m) (nz + n)"
proof -
  have px: "1 \<le> npts_x a" and py: "nlocal_y a \<le> npts_y"
    using f c by (simp_all add: brick_fits_def in_cell_range_def)
  have yx: "npts_yx a = npts_y * npts_x a" and yx23: "npts_yx a < 2 ^ 23"
    using f by (simp_all add: brick_fits_def)
  have ny: "0 \<le> ny" "ny < npts_y" and nz: "0 \<le> nz" "nz < nlocal_z a"
    using c py by (simp_all add: in_cell_range_def)
  have py1: "1 \<le> npts_y" using ny by simp
  have pyle: "npts_y \<le> npts_yx a"
    unfolding yx using px py1 by (simp add: mult_le_cancel_left1)
  have pxle: "npts_x a \<le> npts_yx a"
    unfolding yx using px py1 by (simp add: mult_le_cancel_right2)
  have yx0: "0 \<le> npts_yx a" using pyle py1 by simp
  have "ny * npts_x a \<le> npts_y * npts_x a"
    using ny px by (intro mult_right_mono) simp_all
  then have nyx: "ny * npts_x a < 2 ^ 31"
    using yx yx23 by simp
  have m1: "mul24 ny (npts_x a) = ny * npts_x a"
    using ny pyle yx23 px pxle nyx by (intro mul24_small) simp_all
  have yx1: "1 \<le> npts_yx a" using pyle py1 by simp
  have "(nz + 1) * npts_yx a \<le> nlocal_z a * npts_yx a"
    using nz yx0 by (intro mult_right_mono) simp_all
  also have "\<dots> \<le> 2 ^ 31"
    using f unfolding brick_fits_def by blast
  finally have "nz * npts_yx a + npts_yx a \<le> 2 ^ 31"
    by (simp add: algebra_simps)
  with yx1 have "nz * npts_yx a < 2 ^ 31"
    by simp
  then have m2: "mul24 nz (npts_yx a) = nz * npts_yx a"
    using nz f yx0 yx23 by (intro mul24_small) (simp_all add: brick_fits_def)
  show ?thesis
    by (simp add: m1 m2 brick_at_def algebra_simps)
qed

lemma spread_at_point:
  assumes f: "brick_fits a npts_y" and c: "in_cell_range a nx ny nz"
    and X: "0 \<le> X" "X < npts_x a" and Y: "0 \<le> Y" "Y < npts_y"
  shows "spread a c0 z0 dx dy dz nx ny nz b (brick_at a X Y Z) =
           b (brick_at a X Y Z) +
           (if nx \<le> X \<and> X < nx + order a \<and> ny \<le> Y \<and> Y < ny + order a \<and>
               nz \<le> Z \<and> Z < nz + order a
            then z0 * weight a c0 (Z - nz) dz * weight a c0 (Y - ny) dy * weight a c0 (X - nx) dx
            else 0)"
proof -
  let ?F = "\<lambda>n m l. z0 * weight a c0 n dz * weight a c0 m dy * weight a c0 l dx"
  have yx: "npts_yx a = npts_y * npts_x a"
    using f by (simp add: brick_fits_def)
  have eq: "(brick_at a (nx + l) (ny + m) (nz + n) = brick_at a X Y Z) =
      (n = Z - nz \<and> m = Y - ny \<and> l = X - nx)"
    if "n \<in> {0..<order a}" "m \<in> {0..<order a}" "l \<in> {0..<order a}" for n m l
  proof -
    have r: "0 \<le> nx + l" "nx + l < npts_x a" "0 \<le> ny + m" "ny + m < npts_y"
      using that f c by (simp_all add: brick_fits_def in_cell_range_def)
    from brick_at_inj [OF yx r(1,2) X r(3,4) Y, of "nz + n" Z] show ?thesis
      by auto
  qed
  have "(\<Sum>n\<in>{0..<order a}. \<Sum>m\<in>{0..<order a}. \<Sum>l\<in>{0..<order a}.
            if mul24 nz (npts_yx a) + nx + n * npts_yx a + mul24 ny (npts_x a)
                 + m * npts_x a + l = brick_at a X Y Z
            then ?F n m l else 0) =
        (\<Sum>n\<in>{0..<order a}. \<Sum>m\<in>{0..<order a}. \<Sum>l\<in>{0..<order a}.
            if n = Z - nz \<and> m = Y - ny \<and> l = X - nx then ?F n m l else 0)"
    by (intro sum.cong refl) (simp add: stencil_address [OF f c] eq)
  also have "\<dots> = (if Z - nz \<in> {0..<order a} \<and> Y - ny \<in> {0..<order a} \<and>
                       X - nx \<in> {0..<order a}
                    then ?F (Z - nz) (Y - ny) (X - nx) else 0)"
    by (rule triple_delta) simp_all
  finally show ?thesis
    unfolding spread_at by (auto simp: algebra_simps)
qed

lemma stencil_address_in_brick:
  assumes f: "brick_fits a npts_y" and c: "in_cell_range a nx ny nz"
    and "n \<in> {0..<order a}" "m \<in> {0..<order a}" "l \<in> {0..<order a}"
  shows "brick_at a (nx + l) (ny + m) (nz + n) \<in> {0..<npts_yx a * npts_z a}"
proof -
  have yx: "npts_yx a = npts_y * npts_x a"
    using f by (simp add: brick_fits_def)
  have r: "0 \<le> nx + l" "nx + l + 1 \<le> npts_x a" "0 \<le> ny + m" "ny + m + 1 \<le> npts_y"
    "0 \<le> nz + n" "nz + n + 1 \<le> npts_z a"
    using assms by (simp_all add: brick_fits_def in_cell_range_def)
  have px: "0 \<le> npts_x a" and py: "0 \<le> npts_y"
    using r by simp_all
  have "0 \<le> (nz + n) * (npts_y * npts_x a)" "0 \<le> (ny + m) * npts_x a"
    using r px py by simp_all
  then have lo: "0 \<le> brick_at a (nx + l) (ny + m) (nz + n)"
    unfolding brick_at_def yx using r(1) by linarith
  have "(ny + m) * npts_x a + (nx + l) + 1 \<le> (ny + m) * npts_x a + npts_x a"
    using r by simp
  also have "\<dots> = (ny + m + 1) * npts_x a"
    by (simp add: algebra_simps)
  also have "\<dots> \<le> npts_y * npts_x a"
    using r px by (intro mult_right_mono) simp_all
  finally have 1: "(ny + m) * npts_x a + (nx + l) + 1 \<le> npts_yx a"
    by (simp add: yx)
  have yx0: "0 \<le> npts_yx a"
    unfolding yx using px py by simp
  have "brick_at a (nx + l) (ny + m) (nz + n) + 1 \<le> (nz + n) * npts_yx a + npts_yx a"
    using 1 by (simp add: brick_at_def)
  also have "\<dots> = (nz + n + 1) * npts_yx a"
    by (simp add: algebra_simps)
  also have "\<dots> \<le> npts_z a * npts_yx a"
    using r yx0 by (intro mult_right_mono) simp_all
  finally have "brick_at a (nx + l) (ny + m) (nz + n) < npts_yx a * npts_z a"
    by (simp add: mult.commute)
  with lo show ?thesis by simp
qed

lemma triple_sum_product:
  fixes z :: numtyp
  shows "(\<Sum>n\<in>A. \<Sum>m\<in>B. \<Sum>l\<in>C. z * f n * g m * h l) = z * sum f A * sum g B * sum h C"
proof -
  have "(\<Sum>n\<in>A. \<Sum>m\<in>B. \<Sum>l\<in>C. z * f n * g m * h l) =
      (\<Sum>n\<in>A. \<Sum>m\<in>B. z * f n * g m * sum h C)"
    by (simp only: sum_distrib_left [symmetric])
  also have "\<dots> = (\<Sum>n\<in>A. z * f n * sum g B * sum h C)"
    by (simp only: sum_distrib_left [symmetric] sum_distrib_right [symmetric])
  also have "\<dots> = z * sum f A * sum g B * sum h C"
    by (simp only: sum_distrib_left [symmetric] sum_distrib_right [symmetric])
  finally show ?thesis .
qed

lemma spread_sum:
  assumes f: "brick_fits a npts_y" and c: "in_cell_range a nx ny nz"
  shows "(\<Sum>x\<in>{0..<npts_yx a * npts_z a}. spread a c0 z0 dx dy dz nx ny nz b x) =
           (\<Sum>x\<in>{0..<npts_yx a * npts_z a}. b x) +
           z0 * (\<Sum>n\<in>{0..<order a}. weight a c0 n dz) * (\<Sum>m\<in>{0..<order a}. weight a c0 m dy)
              * (\<Sum>l\<in>{0..<order a}. weight a c0 l dx)"
proof -
  let ?S = "{0..<npts_yx a * npts_z a}"
  let ?O = "{0..<order a}"
  let ?F = "\<lambda>n m l. z0 * weight a c0 n dz * weight a c0 m dy * weight a c0 l dx"
  let ?A = "\<lambda>n m l. brick_at a (nx + l) (ny + m) (nz + n)"
  have "(\<Sum>x\<in>?S. \<Sum>n\<in>?O. \<Sum>m\<in>?O. \<Sum>l\<in>?O. if ?A n m l = x then ?F n m l else 0) =
        (\<Sum>n\<in>?O. \<Sum>x\<in>?S. \<Sum>m\<in>?O. \<Sum>l\<in>?O. if ?A n m l = x then ?F n m l else 0)"
    by (rule sum.swap)
  also have "\<dots> = (\<Sum>n\<in>?O. \<Sum>m\<in>?O. \<Sum>x\<in>?S. \<Sum>l\<in>?O. if ?A n m l = x then ?F n m l else 0)"
    by (intro sum.cong refl sum.swap)
  also have "\<dots> = (\<Sum>n\<in>?O. \<Sum>m\<in>?O. \<Sum>l\<in>?O. \<Sum>x\<in>?S. if ?A n m l = x then ?F n m l else 0)"
    by (intro sum.cong refl sum.swap)
  also have "\<dots> = (\<Sum>n\<in>?O. \<Sum>m\<in>?O. \<Sum>l\<in>?O. ?F n m l)"
    using stencil_address_in_brick [OF f c] by (intro sum.cong refl) (simp add: sum.delta')
  also have "\<dots> = z0 * (\<Sum>n\<in>?O. weight a c0 n dz) * (\<Sum>m\<in>?O. weight a c0 m dy)
              * (\<Sum>l\<in>?O. weight a c0 l dx)"
    by (rule triple_sum_product)
  finally have s: "(\<Sum>x\<in>?S. \<Sum>n\<in>?O. \<Sum>m\<in>?O. \<Sum>l\<in>?O. if ?A n m l = x then ?F n m l else 0) =
      z0 * (\<Sum>n\<in>?O. weight a c0 n dz) * (\<Sum>m\<in>?O. weight a c0 m dy)
              * (\<Sum>l\<in>?O. weight a c0 l dx)" .
  show ?thesis
    unfolding spread_at stencil_address [OF f c] sum.distrib s ..
qed

lemma row_loop_fold:
  "row_loop a s nx ny nz z_pos natoms row b =
     fold (\<lambda>r. make_rho_atom a s nx ny nz z_pos r) [row..natoms - 1] b"
proof (induction a s nx ny nz z_pos natoms row b rule: row_loop.induct)
  case (1 a s nx ny nz z_pos natoms row b)
  show ?case
  proof (cases "row < natoms")
    case True
    then have u: "[row..natoms - 1] = row # [row + 1..natoms - 1]"
      by (intro upto_rec1) simp
    show ?thesis
      by (subst row_loop.simps) (simp add: True "1.IH" [OF True] u)
  next
    case False
    then show ?thesis
      by (subst row_loop.simps) simp
  qed
qed

lemma z_loop_fold:
  "z_loop a s nx ny z_stride z_stop nz z_pos b =
     fold (\<lambda>z. row_loop a s nx ny z (z_pos + (z - nz) * z_stride)
                  (d_brick_counts s (z_pos + (z - nz) * z_stride)) 0)
       [nz..z_stop - 1] b"
proof (induction a s nx ny z_stride z_stop nz z_pos b rule: z_loop.induct)
  case (1 a s nx ny z_stride z_stop nz z_pos b)
  show ?case
  proof (cases "nz < z_stop")
    case True
    then have u: "[nz..z_stop - 1] = nz # [nz + 1..z_stop - 1]"
      by (intro upto_rec1) simp
    have sh: "z_pos + z_stride + (z - (nz + 1)) * z_stride = z_pos + (z - nz) * z_stride" for z
      by (simp add: algebra_simps)
    show ?thesis
      by (subst z_loop.simps) (simp add: True "1.IH" [OF True] u sh)
  next
    case False
    then show ?thesis
      by (subst z_loop.simps) simp
  qed
qed

lemma make_rho_items_append:
  "make_rho_items a s (xs @ ys) b = make_rho_items a s ys (make_rho_items a s xs b)"
  by (simp add: make_rho_items_def)

lemma make_rho_items_rows:
  "make_rho_items a s (map (\<lambda>row. (nx, ny, nz, z_pos, row)) rs) =
     fold (\<lambda>r. make_rho_atom a s nx ny nz z_pos r) rs"
  by (intro ext) (simp add: make_rho_items_def fold_map comp_def)

lemma make_rho_items_concat:
  "make_rho_items a s (concat (map f zs)) b = fold (\<lambda>z. make_rho_items a s (f z)) zs b"
  by (induction zs arbitrary: b) (simp_all add: make_rho_items_append, simp add: make_rho_items_def)

lemma make_rho_atom_dev: "make_rho_atom a (s\<lparr>d_brick := b'\<rparr>) = make_rho_atom a s"
  by (intro ext) (simp add: make_rho_atom_def)

lemma make_rho_items_dev: "make_rho_items a (s\<lparr>d_brick := b'\<rparr>) = make_rho_items a s"
  by (intro ext) (simp add: make_rho_items_def make_rho_atom_dev)

lemma thread_items_dev: "thread_items a (s\<lparr>d_brick := b'\<rparr>) = thread_items a s"
  by (intro ext) (simp add: thread_items_def Let_def)

lemma make_rho_items_coeff:
  assumes "\<And>j. 0 \<le> j \<Longrightarrow> j < order2 a + order a \<Longrightarrow> c' j = d_rho_coeff s j"
  shows "make_rho_items a (s\<lparr>d_rho_coeff := c'\<rparr>) = make_rho_items a s"
proof -
  have "make_rho_atom a (s\<lparr>d_rho_coeff := c'\<rparr>) = make_rho_atom a s"
    by (intro ext) (simp add: make_rho_atom_def spread_cong [OF assms])
  then show ?thesis
    by (intro ext) (simp add: make_rho_items_def)
qed

lemma make_rho_thread_items_copy:
  "make_rho a g s =
     s\<lparr>d_brick := make_rho_items a
                    (s\<lparr>d_rho_coeff := rho_coeff1 a s (fst g div bsize_x a, snd g div bsize_y a)\<rparr>)
                    (thread_items a s g) (d_brick s)\<rparr>"
proof -
  have "make_rho_items a s' [] (d_brick s) = d_brick s" for s'
    by (simp add: make_rho_items_def)
  then show ?thesis
    unfolding make_rho_def thread_items_def Let_def z_loop_fold row_loop_fold
    by (simp add: make_rho_items_concat make_rho_items_rows)
qed

lemma make_rho_thread_items:
  assumes "table_copied a"
  shows "make_rho a g s = s\<lparr>d_brick := make_rho_items a s (thread_items a s g) (d_brick s)\<rparr>"
  unfolding make_rho_thread_items_copy
  by (simp add: make_rho_items_coeff [OF rho_coeff1_loaded [OF assms]])

lemma make_rho_pass_items:
  assumes tc: "table_copied a"
  shows "make_rho_pass a ws s = s\<lparr>d_brick := make_rho_items a s (pass_items a s ws) (d_brick s)\<rparr>"
proof (induction ws arbitrary: s)
  case Nil
  show ?case
    by (simp add: make_rho_pass_def pass_items_def make_rho_items_def)
next
  case (Cons g ws)
  let ?s1 = "make_rho a g s"
  have "make_rho_pass a (g # ws) s = make_rho_pass a ws ?s1"
    by (simp add: make_rho_pass_def)
  also have "\<dots> = ?s1\<lparr>d_brick := make_rho_items a ?s1 (pass_items a ?s1 ws) (d_brick ?s1)\<rparr>"
    by (rule Cons.IH)
  also have "\<dots> = s\<lparr>d_brick := make_rho_items a s (pass_items a s (g # ws)) (d_brick s)\<rparr>"
    by (simp add: make_rho_thread_items [OF tc] make_rho_items_dev thread_items_dev pass_items_def
        make_rho_items_append)
  finally show ?case .
qed

lemma make_rho_atom_point:
  assumes "brick_fits a npts_y" "in_cell_range a nx ny nz"
    and "0 \<le> X" "X < npts_x a" "0 \<le> Y" "Y < npts_y"
  shows "make_rho_atom a s nx ny nz z_pos row b (brick_at a X Y Z) =
           b (brick_at a X Y Z) + item_point a s (nx, ny, nz, z_pos, row) X Y Z"
  unfolding make_rho_atom_def Let_def spread_at_point [OF assms]
  by (simp add: item_point_def item_atom_def covers_def)

lemma make_rho_items_point:
  assumes "brick_fits a npts_y" "items_in_range a items"
    and "0 \<le> X" "X < npts_x a" "0 \<le> Y" "Y < npts_y"
  shows "make_rho_items a s items b (brick_at a X Y Z) =
           b (brick_at a X Y Z) + (\<Sum>it\<leftarrow>items. item_point a s it X Y Z)"
  using assms(2)
proof (induction items arbitrary: b)
  case Nil
  show ?case by (simp add: make_rho_items_def)
next
  case (Cons it items)
  obtain nx ny nz z_pos row where it: "it = (nx, ny, nz, z_pos, row)"
    by (cases it) auto
  have r: "in_cell_range a nx ny nz" and rs: "items_in_range a items"
    using Cons.prems by (simp_all add: items_in_range_def it)
  have "make_rho_items a s (it # items) b =
      make_rho_items a s items (make_rho_atom a s nx ny nz z_pos row b)"
    by (simp add: make_rho_items_def it)
  then show ?case
    by (simp add: Cons.IH [OF rs] make_rho_atom_point [OF assms(1) r assms(3-6)] it)
qed

lemma make_rho_atom_sum:
  assumes "brick_fits a npts_y" "in_cell_range a nx ny nz" "unit_weights a (d_rho_coeff s)"
  shows "(\<Sum>x\<in>{0..<npts_yx a * npts_z a}. make_rho_atom a s nx ny nz z_pos row b x) =
           (\<Sum>x\<in>{0..<npts_yx a * npts_z a}. b x)
             + delvolinv a * dev_q s (item_atom a s (nx, ny, nz, z_pos, row))"
  using assms(3)
  unfolding make_rho_atom_def Let_def spread_sum [OF assms(1,2)]
  by (simp add: unit_weights_def item_atom_def)

lemma make_rho_items_sum:
  assumes "brick_fits a npts_y" "items_in_range a items" "unit_weights a (d_rho_coeff s)"
  shows "(\<Sum>x\<in>{0..<npts_yx a * npts_z a}. make_rho_items a s items b x) =
           (\<Sum>x\<in>{0..<npts_yx a * npts_z a}. b x)
             + (\<Sum>it\<leftarrow>items. delvolinv a * dev_q s (item_atom a s it))"
  using assms(2)
proof (induction items arbitrary: b)
  case Nil
  show ?case by (simp add: make_rho_items_def)
next
  case (Cons it items)
  obtain nx ny nz z_pos row where it: "it = (nx, ny, nz, z_pos, row)"
    by (cases it) auto
  have r: "in_cell_range a nx ny nz" and rs: "items_in_range a items"
    using Cons.prems by (simp_all add: items_in_range_def it)
  have "make_rho_items a s (it # items) b =
      make_rho_items a s items (make_rho_atom a s nx ny nz z_pos row b)"
    by (simp add: make_rho_items_def it)
  then show ?case
    by (simp add: Cons.IH [OF rs] make_rho_atom_sum [OF assms(1) r assms(3)] it)
qed



lemma thread_items_in_range:
  assumes "thread_ok a g"
  shows "items_in_range a (thread_items a s g)"
proof -
  let ?zb = "fst g sdiv x_threads a"
  have g: "0 \<le> fst g" "0 \<le> snd g" "0 < x_threads a" "?zb < 2 ^ 23"
    using assms by (simp_all add: thread_ok_def)
  have zb0: "0 \<le> ?zb"
    using g(1,3) by (simp add: sdiv_nonneg pos_imp_zdiv_nonneg_iff)
  have "?zb * 8 < 2 ^ 31" using g(4) by simp
  with zb0 g(4) have m: "mul24 ?zb 8 = ?zb * 8"
    by (intro mul24_small) simp_all
  have nx0: "0 \<le> fst g smod x_threads a"
    using g(1,3) by (rule smod_int_compares(2))
  show ?thesis
    unfolding items_in_range_def thread_items_def Let_def m
    using zb0 nx0 g(2) by (auto simp: in_cell_range_def split: if_splits)
qed

lemma pass_items_in_range:
  assumes "\<forall>g\<in>set ws. thread_ok a g"
  shows "items_in_range a (pass_items a s ws)"
  using assms thread_items_in_range
  unfolding items_in_range_def pass_items_def by fastforce

lemma in_domain_cell_range:
  assumes "\<not> out_of_domain a p"
  shows "in_cell_range a (int_cast (frac_x a p)) (int_cast (frac_y a p)) (int_cast (frac_z a p))"
proof -
  have "0 \<le> frac_x a p" "0 \<le> frac_y a p" "0 \<le> frac_z a p"
    using assms by (auto simp: out_of_domain_def)
  then have "0 \<le> int_cast (frac_x a p)" "0 \<le> int_cast (frac_y a p)" "0 \<le> int_cast (frac_z a p)"
    by (simp_all add: int_cast_def)
  with assms show ?thesis
    by (auto simp: out_of_domain_def in_cell_range_def)
qed

lemma make_rho3_in_domain:
  assumes "atom_of a gid < nlocal a" "\<not> out_of_domain a (dev_x s (atom_of a gid))"
    and "p = dev_x s (atom_of a gid)"
  shows "d_brick (make_rho3 a gid s) =
           spread a (rho_coeff3 a s (gid div bsize_x a)) (delvolinv a * dev_q s (atom_of a gid))
             (of_int (int_cast (frac_x a p)) + 1 / 2 - frac_x a p)
             (of_int (int_cast (frac_y a p)) + 1 / 2 - frac_y a p)
             (of_int (int_cast (frac_z a p)) + 1 / 2 - frac_z a p)
             (int_cast (frac_x a p)) (int_cast (frac_y a p)) (int_cast (frac_z a p)) (d_brick s)"
  using assms by (simp add: make_rho3_def Let_def)

lemma spread_rho_coeff3:
  assumes "table_copied3 a"
  shows "spread a (rho_coeff3 a s blk) = spread a (d_rho_coeff s)"
  by (rule spread_cong) (rule rho_coeff3_loaded [OF assms])

lemma weight_rho_coeff3:
  assumes "table_copied3 a" "0 \<le> k" "k < order a"
  shows "weight a (rho_coeff3 a s blk) k d = weight a (d_rho_coeff s) k d"
  using assms(2,3) by (intro weight_cong rho_coeff3_loaded [OF assms(1)])

lemma make_rho3_brick_idle:
  assumes "\<not> (atom_of a gid < nlocal a \<and> \<not> out_of_domain a (dev_x s (atom_of a gid)))"
  shows "d_brick (make_rho3 a gid s) = d_brick s"
  using assms by (auto simp: make_rho3_def Let_def)

lemma make_rho3_rho_coeff [simp]: "d_rho_coeff (make_rho3 a gid s) = d_rho_coeff s"
  by (simp add: make_rho3_def Let_def)

lemma make_rho3_sum:
  assumes "brick_fits a npts_y" "unit_weights a (d_rho_coeff s)" "table_copied3 a"
  shows "(\<Sum>x\<in>{0..<npts_yx a * npts_z a}. d_brick (make_rho3 a gid s) x) =
           (\<Sum>x\<in>{0..<npts_yx a * npts_z a}. d_brick s x) +
           (if atom_of a gid < nlocal a \<and> \<not> out_of_domain a (dev_x s (atom_of a gid))
            then delvolinv a * dev_q s (atom_of a gid) else 0)"
proof (cases "atom_of a gid < nlocal a \<and> \<not> out_of_domain a (dev_x s (atom_of a gid))")
  case True
  then have l: "atom_of a gid < nlocal a" and d: "\<not> out_of_domain a (dev_x s (atom_of a gid))"
    by simp_all
  show ?thesis
    unfolding make_rho3_in_domain [OF l d refl] spread_rho_coeff3 [OF assms(3)]
      spread_sum [OF assms(1) in_domain_cell_range [OF d]]
    using assms(2) True by (simp add: unit_weights_def)
next
  case False
  show ?thesis
    unfolding make_rho3_brick_idle [OF False] if_not_P [OF False] by simp
qed

lemma make_rho3_pass_sum:
  assumes "brick_fits a npts_y" "unit_weights a (d_rho_coeff s)" "table_copied3 a"
  shows "(\<Sum>x\<in>{0..<npts_yx a * npts_z a}. d_brick (make_rho3_pass a ws s) x) =
           (\<Sum>x\<in>{0..<npts_yx a * npts_z a}. d_brick s x) +
           (\<Sum>w\<leftarrow>ws. if atom_of a w < nlocal a \<and> \<not> out_of_domain a (dev_x s (atom_of a w))
                    then delvolinv a * dev_q s (atom_of a w) else 0)"
  using assms(2)
proof (induction ws arbitrary: s)
  case Nil
  show ?case by (simp add: make_rho3_pass_def)
next
  case (Cons w ws)
  have p: "unit_weights a (d_rho_coeff (make_rho3 a w s))"
    using Cons.prems by simp
  show ?case
    unfolding make_rho3_pass_Cons Cons.IH [OF p] make_rho3_sum [OF assms(1) Cons.prems assms(3)]
    by (simp cong: if_cong)
qed

lemma sum_list_resequence:
  fixes f :: "int \<Rightarrow> numtyp"
  assumes "1 \<le> sk" "sk dvd n" "n < 2 ^ 23" "n * sk \<le> 2 ^ 31"
  shows "(\<Sum>w\<leftarrow>[0..n - 1]. f (resequence n sk w)) = (\<Sum>i\<in>{0..<n}. f i)"
proof -
  have "(\<Sum>w\<leftarrow>[0..n - 1]. f (resequence n sk w)) =
      sum_mset (image_mset f (mset (map (resequence n sk) [0..n - 1])))"
    by (simp add: comp_def multiset.map_comp flip: sum_mset_sum_list)
  also have "\<dots> = sum_mset (image_mset f (mset_set {0..<n}))"
    unfolding resequence_mset [OF assms] mset_upto_int
    by (simp add: atLeastLessThan_def atLeastAtMost_def lessThan_def atMost_def)
  also have "\<dots> = (\<Sum>i\<in>{0..<n}. f i)"
    by (simp add: sum_unfold_sum_mset)
  finally show ?thesis .
qed

lemma make_rho3_point:
  assumes "brick_fits a npts_y" "0 \<le> X" "X < npts_x a" "0 \<le> Y" "Y < npts_y"
    and "atom_of a gid < nlocal a" "\<not> out_of_domain a (dev_x s (atom_of a gid))"
    and "p = dev_x s (atom_of a gid)"
    and "nx = int_cast (frac_x a p)" "ny = int_cast (frac_y a p)" "nz = int_cast (frac_z a p)"
  shows "d_brick (make_rho3 a gid s) (brick_at a X Y Z) =
           d_brick s (brick_at a X Y Z) +
           (if covers a nx ny nz X Y Z then
              delvolinv a * dev_q s (atom_of a gid)
                * weight a (rho_coeff3 a s (gid div bsize_x a)) (Z - nz)
                    (of_int nz + 1 / 2 - frac_z a p)
                * weight a (rho_coeff3 a s (gid div bsize_x a)) (Y - ny)
                    (of_int ny + 1 / 2 - frac_y a p)
                * weight a (rho_coeff3 a s (gid div bsize_x a)) (X - nx)
                    (of_int nx + 1 / 2 - frac_x a p)
            else 0)"
proof -
  have r: "in_cell_range a nx ny nz"
    using in_domain_cell_range [OF assms(7)] assms(8-11) by simp
  show ?thesis
    unfolding make_rho3_in_domain [OF assms(6,7,8)] assms(9-11) [symmetric]
      spread_at_point [OF assms(1) r assms(2-5)]
    by (simp add: covers_def)
qed

text \<open>
  Claim C9. A single in-domain particle spread onto a zero brick, by the worker of
  \<^verbatim>\<open>make_rho3\<close> or by the row body of \<^verbatim>\<open>make_rho\<close>: every grid point that the
  cube of \<open>order\<close> points per axis starting at the particle's cell does not cover
  still holds zero, so non-zero values lie inside the cube only.
\<close>

theorem single_particle_touches_only_its_stencil:
  assumes "brick_fits a npts_y"
    and "0 \<le> X" "X < npts_x a" "0 \<le> Y" "Y < npts_y"
    and "d_brick s = (\<lambda>x. 0)"
    and "\<not> covers a nx ny nz X Y Z"
  shows "(atom_of a gid < nlocal a \<and> \<not> out_of_domain a (dev_x s (atom_of a gid)) \<and>
          nx = int_cast (frac_x a (dev_x s (atom_of a gid))) \<and>
          ny = int_cast (frac_y a (dev_x s (atom_of a gid))) \<and>
          nz = int_cast (frac_z a (dev_x s (atom_of a gid))) \<longrightarrow>
            d_brick (make_rho3 a gid s) (brick_at a X Y Z) = 0) \<and>
         (in_cell_range a nx ny nz \<longrightarrow>
            make_rho_atom a s nx ny nz z_pos row (d_brick s) (brick_at a X Y Z) = 0)"
proof (intro conjI impI)
  assume h: "atom_of a gid < nlocal a \<and> \<not> out_of_domain a (dev_x s (atom_of a gid)) \<and>
          nx = int_cast (frac_x a (dev_x s (atom_of a gid))) \<and>
          ny = int_cast (frac_y a (dev_x s (atom_of a gid))) \<and>
          nz = int_cast (frac_z a (dev_x s (atom_of a gid)))"
  then have l: "atom_of a gid < nlocal a" and d: "\<not> out_of_domain a (dev_x s (atom_of a gid))"
    and n: "nx = int_cast (frac_x a (dev_x s (atom_of a gid)))"
      "ny = int_cast (frac_y a (dev_x s (atom_of a gid)))"
      "nz = int_cast (frac_z a (dev_x s (atom_of a gid)))"
    by simp_all
  show "d_brick (make_rho3 a gid s) (brick_at a X Y Z) = 0"
    unfolding make_rho3_point [OF assms(1-5) l d refl n]
    using assms(6,7) by simp
next
  assume r: "in_cell_range a nx ny nz"
  show "make_rho_atom a s nx ny nz z_pos row (d_brick s) (brick_at a X Y Z) = 0"
    unfolding make_rho_atom_point [OF assms(1) r assms(2-5)]
    using assms(6,7) by (simp add: item_point_def)
qed

lemma ex_brick_fits: "brick_fits ex_args 3"
  by (simp add: brick_fits_def ex_args_def)

theorem single_particle_touches_only_its_stencil_witness:
  "d_brick (make_rho3 ex_args 0 ex_dev) (brick_at ex_args 2 0 0) = 0 \<and>
   make_rho_atom ex_args ex_dev 0 0 0 0 0 (d_brick ex_dev) (brick_at ex_args 2 0 0) = 0 \<and>
   d_brick (make_rho3 ex_args 0 ex_dev) (brick_at ex_args 1 1 1) = 1 / 8"
proof -
  have h: "(0::int) \<le> 2" "2 < npts_x ex_args" "(0::int) \<le> 0" "(0::int) < 3"
    "d_brick ex_dev = (\<lambda>x. 0)" "\<not> covers ex_args 0 0 0 2 0 0"
    by (simp_all add: ex_args_def ex_dev_def covers_def)
  have g: "atom_of ex_args 0 < nlocal ex_args \<and>
      \<not> out_of_domain ex_args (dev_x ex_dev (atom_of ex_args 0)) \<and>
      0 = int_cast (frac_x ex_args (dev_x ex_dev (atom_of ex_args 0))) \<and>
      0 = int_cast (frac_y ex_args (dev_x ex_dev (atom_of ex_args 0))) \<and>
      0 = int_cast (frac_z ex_args (dev_x ex_dev (atom_of ex_args 0)))"
    by code_simp
  have r: "in_cell_range ex_args 0 0 0"
    by (simp add: in_cell_range_def ex_args_def)
  have v: "d_brick (make_rho3 ex_args 0 ex_dev) (brick_at ex_args 1 1 1) = 1 / 8"
    by code_simp
  from single_particle_touches_only_its_stencil [OF ex_brick_fits h, of 0 0 0] g r v
  show ?thesis
    by blast
qed

lemma make_rho3_pass_all_sum:
  assumes f: "brick_fits a npts_y" and u: "unit_weights a (d_rho_coeff s)"
    and tc: "table_copied3 a"
    and r: "1 \<le> skip a" "skip a dvd nthreads a" "nthreads a < 2 ^ 23"
      "nthreads a * skip a \<le> 2 ^ 31"
    and n: "0 \<le> nlocal a" "nlocal a \<le> nthreads a"
    and d: "\<forall>i. 0 \<le> i \<and> i < nlocal a \<longrightarrow> \<not> out_of_domain a (dev_x s i)"
  shows "(\<Sum>x\<in>{0..<npts_yx a * npts_z a}. d_brick (make_rho3_pass a [0..nthreads a - 1] s) x) =
           (\<Sum>x\<in>{0..<npts_yx a * npts_z a}. d_brick s x) +
           (\<Sum>i\<in>{0..<nlocal a}. delvolinv a * dev_q s i)"
proof -
  let ?g = "\<lambda>i. if i < nlocal a \<and> \<not> out_of_domain a (dev_x s i)
                 then delvolinv a * dev_q s i else 0"
  have "(\<Sum>w\<leftarrow>[0..nthreads a - 1]. ?g (atom_of a w)) = (\<Sum>i\<in>{0..<nthreads a}. ?g i)"
    using r by (rule sum_list_resequence)
  also have "\<dots> = (\<Sum>i\<in>{0..<nlocal a}. ?g i)"
    using n by (intro sum.mono_neutral_right) auto
  also have "\<dots> = (\<Sum>i\<in>{0..<nlocal a}. delvolinv a * dev_q s i)"
    using d by (intro sum.cong refl) simp
  finally show ?thesis
    unfolding make_rho3_pass_sum [OF f u tc] by simp
qed

lemma ex_weight: "weight ex_args ex_coeff 0 d = 1 / 2 - d" "weight ex_args ex_coeff 1 d = 1 / 2 + d"
  unfolding weight_def
  by (subst horner.simps, subst horner.simps, subst horner.simps,
      simp add: ex_args_def ex_coeff_def)+

lemma ex_unit_weights: "unit_weights ex_args ex_coeff"
proof -
  have "{0..<order ex_args} = {0, 1}"
    by (auto simp: ex_args_def)
  then show ?thesis
    by (simp add: unit_weights_def ex_weight)
qed

lemma ex_mapped_is_mapped:
  "map (d_brick_counts (particle_map_pass (ex_args\<lparr>max_atoms := 2\<rparr>) [0, 1, 2, 3] ex_dev)) [0, 1, 2]
     = map (d_brick_counts ex_mapped) [0, 1, 2] \<and>
   map (d_brick_atoms (particle_map_pass (ex_args\<lparr>max_atoms := 2\<rparr>) [0, 1, 2, 3] ex_dev)) [0, 1, 8]
     = map (d_brick_atoms ex_mapped) [0, 1, 8]"
  by code_simp

lemma mset_pass_items:
  assumes "mset ws' = mset ws"
  shows "mset (pass_items a s ws') = mset (pass_items a s ws)"
proof -
  have "mset (pass_items a s ws) = (\<Sum>g\<in>#mset ws. mset (thread_items a s g))" for ws
    unfolding pass_items_def by (induction ws) simp_all
  then show ?thesis
    by (simp add: assms)
qed

section \<open>The tiled gather, phase by phase\<close>

lemma horner2_horner:
  assumes "ord dvd k + 1"
  shows "horner2 c ord off d k r = horner c ord (ord - 1 - off) d (k - off) r"
  using assms
proof (induction c ord off d k r rule: horner2.induct)
  case (1 c ord off d k r)
  show ?case
  proof (cases "0 < ord \<and> k > - 1")
    case True
    then have "0 < k + 1" by simp
    with "1.prems" True have "ord \<le> k + 1"
      by (intro zdvd_imp_le) simp_all
    then have c: "0 < ord \<and> ord - 1 - off \<le> k - off"
      using True by simp
    have d: "ord dvd k - ord + 1"
    proof -
      have "k - ord + 1 = (k + 1) - ord" by simp
      then show ?thesis using "1.prems" by (simp only: dvd_diff dvd_refl)
    qed
    have e: "k - ord - off = k - off - ord" by simp
    show ?thesis
      by (subst horner2.simps, subst horner.simps) (simp add: True c "1.IH" [OF True d] e)
  next
    case False
    then have nh: "\<not> (0 < ord \<and> ord - 1 - off \<le> k - off)"
      by auto
    have l: "horner2 c ord off d k r = r"
      by (subst horner2.simps) (simp only: False if_False)
    have r: "horner c ord (ord - 1 - off) d (k - off) r = r"
      by (subst horner.simps) (simp only: nh if_False)
    show ?thesis
      by (simp only: l r)
  qed
qed

lemma horner2_weight:
  assumes "args_fit a"
  shows "horner2 c (order a) off d (order2 a + order a - 1) 0 = weight a c (order a - 1 - off) d"
proof -
  have "order a dvd order2 a + order a - 1 + 1"
    using assms by (simp add: args_fit_def)
  from horner2_horner [OF this] show ?thesis
    by (simp add: weight_def algebra_simps)
qed

lemma ans_zero_at:
  "ans_zero a n ans k = (if n \<le> k \<and> k < order a then 0 else ans k)"
proof (induction a n ans rule: ans_zero.induct)
  case (1 a n ans)
  show ?case
  proof (cases "n < order a")
    case True
    show ?thesis
      by (subst ans_zero.simps) (use True in \<open>auto simp: "1.IH" [OF True]\<close>)
  next
    case False
    then show ?thesis
      by (subst ans_zero.simps) simp
  qed
qed

lemma ans_add_at:
  "ans_add a c z0 dz n ans k =
     (if n \<le> k \<and> k < order a then ans k + z0 * weight a c k dz else ans k)"
proof (induction a c z0 dz n ans rule: ans_add.induct)
  case (1 a c z0 dz n ans)
  show ?case
  proof (cases "n < order a")
    case True
    show ?thesis
      by (subst ans_add.simps) (use True in \<open>auto simp: "1.IH" [OF True] weight_def\<close>)
  next
    case False
    then show ?thesis
      by (subst ans_add.simps) simp
  qed
qed

lemma atom2_at:
  assumes "args_fit a" "x_pos = bx + l - order_m_1 a" "y_pos = by + m - order_m_1 a"
  shows "atom2 a s x_pos y_pos nz l m row ans k =
           ans k + (if 0 \<le> k \<and> k < order a
                    then contrib a s x_pos y_pos nz (d_brick_atoms s row) bx by (nz + k) else 0)"
proof -
  have o: "order_m_1 a = order a - 1"
    using assms(1) by (simp add: args_fit_def)
  have x: "order a - 1 - l = bx - x_pos" and y: "order a - 1 - m = by - y_pos"
    using assms(2,3) o by simp_all
  show ?thesis
    unfolding atom2_def Let_def ans_add_at horner2_weight [OF assms(1)] x y
    by (simp add: contrib_def)
qed

lemma stride_row_less:
  fixes st :: int
  assumes "0 \<le> pos" "pos < st"
  shows "(pos + j * st < cnt * st) = (j < cnt)"
proof
  assume "pos + j * st < cnt * st"
  then have "j * st < cnt * st" using assms(1) by simp
  then show "j < cnt" using assms by (simp add: mult_less_cancel_right)
next
  assume "j < cnt"
  then have "j + 1 \<le> cnt" by simp
  then have "(j + 1) * st \<le> cnt * st"
    using assms by (intro mult_right_mono) simp_all
  then show "pos + j * st < cnt * st"
    using assms(2) by (simp add: algebra_simps)
qed

lemma row2_loop_at:
  assumes "args_fit a" "0 < atom_stride a" "0 \<le> pos" "pos < atom_stride a"
    and "x_pos = bx + l - order_m_1 a" "y_pos = by + m - order_m_1 a"
  shows "row2_loop a s x_pos y_pos nz l m (cnt * atom_stride a) (pos + j * atom_stride a) ans =
           Some (\<lambda>k. ans k +
             (if 0 \<le> k \<and> k < order a
              then \<Sum>row\<in>{j..<cnt}. contrib a s x_pos y_pos nz
                     (d_brick_atoms s (pos + row * atom_stride a)) bx by (nz + k)
              else 0))"
proof (induction "nat (cnt - j)" arbitrary: j ans)
  case 0
  then have le: "cnt \<le> j" by simp
  then have "\<not> pos + j * atom_stride a < cnt * atom_stride a"
    by (simp add: stride_row_less [OF assms(3,4)])
  then show ?case
    by (subst row2_loop.simps) (simp add: le cong: if_cong)
next
  case (Suc n)
  then have lt: "j < cnt" and n: "n = nat (cnt - (j + 1))" by simp_all
  have c: "pos + j * atom_stride a < cnt * atom_stride a"
    using lt by (simp add: stride_row_less [OF assms(3,4)])
  have nx: "pos + j * atom_stride a + atom_stride a = pos + (j + 1) * atom_stride a"
    by (simp add: algebra_simps)
  show ?case
    by (subst row2_loop.simps)
       (use assms(2) c in \<open>auto simp: nx Suc.hyps(1) [OF n] atom2_at [OF assms(1,5,6)]
          sum_int_interval_head [OF lt]\<close>)
qed

lemma cell_offset_range:
  assumes "in_cell_range a cx cy cz"
  shows "0 \<le> cell_offset a cx cy cz \<and>
         cell_offset a cx cy cz < nlocal_x a * nlocal_y a * nlocal_z a"
proof -
  have r: "0 \<le> cx" "cx + 1 \<le> nlocal_x a" "0 \<le> cy" "cy + 1 \<le> nlocal_y a"
    "0 \<le> cz" "cz + 1 \<le> nlocal_z a"
    using assms by (simp_all add: in_cell_range_def)
  have px: "0 \<le> nlocal_x a" and py: "0 \<le> nlocal_y a"
    using r by simp_all
  have "0 \<le> cz * nlocal_y a * nlocal_x a" "0 \<le> cy * nlocal_x a"
    using r px py by simp_all
  then have lo: "0 \<le> cell_offset a cx cy cz"
    unfolding cell_offset_def using r(1) by linarith
  have "cy * nlocal_x a + cx + 1 \<le> cy * nlocal_x a + nlocal_x a"
    using r by simp
  also have "\<dots> = (cy + 1) * nlocal_x a"
    by (simp add: algebra_simps)
  also have "\<dots> \<le> nlocal_y a * nlocal_x a"
    using r px by (intro mult_right_mono) simp_all
  finally have 1: "cy * nlocal_x a + cx + 1 \<le> nlocal_y a * nlocal_x a" .
  have yx0: "0 \<le> nlocal_y a * nlocal_x a"
    using px py by simp
  have "cell_offset a cx cy cz + 1 \<le> cz * (nlocal_y a * nlocal_x a) + nlocal_y a * nlocal_x a"
    using 1 by (simp add: cell_offset_def algebra_simps)
  also have "\<dots> = (cz + 1) * (nlocal_y a * nlocal_x a)"
    by (simp add: algebra_simps)
  also have "\<dots> \<le> nlocal_z a * (nlocal_y a * nlocal_x a)"
    using r yx0 by (intro mult_right_mono) simp_all
  finally have "cell_offset a cx cy cz < nlocal_x a * nlocal_y a * nlocal_z a"
    by (simp add: algebra_simps)
  with lo show ?thesis by simp
qed

lemma lists_fit_cell:
  assumes "lists_fit a s" "in_cell_range a cx cy cz"
  shows "0 \<le> cell_offset a cx cy cz" "cell_offset a cx cy cz < atom_stride a"
    "0 < atom_stride a"
    "mul24 (d_brick_counts s (cell_offset a cx cy cz)) (atom_stride a) =
       d_brick_counts s (cell_offset a cx cy cz) * atom_stride a"
proof -
  note r = cell_offset_range [OF assms(2)]
  from r show "0 \<le> cell_offset a cx cy cz" by simp
  from r assms(1) show lt: "cell_offset a cx cy cz < atom_stride a"
    by (simp add: lists_fit_def)
  with r show pos: "0 < atom_stride a" by simp
  from r assms(1) have c: "0 \<le> d_brick_counts s (cell_offset a cx cy cz)"
    "d_brick_counts s (cell_offset a cx cy cz) < 2 ^ 23"
    "d_brick_counts s (cell_offset a cx cy cz) * atom_stride a < 2 ^ 31"
    unfolding lists_fit_def by blast+
  have "atom_stride a < 2 ^ 23"
    using assms(1) by (simp add: lists_fit_def)
  with c pos show "mul24 (d_brick_counts s (cell_offset a cx cy cz)) (atom_stride a) =
       d_brick_counts s (cell_offset a cx cy cz) * atom_stride a"
    by (intro mul24_small) simp_all
qed

lemma block_setup_x:
  assumes "args_fit a" "0 \<le> bx" "x_start (block_setup a (bx, by)) \<le> l"
    "l < x_stop (block_setup a (bx, by))"
  shows "0 \<le> bx + l - order_m_1 a \<and> bx + l - order_m_1 a < nlocal_x a"
  using assms by (auto simp: block_setup_def args_fit_def Let_def split: if_splits)

lemma block_setup_y:
  assumes "args_fit a" "0 \<le> by" "y_start (block_setup a (bx, by)) \<le> m"
    "m < y_stop (block_setup a (bx, by))"
  shows "0 \<le> by + m - order_m_1 a \<and> by + m - order_m_1 a < nlocal_y a"
  using assms by (auto simp: block_setup_def args_fit_def Let_def split: if_splits)

lemma l2_loop_at:
  assumes af: "args_fit a" and lf: "lists_fit a s" and bx: "0 \<le> bx"
    and sh: "sh = block_setup a (bx, by)"
    and y: "y_pos = by + m - order_m_1 a" "0 \<le> y_pos" "y_pos < nlocal_y a"
    and z: "0 \<le> nz" "nz < nlocal_z a"
    and zl: "z_local + y_local = cell_offset a 0 y_pos nz"
  shows "x_start sh \<le> l \<Longrightarrow>
         l2_loop a s sh nz z_local y_pos y_local m l ans =
           Some (\<lambda>k. ans k +
             (if 0 \<le> k \<and> k < order a
              then \<Sum>l'\<in>{l..<x_stop sh}.
                     cell_dep a s (bx + l' - order_m_1 a) y_pos nz bx by (nz + k)
              else 0))"
proof (induction "nat (x_stop sh - l)" arbitrary: l ans)
  case 0
  then have le: "x_stop sh \<le> l" and nlt: "\<not> l < x_stop sh" by simp_all
  show ?case
    by (subst l2_loop.simps) (simp add: le nlt cong: if_cong)
next
  case (Suc n)
  then have lt: "l < x_stop sh" and n: "n = nat (x_stop sh - (l + 1))"
    and st: "x_start sh \<le> l + 1"
    by simp_all
  let ?x = "bx + l - order_m_1 a"
  have xr: "0 \<le> ?x \<and> ?x < nlocal_x a"
    using block_setup_x [OF af bx] Suc.prems lt unfolding sh by simp
  then have cr: "in_cell_range a ?x y_pos nz"
    using y z by (simp add: in_cell_range_def)
  have pos: "z_local + y_local + ?x = cell_offset a ?x y_pos nz"
    using zl by (simp add: cell_offset_def)
  note c = lists_fit_cell [OF lf cr]
  have shx: "sh_nx sh = bx"
    by (simp add: sh block_setup_def Let_def)
  have row: "row2_loop a s ?x y_pos nz l m
      (d_brick_counts s (cell_offset a ?x y_pos nz) * atom_stride a)
      (cell_offset a ?x y_pos nz) ans =
    Some (\<lambda>k. ans k +
             (if 0 \<le> k \<and> k < order a
              then cell_dep a s ?x y_pos nz bx by (nz + k) else 0))"
    using row2_loop_at [OF af c(3) c(1) c(2) refl y(1), where s = s and nz = nz and j = 0
        and ans = ans and bx = bx and l = l
        and cnt = "d_brick_counts s (cell_offset a ?x y_pos nz)"]
    by (simp add: cell_dep_def algebra_simps cong: if_cong)
  show ?case
    by (subst l2_loop.simps)
       (auto simp: lt Let_def shx pos c(4) row Suc.hyps(1) [OF n st]
          sum_int_interval_head [OF lt])
qed

lemma lists_fit_dims:
  assumes "lists_fit a s"
  shows "1 \<le> nlocal_x a" "1 \<le> nlocal_y a" "1 \<le> nlocal_z a"
    "nlocal_x a < 2 ^ 23" "nlocal_y a < 2 ^ 23" "nlocal_x a * nlocal_y a < 2 ^ 23"
    "nlocal_x a * nlocal_y a * nlocal_z a < 2 ^ 23"
proof -
  show d: "1 \<le> nlocal_x a" "1 \<le> nlocal_y a" "1 \<le> nlocal_z a"
    using assms by (simp_all add: lists_fit_def)
  show t: "nlocal_x a * nlocal_y a * nlocal_z a < 2 ^ 23"
    using assms by (simp add: lists_fit_def)
  have xy0: "0 \<le> nlocal_x a * nlocal_y a"
    using d by simp
  have "nlocal_x a * nlocal_y a * 1 \<le> nlocal_x a * nlocal_y a * nlocal_z a"
    using d(3) xy0 by (intro mult_left_mono) simp_all
  with t show xy: "nlocal_x a * nlocal_y a < 2 ^ 23"
    by simp
  have "nlocal_x a * 1 \<le> nlocal_x a * nlocal_y a"
    using d by (intro mult_left_mono) simp_all
  with xy show "nlocal_x a < 2 ^ 23"
    by simp
  have "1 * nlocal_y a \<le> nlocal_x a * nlocal_y a"
    using d by (intro mult_right_mono) simp_all
  with xy show "nlocal_y a < 2 ^ 23"
    by simp
qed

lemma mul24_row:
  assumes "lists_fit a s" "0 \<le> y_pos" "y_pos < nlocal_y a"
  shows "mul24 y_pos (nlocal_x a) = y_pos * nlocal_x a"
proof -
  note d = lists_fit_dims [OF assms(1)]
  have "y_pos * nlocal_x a \<le> nlocal_y a * nlocal_x a"
    using assms(2,3) d(1) by (intro mult_right_mono) simp_all
  then have "y_pos * nlocal_x a < 2 ^ 31"
    using d(6) by (simp add: mult.commute)
  then show ?thesis
    using assms(2,3) d by (intro mul24_small) simp_all
qed

lemma m2_loop_at:
  assumes af: "args_fit a" and lf: "lists_fit a s" and bx: "0 \<le> bx" and "by": "0 \<le> by"
    and sh: "sh = block_setup a (bx, by)"
    and z: "0 \<le> nz" "nz < nlocal_z a"
    and zl: "z_local = cell_offset a 0 0 nz"
  shows "y_start sh \<le> m \<Longrightarrow>
         m2_loop a s sh nz z_local m ans =
           Some (\<lambda>k. ans k +
             (if 0 \<le> k \<and> k < order a
              then \<Sum>m'\<in>{m..<y_stop sh}. \<Sum>l'\<in>{x_start sh..<x_stop sh}.
                     cell_dep a s (bx + l' - order_m_1 a) (by + m' - order_m_1 a) nz bx by (nz + k)
              else 0))"
proof (induction "nat (y_stop sh - m)" arbitrary: m ans)
  case 0
  then have le: "y_stop sh \<le> m" and nlt: "\<not> m < y_stop sh" by simp_all
  show ?case
    by (subst m2_loop.simps) (simp add: le nlt cong: if_cong)
next
  case (Suc n)
  then have lt: "m < y_stop sh" and n: "n = nat (y_stop sh - (m + 1))"
    and st: "y_start sh \<le> m + 1"
    by simp_all
  let ?y = "by + m - order_m_1 a"
  have yr: "0 \<le> ?y" "?y < nlocal_y a"
    using block_setup_y [OF af "by"] Suc.prems lt unfolding sh by simp_all
  have shy: "sh_ny sh = by"
    by (simp add: sh block_setup_def Let_def)
  have yl: "mul24 ?y (nlocal_x a) = ?y * nlocal_x a"
    using lf yr by (rule mul24_row)
  have zy: "z_local + ?y * nlocal_x a = cell_offset a 0 ?y nz"
    by (simp add: zl cell_offset_def)
  note l = l2_loop_at [OF af lf bx sh refl yr z zy order.refl]
  show ?case
    by (subst m2_loop.simps)
       (auto simp: lt Let_def shy yl l Suc.hyps(1) [OF n st] sum_int_interval_head [OF lt])
qed

lemma gather_at:
  assumes af: "args_fit a" and lf: "lists_fit a s" and bx: "0 \<le> bx" and "by": "0 \<le> by"
    and sh: "sh = block_setup a (bx, by)"
    and z: "0 \<le> nz" and zl: "nz < nlocal_z a \<longrightarrow> z_local = cell_offset a 0 0 nz"
  shows "gather a s sh nz z_local ans =
           Some (\<lambda>k. if 0 \<le> k \<and> k < order a
                      then (if nz < nlocal_z a then col_dep a s bx by nz (nz + k) else 0)
                      else ans k)"
proof (cases "nz < nlocal_z a")
  case True
  with zl have zl': "z_local = cell_offset a 0 0 nz" by simp
  show ?thesis
    unfolding gather_def Let_def
      m2_loop_at [OF af lf bx "by" sh z True zl' order.refl]
    by (auto simp: True ans_zero_at col_dep_def sh)
next
  case False
  then show ?thesis
    unfolding gather_def Let_def by (auto simp: ans_zero_at)
qed

lemma gather_all_fold:
  assumes af: "args_fit a" and lf: "lists_fit a s" and bx: "0 \<le> bx" and "by": "0 \<le> by"
    and sh: "sh = block_setup a (bx, by)"
  shows "\<forall>tx\<in>set xs. 0 \<le> t_nz st tx \<and>
            (t_nz st tx < nlocal_z a \<longrightarrow> t_z_local st tx = cell_offset a 0 0 (t_nz st tx)) \<Longrightarrow>
         fold (\<lambda>tx r. case r of
                    None \<Rightarrow> None
                  | Some st' \<Rightarrow>
                      (case gather a s sh (t_nz st' tx) (t_z_local st' tx) (t_ans st' tx) of
                         None \<Rightarrow> None
                       | Some ans \<Rightarrow> Some (st'\<lparr>t_ans := (t_ans st')(tx := ans)\<rparr>)))
           xs (Some st) =
         Some (st\<lparr>t_ans := (\<lambda>tx. if tx \<in> set xs
                                 then (\<lambda>k. if 0 \<le> k \<and> k < order a
                                            then plane_ans a s bx by (t_nz st tx) k
                                            else t_ans st tx k)
                                 else t_ans st tx)\<rparr>)"
proof (induction xs arbitrary: st)
  case Nil
  show ?case by simp
next
  case (Cons x xs)
  have g: "gather a s sh (t_nz st x) (t_z_local st x) (t_ans st x) =
      Some (\<lambda>k. if 0 \<le> k \<and> k < order a then plane_ans a s bx by (t_nz st x) k
                 else t_ans st x k)"
    (is "_ = Some ?G")
    using Cons.prems gather_at [OF af lf bx "by" sh, of "t_nz st x" "t_z_local st x" "t_ans st x"]
    by (auto simp: plane_ans_def cong: if_cong)
  let ?st1 = "st\<lparr>t_ans := (t_ans st)(x := ?G)\<rparr>"
  have p: "\<forall>tx\<in>set xs. 0 \<le> t_nz ?st1 tx \<and>
            (t_nz ?st1 tx < nlocal_z a \<longrightarrow> t_z_local ?st1 tx = cell_offset a 0 0 (t_nz ?st1 tx))"
    using Cons.prems by simp
  show ?case
    unfolding fold_Cons comp_def option.case g Cons.IH [OF p]
    by (auto simp: fun_eq_iff)
qed

lemma shift_add_fold:
  assumes "0 < order a" "order a \<le> BLOCK_1D" "- 1 \<le> h" "h < BLOCK_1D"
  shows "fold (\<lambda>tx fr. let fr = shift_front a tx fr
                       in if 0 < order a then add_front tx 0 (A tx) fr else fr) [0..h] fr t =
           (if 0 \<le> t \<and> t \<le> h then (if t < order a then fr (BLOCK_1D + t) else 0) + A t 0
            else if BLOCK_1D \<le> t \<and> t \<le> BLOCK_1D + h \<and> t - BLOCK_1D < order a then 0
            else fr t)"
proof -
  define F where "F = (\<lambda>tx fr. let fr = shift_front a tx fr
                       in if 0 < order a then add_front tx 0 (A tx) fr else fr)"
  have Fh: "F tx X t = (if t = tx then (if tx < order a then X (BLOCK_1D + tx) else 0) + A tx 0
                       else if t = BLOCK_1D + tx \<and> tx < order a then 0 else X t)" for tx X t
    using assms(1) by (simp add: F_def Let_def shift_front_def add_front_def BLOCK_1D_def)
  have "fold F [0..h] fr t =
           (if 0 \<le> t \<and> t \<le> h then (if t < order a then fr (BLOCK_1D + t) else 0) + A t 0
            else if BLOCK_1D \<le> t \<and> t \<le> BLOCK_1D + h \<and> t - BLOCK_1D < order a then 0
            else fr t)"
    using assms(3,4)
  proof (induction "nat (h + 1)" arbitrary: h t)
    case 0
    then have "h = - 1" by simp
    then show ?case by (auto simp: BLOCK_1D_def)
  next
    case (Suc n)
    then have h0: "0 \<le> h" and n: "n = nat (h - 1 + 1)" and b: "- 1 \<le> h - 1" "h - 1 < BLOCK_1D"
      by simp_all
    have u: "fold F [0..h] fr = F h (fold F [0..h - 1] fr)"
      by (simp add: upto_rec2 [OF h0])
    show ?case
      unfolding u Fh Suc.hyps(1) [OF n b]
      using h0 Suc.prems assms(2) by (auto simp: BLOCK_1D_def)
  qed
  then show ?thesis
    unfolding F_def .
qed

lemma add_fold:
  assumes "- 1 \<le> h"
  shows "fold (\<lambda>tx. add_front tx n (A tx)) [0..h] fr t =
           fr t + (if 0 \<le> t - n \<and> t - n \<le> h then A (t - n) n else 0)"
proof -
  define F where "F = (\<lambda>tx. add_front tx n (A tx))"
  have Fh: "F tx X t = X t + (if t = tx + n then A tx n else 0)" for tx X t
    by (simp add: F_def add_front_def)
  have "fold F [0..h] fr t = fr t + (if 0 \<le> t - n \<and> t - n \<le> h then A (t - n) n else 0)"
    using assms
  proof (induction "nat (h + 1)" arbitrary: h t)
    case 0
    then have "h = - 1" by simp
    then show ?case by auto
  next
    case (Suc m)
    then have h0: "0 \<le> h" and m: "m = nat (h - 1 + 1)" and b: "- 1 \<le> h - 1"
      by simp_all
    have u: "fold F [0..h] fr = F h (fold F [0..h - 1] fr)"
      by (simp add: upto_rec2 [OF h0])
    show ?case
      unfolding u Fh Suc.hyps(1) [OF m b]
      using h0 by auto
  qed
  then show ?thesis
    unfolding F_def .
qed

lemma rounds_at:
  "rounds a st n fr t =
     fr t + (\<Sum>n'\<in>{n..<order a}.
               if 0 \<le> t - n' \<and> t - n' \<le> BLOCK_1D - 1 then t_ans st (t - n') n' else 0)"
proof (induction a st n fr arbitrary: t rule: rounds.induct)
  case (1 a st n fr)
  show ?case
  proof (cases "n < order a")
    case True
    have b: "- 1 \<le> BLOCK_1D - 1" by (simp add: BLOCK_1D_def)
    have step: "rounds a st n fr t =
        rounds a st (n + 1) (fold (\<lambda>tx. add_front tx n (t_ans st tx)) threads fr) t"
      by (subst rounds.simps) (simp add: True)
    have "rounds a st n fr t =
        fold (\<lambda>tx. add_front tx n (t_ans st tx)) threads fr t +
        (\<Sum>n'\<in>{n + 1..<order a}.
           if 0 \<le> t - n' \<and> t - n' \<le> BLOCK_1D - 1 then t_ans st (t - n') n' else 0)"
      by (simp only: step "1.IH" [OF True])
    then show ?thesis
      by (simp add: threads_def add_fold [OF b] sum_int_interval_head [OF True])
  next
    case False
    then show ?thesis
      by (subst rounds.simps) simp
  qed
qed

lemma write_fold:
  fixes nz pt :: "int \<Rightarrow> int" and lim :: int and fr br :: "int \<Rightarrow> numtyp"
  assumes "- 1 \<le> h"
    and inj: "\<And>tx tx'. 0 \<le> tx \<Longrightarrow> tx \<le> h \<Longrightarrow> 0 \<le> tx' \<Longrightarrow> tx' \<le> h \<Longrightarrow> pt tx = pt tx'
                 \<Longrightarrow> tx = tx'"
  shows "(0 \<le> tx0 \<and> tx0 \<le> h \<and> nz tx0 < lim \<longrightarrow>
            fold (\<lambda>tx br. if nz tx < lim then br(pt tx := fr tx) else br) [0..h] br (pt tx0)
              = fr tx0) \<and>
         ((\<forall>tx. 0 \<le> tx \<and> tx \<le> h \<and> nz tx < lim \<longrightarrow> x \<noteq> pt tx) \<longrightarrow>
            fold (\<lambda>tx br. if nz tx < lim then br(pt tx := fr tx) else br) [0..h] br x = br x)"
proof -
  define W where "W = (\<lambda>tx br. if nz tx < lim then br(pt tx := fr tx) else br)"
  have Wh: "W tx X y = (if nz tx < lim \<and> y = pt tx then fr tx else X y)" for tx X y
    by (simp add: W_def)
  have "(0 \<le> tx0 \<and> tx0 \<le> h \<and> nz tx0 < lim \<longrightarrow> fold W [0..h] br (pt tx0) = fr tx0) \<and>
         ((\<forall>tx. 0 \<le> tx \<and> tx \<le> h \<and> nz tx < lim \<longrightarrow> x \<noteq> pt tx) \<longrightarrow>
            fold W [0..h] br x = br x)"
    using assms(1) inj
  proof (induction "nat (h + 1)" arbitrary: h)
    case 0
    then have "h = - 1" by simp
    then show ?case by auto
  next
    case (Suc n)
    then have h0: "0 \<le> h" and n: "n = nat (h - 1 + 1)" and b: "- 1 \<le> h - 1"
      by simp_all
    have u: "fold W [0..h] br = W h (fold W [0..h - 1] br)"
      by (simp add: upto_rec2 [OF h0])
    have inj': "\<And>tx tx'. 0 \<le> tx \<Longrightarrow> tx \<le> h - 1 \<Longrightarrow> 0 \<le> tx' \<Longrightarrow> tx' \<le> h - 1 \<Longrightarrow>
        pt tx = pt tx' \<Longrightarrow> tx = tx'"
      using Suc.prems(2) by simp
    note IH = Suc.hyps(1) [OF n b inj']
    have ne: "pt tx0 \<noteq> pt h" if "0 \<le> tx0" "tx0 \<le> h - 1"
      using Suc.prems(2) [of tx0 h] that h0 by auto
    have IH1: "fold W [0..h - 1] br (pt tx0) = fr tx0"
      if "0 \<le> tx0" "tx0 \<le> h - 1" "nz tx0 < lim"
      using IH that by blast
    have IH2: "fold W [0..h - 1] br x = br x"
      if "\<forall>tx. 0 \<le> tx \<and> tx \<le> h - 1 \<and> nz tx < lim \<longrightarrow> x \<noteq> pt tx"
      using IH that by blast
    have p1: "W h (fold W [0..h - 1] br) (pt tx0) = fr tx0"
      if t: "0 \<le> tx0" "tx0 \<le> h" "nz tx0 < lim"
    proof (cases "tx0 = h")
      case True
      then show ?thesis using t by (simp add: Wh)
    next
      case False
      then have l: "tx0 \<le> h - 1" using t by simp
      show ?thesis
        using ne [OF t(1) l] IH1 [OF t(1) l t(3)] by (simp add: Wh)
    qed
    have p2: "W h (fold W [0..h - 1] br) x = br x"
      if t: "\<forall>tx. 0 \<le> tx \<and> tx \<le> h \<and> nz tx < lim \<longrightarrow> x \<noteq> pt tx"
    proof -
      have a: "\<forall>tx. 0 \<le> tx \<and> tx \<le> h - 1 \<and> nz tx < lim \<longrightarrow> x \<noteq> pt tx"
        using t by simp
      have b: "\<not> (nz h < lim \<and> x = pt h)"
        using t h0 by blast
      show ?thesis
        using IH2 [OF a] b by (auto simp: Wh)
    qed
    show ?case
      unfolding u using p1 p2 by blast
  qed
  then show ?thesis
    unfolding W_def .
qed

lemma halo_init_fold:
  assumes "- 1 \<le> h"
  shows "fold (\<lambda>tx fr. if tx < order a then fr(BLOCK_1D + tx := 0) else fr) [0..h]
           (fr :: int \<Rightarrow> numtyp) t =
           (if BLOCK_1D \<le> t \<and> t \<le> BLOCK_1D + h \<and> t - BLOCK_1D < order a then 0 else fr t)"
proof -
  define F where "F = (\<lambda>tx fr. if tx < order a then fr(BLOCK_1D + tx := (0::numtyp)) else fr)"
  have Fh: "F tx X t = (if t = BLOCK_1D + tx \<and> tx < order a then 0 else X t)" for tx X t
    by (simp add: F_def)
  have "fold F [0..h] fr t =
      (if BLOCK_1D \<le> t \<and> t \<le> BLOCK_1D + h \<and> t - BLOCK_1D < order a then 0 else fr t)"
    using assms
  proof (induction "nat (h + 1)" arbitrary: h t)
    case 0
    then have "h = - 1" by simp
    then show ?case by auto
  next
    case (Suc m)
    then have h0: "0 \<le> h" and m: "m = nat (h - 1 + 1)" and b: "- 1 \<le> h - 1"
      by simp_all
    have u: "fold F [0..h] fr = F h (fold F [0..h - 1] fr)"
      by (simp add: upto_rec2 [OF h0])
    show ?case
      unfolding u Fh Suc.hyps(1) [OF m b]
      using h0 by auto
  qed
  then show ?thesis
    unfolding F_def .
qed

lemma block_setup_strides:
  assumes lf: "lists_fit a s" and bf: "brick_fits a npts_y" and yx: "0 \<le> npts_yx a"
  shows "sh_z_stride (block_setup a blk) = BLOCK_1D * npts_yx a"
    and "sh_z_local_stride (block_setup a blk) = BLOCK_1D * (nlocal_x a * nlocal_y a)"
proof -
  note d = lists_fit_dims [OF lf]
  have y: "npts_yx a < 2 ^ 23"
    using bf by (simp add: brick_fits_def)
  have "mul24 (npts_yx a) 64 = npts_yx a * 64"
    using yx y by (intro mul24_small) simp_all
  then show "sh_z_stride (block_setup a blk) = BLOCK_1D * npts_yx a"
    by (simp add: block_setup_def Let_def BLOCK_1D_def)
  have xy: "mul24 (nlocal_x a) (nlocal_y a) = nlocal_x a * nlocal_y a"
    using d by (intro mul24_small) simp_all
  have xy0: "0 \<le> nlocal_x a * nlocal_y a"
    using d by simp
  have "mul24 (nlocal_x a * nlocal_y a) 64 = nlocal_x a * nlocal_y a * 64"
    using xy0 d(6) by (intro mul24_small) simp_all
  then show "sh_z_local_stride (block_setup a blk) = BLOCK_1D * (nlocal_x a * nlocal_y a)"
    by (simp add: block_setup_def Let_def BLOCK_1D_def xy)
qed

lemma brick_at_plane_inj:
  assumes "1 \<le> npts_yx a" "brick_at a X Y Z = brick_at a X Y Z'"
  shows "Z = Z'"
  using assms by (simp add: brick_at_def)

lemma block_iter_inv:
  assumes af: "args_fit a" and lf: "lists_fit a s" and bf: "brick_fits a npts_y"
    and bx: "0 \<le> bx" "bx < npts_x a" and "by": "0 \<le> by" "by < npts_y"
    and sh: "sh = block_setup a (bx, by)"
    and i0: "0 \<le> i" and inv: "block_inv a s bx by brick0 i st"
  shows "\<exists>st'. block_iter a s sh st = Some st' \<and> block_inv a s bx by brick0 (i + 1) st'"
proof -
  have B: "BLOCK_1D = 64"
    by (simp add: BLOCK_1D_def)
  have o1: "1 \<le> order a"
    using bf by (simp add: brick_fits_def)
  have o64: "order a \<le> 64"
    using af by (simp add: args_fit_def B)
  have yx: "npts_yx a = npts_y * npts_x a"
    using bf by (simp add: brick_fits_def)
  have "1 * 1 \<le> npts_y * npts_x a"
    using bx "by" by (intro mult_mono) simp_all
  then have yx1: "1 \<le> npts_yx a"
    by (simp add: yx)
  have y0: "0 \<le> npts_yx a"
    using yx1 by simp
  have strides: "sh_z_stride sh = 64 * npts_yx a"
    "sh_z_local_stride sh = 64 * (nlocal_x a * nlocal_y a)"
    using block_setup_strides [OF lf bf y0, where blk = "(bx, by)"] by (simp_all add: sh B)
  have I1: "t_nz st tx = tx + 64 * i" if "0 \<le> tx" "tx < 64" for tx
    using inv that unfolding block_inv_def B by blast
  have I2: "t_pt st tx = brick_at a bx by (tx + 64 * i)" if "0 \<le> tx" "tx < 64" for tx
    using inv that unfolding block_inv_def B by blast
  have I3: "t_z_local st tx = cell_offset a 0 0 (tx + 64 * i)"
    if "0 \<le> tx" "tx < 64" "tx + 64 * i < nlocal_z a" for tx
    using inv that unfolding block_inv_def B by blast
  have I4: "front st t =
      (\<Sum>n\<in>{0..<order a}. if t - n \<le> 64 - 1
                           then plane_ans a s bx by (64 * (i - 1) + t - n) n else 0)"
    if "64 \<le> t" "t < 64 + order a" for t
    using inv that unfolding block_inv_def B by blast
  have I5: "brick st (brick_at a bx by Z) = column_value a s bx by Z"
    if "0 \<le> Z" "Z < 64 * i" "Z < npts_z a" for Z
    using inv that unfolding block_inv_def B by blast
  have I6: "brick st x = brick0 x"
    if "\<forall>Z. 0 \<le> Z \<and> Z < npts_z a \<longrightarrow> x \<noteq> brick_at a bx by Z" for x
    using inv that unfolding block_inv_def B by blast
  have thr: "tx \<in> set threads \<longleftrightarrow> 0 \<le> tx \<and> tx < 64" for tx
    by (auto simp: threads_def B)
  define A where "A = (\<lambda>tx. if tx \<in> set threads
                                 then (\<lambda>k. if 0 \<le> k \<and> k < order a
                                            then plane_ans a s bx by (t_nz st tx) k
                                            else t_ans st tx k)
                                 else t_ans st tx)"
  define st1 where "st1 = st\<lparr>t_ans := A\<rparr>"
  have pre: "\<forall>tx\<in>set threads. 0 \<le> t_nz st tx \<and>
      (t_nz st tx < nlocal_z a \<longrightarrow> t_z_local st tx = cell_offset a 0 0 (t_nz st tx))"
    using I1 I3 i0 by (simp add: thr)
  have g: "gather_all a s sh st = Some st1"
    unfolding gather_all_def st1_def A_def
    by (rule gather_all_fold [OF af lf bx(1) "by"(1) sh pre])
  have A_at: "A tx k = plane_ans a s bx by (tx + 64 * i) k"
    if "0 \<le> tx" "tx < 64" "0 \<le> k" "k < order a" for tx k
    using that I1 by (simp add: A_def thr)
  have st1_sel: "t_ans st1 = A" "front st1 = front st" "brick st1 = brick st"
    "t_nz st1 = t_nz st" "t_pt st1 = t_pt st" "t_z_local st1 = t_z_local st"
    by (simp_all add: st1_def)
  define fr2 where "fr2 = rounds a st1 1 (first_round a st1)"
  have fr1: "first_round a st1 t =
      (if 0 \<le> t \<and> t \<le> BLOCK_1D - 1
       then (if t < order a then front st (BLOCK_1D + t) else 0) + A t 0
       else if BLOCK_1D \<le> t \<and> t \<le> BLOCK_1D + (BLOCK_1D - 1) \<and> t - BLOCK_1D < order a then 0
       else front st t)" for t
    unfolding first_round_def threads_def st1_sel
    by (rule shift_add_fold) (use o1 o64 B in simp_all)
  have fr2_at: "fr2 t = first_round a st1 t +
      (\<Sum>n'\<in>{1..<order a}. if 0 \<le> t - n' \<and> t - n' \<le> BLOCK_1D - 1 then A (t - n') n' else 0)"
    for t
    unfolding fr2_def rounds_at st1_sel ..
  have halo: "fr2 t =
      (\<Sum>n\<in>{0..<order a}. if t - n \<le> 64 - 1
                           then plane_ans a s bx by (64 * i + t - n) n else 0)"
    if t: "64 \<le> t" "t < 64 + order a" for t
  proof -
    have f: "first_round a st1 t = 0"
      using t o64 by (simp add: fr1 B)
    have "(\<Sum>n'\<in>{1..<order a}. if 0 \<le> t - n' \<and> t - n' \<le> BLOCK_1D - 1 then A (t - n') n' else 0) =
        (\<Sum>n\<in>{0 + 1..<order a}. if t - n \<le> 64 - 1
                           then plane_ans a s bx by (64 * i + t - n) n else 0)"
    proof (rule sum.cong)
      fix n assume "n \<in> {0 + 1..<order a}"
      then have n: "1 \<le> n" "n < order a" by simp_all
      then have "0 \<le> t - n" using t o64 by simp
      then show "(if 0 \<le> t - n \<and> t - n \<le> BLOCK_1D - 1 then A (t - n) n else 0) =
          (if t - n \<le> 64 - 1 then plane_ans a s bx by (64 * i + t - n) n else 0)"
        using n by (simp add: B A_at algebra_simps)
    qed simp
    then show ?thesis
      using t o1 by (simp add: fr2_at f sum_int_interval_head [of 0 "order a"])
  qed
  have main: "fr2 t = column_value a s bx by (t + 64 * i)"
    if t: "0 \<le> t" "t < 64" for t
  proof -
    have f: "first_round a st1 t = (if t < order a then front st (64 + t) else 0) + A t 0"
      using t by (simp add: fr1 B)
    have carry: "(if t < order a then front st (64 + t) else 0) =
        (\<Sum>n\<in>{0..<order a}. if t - n < 0 then plane_ans a s bx by (t + 64 * i - n) n else 0)"
    proof (cases "t < order a")
      case True
      have "front st (64 + t) =
          (\<Sum>n\<in>{0..<order a}. if t - n < 0 then plane_ans a s bx by (t + 64 * i - n) n else 0)"
        using t True
        by (subst I4) (auto intro!: sum.cong simp: algebra_simps)
      then show ?thesis
        using True by simp
    next
      case False
      have "(\<Sum>n\<in>{0..<order a}. if t - n < 0 then plane_ans a s bx by (t + 64 * i - n) n else 0) =
          (\<Sum>n\<in>{0..<order a}. 0)"
        using False by (intro sum.cong) auto
      then show ?thesis
        using False by simp
    qed
    have rest: "A t 0 +
        (\<Sum>n'\<in>{1..<order a}. if 0 \<le> t - n' \<and> t - n' \<le> BLOCK_1D - 1 then A (t - n') n' else 0) =
        (\<Sum>n\<in>{0..<order a}. if t - n < 0 then 0 else plane_ans a s bx by (t + 64 * i - n) n)"
    proof -
      have "(\<Sum>n'\<in>{1..<order a}. if 0 \<le> t - n' \<and> t - n' \<le> BLOCK_1D - 1 then A (t - n') n' else 0) =
          (\<Sum>n\<in>{0 + 1..<order a}. if t - n < 0 then 0 else plane_ans a s bx by (t + 64 * i - n) n)"
      proof (rule sum.cong)
        fix n assume "n \<in> {0 + 1..<order a}"
        then have n: "1 \<le> n" "n < order a" by simp_all
        show "(if 0 \<le> t - n \<and> t - n \<le> BLOCK_1D - 1 then A (t - n) n else 0) =
            (if t - n < 0 then 0 else plane_ans a s bx by (t + 64 * i - n) n)"
        proof (cases "t - n < 0")
          case True
          then show ?thesis by simp
        next
          case False
          then have "0 \<le> t - n" "t - n < 64" using t n by simp_all
          then show ?thesis
            using n False by (simp add: B A_at algebra_simps)
        qed
      qed simp
      moreover have "A t 0 = plane_ans a s bx by (t + 64 * i - 0) 0"
        using t o1 by (simp add: A_at)
      ultimately show ?thesis
        using t o1 by (simp add: sum_int_interval_head [of 0 "order a"])
    qed
    have "fr2 t =
        (\<Sum>n\<in>{0..<order a}. if t - n < 0 then plane_ans a s bx by (t + 64 * i - n) n else 0) +
        (\<Sum>n\<in>{0..<order a}. if t - n < 0 then 0 else plane_ans a s bx by (t + 64 * i - n) n)"
      unfolding fr2_at f carry using rest by simp
    also have "\<dots> = (\<Sum>n\<in>{0..<order a}. plane_ans a s bx by (t + 64 * i - n) n)"
      unfolding sum.distrib [symmetric] by (intro sum.cong) auto
    finally show ?thesis
      by (simp add: column_value_def)
  qed
  define st2 where "st2 = st1\<lparr>front := fr2\<rparr>"
  define br3 where "br3 = write_back a st2"
  have ptinj: "tx = tx'"
    if "0 \<le> tx" "tx \<le> 64 - 1" "0 \<le> tx'" "tx' \<le> 64 - 1" "t_pt st tx = t_pt st tx'" for tx tx'
  proof -
    have "brick_at a bx by (tx + 64 * i) = brick_at a bx by (tx' + 64 * i)"
      using that by (simp add: I2)
    from brick_at_plane_inj [OF yx1 this] show ?thesis by simp
  qed
  have b63: "- 1 \<le> (64::int) - 1" by simp
  have br3_eq: "br3 = fold (\<lambda>tx br. if t_nz st tx < npts_z a then br(t_pt st tx := fr2 tx) else br)
      [0..64 - 1] (brick st)"
    by (simp add: br3_def write_back_def st2_def st1_def threads_def B cong: if_cong)
  have W1: "br3 (brick_at a bx by (tx0 + 64 * i)) = fr2 tx0"
    if "0 \<le> tx0" "tx0 < 64" "tx0 + 64 * i < npts_z a" for tx0
  proof -
    have c: "0 \<le> tx0 \<and> tx0 \<le> 64 - 1 \<and> t_nz st tx0 < npts_z a"
      using that by (simp add: I1)
    have "br3 (t_pt st tx0) = fr2 tx0"
      unfolding br3_eq
      using write_fold [where h = "64 - 1" and pt = "t_pt st" and ?tx0.0 = tx0 and nz = "t_nz st"
          and lim = "npts_z a" and fr = fr2 and br = "brick st", OF b63 ptinj] c
      by blast
    then show ?thesis
      using that by (simp add: I2)
  qed
  have W2: "br3 x = brick st x"
    if "\<forall>tx. 0 \<le> tx \<and> tx < 64 \<and> tx + 64 * i < npts_z a \<longrightarrow> x \<noteq> brick_at a bx by (tx + 64 * i)"
    for x
  proof -
    have c: "\<forall>tx. 0 \<le> tx \<and> tx \<le> 64 - 1 \<and> t_nz st tx < npts_z a \<longrightarrow> x \<noteq> t_pt st tx"
    proof (intro allI impI)
      fix tx assume h: "0 \<le> tx \<and> tx \<le> 64 - 1 \<and> t_nz st tx < npts_z a"
      then have r: "0 \<le> tx" "tx < 64" by simp_all
      from h have "tx + 64 * i < npts_z a" by (simp add: I1 [OF r])
      with that r have "x \<noteq> brick_at a bx by (tx + 64 * i)" by blast
      then show "x \<noteq> t_pt st tx" by (simp add: I2 [OF r])
    qed
    show ?thesis
      unfolding br3_eq
      using write_fold [where h = "64 - 1" and pt = "t_pt st" and nz = "t_nz st"
          and lim = "npts_z a" and fr = fr2 and br = "brick st" and x = x, OF b63 ptinj] c
      by blast
  qed
  define st' where "st' = st\<lparr>t_nz := (\<lambda>tx. t_nz st tx + 64),
                              t_pt := (\<lambda>tx. t_pt st tx + 64 * npts_yx a),
                              t_z_local := (\<lambda>tx. t_z_local st tx + 64 * (nlocal_x a * nlocal_y a)),
                              t_ans := A, front := fr2, brick := br3\<rparr>"
  have it: "block_iter a s sh st = Some st'"
    unfolding block_iter_def g option.case Let_def fr2_def [symmetric] st2_def [symmetric]
      br3_def [symmetric] strides
    by (simp add: st'_def st2_def st1_def B strides)
  have n1: "t_nz st' tx = tx + 64 * (i + 1)" if "0 \<le> tx" "tx < 64" for tx
    using that by (simp add: st'_def I1)
  have n2: "t_pt st' tx = brick_at a bx by (tx + 64 * (i + 1))" if "0 \<le> tx" "tx < 64" for tx
    using that by (simp add: st'_def I2 brick_at_def algebra_simps)
  have n3: "t_z_local st' tx = cell_offset a 0 0 (tx + 64 * (i + 1))"
    if "0 \<le> tx" "tx < 64" "tx + 64 * (i + 1) < nlocal_z a" for tx
    using that by (simp add: st'_def I3 cell_offset_def algebra_simps)
  have n4: "front st' t =
      (\<Sum>n\<in>{0..<order a}. if t - n \<le> 64 - 1
                           then plane_ans a s bx by (64 * (i + 1 - 1) + t - n) n else 0)"
    if "64 \<le> t" "t < 64 + order a" for t
  proof -
    have e: "i + 1 - 1 = i" by simp
    show ?thesis
      unfolding e using halo [OF that] by (simp add: st'_def)
  qed
  have n5: "brick st' (brick_at a bx by Z) = column_value a s bx by Z"
    if Z: "0 \<le> Z" "Z < 64 * (i + 1)" "Z < npts_z a" for Z
  proof (cases "Z < 64 * i")
    case True
    have "\<forall>tx. 0 \<le> tx \<and> tx < 64 \<and> tx + 64 * i < npts_z a \<longrightarrow>
        brick_at a bx by Z \<noteq> brick_at a bx by (tx + 64 * i)"
    proof (intro allI impI notI)
      fix tx assume h: "0 \<le> tx \<and> tx < 64 \<and> tx + 64 * i < npts_z a"
        and e: "brick_at a bx by Z = brick_at a bx by (tx + 64 * i)"
      from brick_at_plane_inj [OF yx1 e] h True show False by simp
    qed
    from W2 [OF this] I5 [OF Z(1) True Z(3)] show ?thesis
      by (simp add: st'_def)
  next
    case False
    then have r: "0 \<le> Z - 64 * i" "Z - 64 * i < 64" "Z - 64 * i + 64 * i < npts_z a"
      using Z by simp_all
    from W1 [OF r] main [OF r(1,2)] show ?thesis
      by (simp add: st'_def)
  qed
  have n6: "brick st' x = brick0 x"
    if x: "\<forall>Z. 0 \<le> Z \<and> Z < npts_z a \<longrightarrow> x \<noteq> brick_at a bx by Z" for x
  proof -
    have "\<forall>tx. 0 \<le> tx \<and> tx < 64 \<and> tx + 64 * i < npts_z a \<longrightarrow> x \<noteq> brick_at a bx by (tx + 64 * i)"
      using x i0 by simp
    from W2 [OF this] I6 [OF x] show ?thesis
      by (simp add: st'_def)
  qed
  have "block_inv a s bx by brick0 (i + 1) st'"
    unfolding block_inv_def B
    using n1 n2 n3 n4 n5 n6 by blast
  with it show ?thesis
    by blast
qed

lemma contrib_cong:
  assumes "\<And>j. 0 \<le> j \<Longrightarrow> j < order2 a + order a \<Longrightarrow> c' j = d_rho_coeff s j"
    and "0 \<le> X - cx" "X - cx < order a" "0 \<le> Y - cy" "Y - cy < order a"
    and "0 \<le> Z - cz" "Z - cz < order a"
  shows "contrib a (s\<lparr>d_rho_coeff := c'\<rparr>) cx cy cz atom X Y Z = contrib a s cx cy cz atom X Y Z"
  unfolding contrib_def
  by (simp add: weight_cong [OF assms(1,2,3)] weight_cong [OF assms(1,4,5)]
      weight_cong [OF assms(1,6,7)])

lemma cell_dep_cong:
  assumes "\<And>j. 0 \<le> j \<Longrightarrow> j < order2 a + order a \<Longrightarrow> c' j = d_rho_coeff s j"
    and "0 \<le> X - cx" "X - cx < order a" "0 \<le> Y - cy" "Y - cy < order a"
    and "0 \<le> Z - cz" "Z - cz < order a"
  shows "cell_dep a (s\<lparr>d_rho_coeff := c'\<rparr>) cx cy cz X Y Z = cell_dep a s cx cy cz X Y Z"
  unfolding cell_dep_def by (simp add: contrib_cong [OF assms])

lemma block_setup_stencil:
  assumes "args_fit a" "0 \<le> bx" "0 \<le> by"
  shows "x_start (block_setup a (bx, by)) \<le> l \<Longrightarrow> l < x_stop (block_setup a (bx, by))
           \<Longrightarrow> 0 \<le> l \<and> l < order a"
    and "y_start (block_setup a (bx, by)) \<le> m \<Longrightarrow> m < y_stop (block_setup a (bx, by))
           \<Longrightarrow> 0 \<le> m \<and> m < order a"
  using assms by (auto simp: block_setup_def args_fit_def Let_def split: if_splits)

lemma col_dep_cong:
  assumes c: "\<And>j. 0 \<le> j \<Longrightarrow> j < order2 a + order a \<Longrightarrow> c' j = d_rho_coeff s j"
    and af: "args_fit a" and bx: "0 \<le> bx" and "by": "0 \<le> by"
    and z: "0 \<le> Z - cz" "Z - cz < order a"
  shows "col_dep a (s\<lparr>d_rho_coeff := c'\<rparr>) bx by cz Z = col_dep a s bx by cz Z"
  unfolding col_dep_def
proof (intro sum.cong refl)
  fix m l
  assume "m \<in> {y_start (block_setup a (bx, by))..<y_stop (block_setup a (bx, by))}"
    and "l \<in> {x_start (block_setup a (bx, by))..<x_stop (block_setup a (bx, by))}"
  then have m: "0 \<le> m \<and> m < order a" and l: "0 \<le> l \<and> l < order a"
    using block_setup_stencil [OF af bx "by"] by simp_all
  have om: "order_m_1 a = order a - 1"
    using af by (simp add: args_fit_def)
  have x: "0 \<le> bx - (bx + l - order_m_1 a)" "bx - (bx + l - order_m_1 a) < order a"
    using l by (simp_all add: om)
  have y: "0 \<le> by - (by + m - order_m_1 a)" "by - (by + m - order_m_1 a) < order a"
    using m by (simp_all add: om)
  show "cell_dep a (s\<lparr>d_rho_coeff := c'\<rparr>) (bx + l - order_m_1 a) (by + m - order_m_1 a) cz bx by Z =
      cell_dep a s (bx + l - order_m_1 a) (by + m - order_m_1 a) cz bx by Z"
    by (rule cell_dep_cong [OF c x y z])
qed

lemma column_value_cong:
  assumes c: "\<And>j. 0 \<le> j \<Longrightarrow> j < order2 a + order a \<Longrightarrow> c' j = d_rho_coeff s j"
    and af: "args_fit a" and bx: "0 \<le> bx" and "by": "0 \<le> by"
  shows "column_value a (s\<lparr>d_rho_coeff := c'\<rparr>) bx by Z = column_value a s bx by Z"
  unfolding column_value_def
proof (intro sum.cong refl)
  fix n assume "n \<in> {0..<order a}"
  then have n: "0 \<le> Z - (Z - n)" "Z - (Z - n) < order a"
    by simp_all
  show "plane_ans a (s\<lparr>d_rho_coeff := c'\<rparr>) bx by (Z - n) n = plane_ans a s bx by (Z - n) n"
    by (simp add: plane_ans_def col_dep_cong [OF c af bx "by" n] cong: if_cong)
qed

lemma cell_dep_brick: "cell_dep a (s\<lparr>d_brick := f\<rparr>) = cell_dep a s"
  by (simp add: cell_dep_def contrib_def fun_eq_iff)

lemma col_dep_brick: "col_dep a (s\<lparr>d_brick := f\<rparr>) = col_dep a s"
  by (simp add: col_dep_def cell_dep_brick fun_eq_iff)

lemma column_value_brick: "column_value a (s\<lparr>d_brick := f\<rparr>) = column_value a s"
  by (simp add: column_value_def plane_ans_def col_dep_brick fun_eq_iff cong: if_cong)

lemma lists_fit_update [simp]:
  "lists_fit a (s\<lparr>d_brick := f\<rparr>) = lists_fit a s"
  "lists_fit a (s\<lparr>d_rho_coeff := c\<rparr>) = lists_fit a s"
  by (simp_all add: lists_fit_def)

lemma coeff_fold:
  fixes c rc :: "int \<Rightarrow> numtyp"
  assumes "- 1 \<le> h"
  shows "fold (\<lambda>tx rc. if tx < n then rc(tx := c tx) else rc) [0..h] rc k =
           (if 0 \<le> k \<and> k \<le> h \<and> k < n then c k else rc k)"
proof -
  define F where "F = (\<lambda>tx rc. if tx < n then rc(tx := c tx) else rc)"
  have Fh: "F tx X k = (if k = tx \<and> tx < n then c tx else X k)" for tx X k
    by (simp add: F_def)
  have "fold F [0..h] rc k = (if 0 \<le> k \<and> k \<le> h \<and> k < n then c k else rc k)"
    using assms
  proof (induction "nat (h + 1)" arbitrary: h k)
    case 0
    then have "h = - 1" by simp
    then show ?case by auto
  next
    case (Suc m)
    then have h0: "0 \<le> h" and m: "m = nat (h - 1 + 1)" and b: "- 1 \<le> h - 1"
      by simp_all
    have u: "fold F [0..h] rc = F h (fold F [0..h - 1] rc)"
      by (simp add: upto_rec2 [OF h0])
    show ?case
      unfolding u Fh Suc.hyps(1) [OF m b]
      using h0 by auto
  qed
  then show ?thesis
    unfolding F_def .
qed

lemma block_loop_inv:
  assumes af: "args_fit a" and lf: "lists_fit a s" and bf: "brick_fits a npts_y"
    and bx: "0 \<le> bx" "bx < npts_x a" and "by": "0 \<le> by" "by < npts_y"
    and sh: "sh = block_setup a (bx, by)"
  shows "0 \<le> i \<Longrightarrow> block_inv a s bx by brick0 i st \<Longrightarrow>
         \<exists>st'. block_loop a s sh lc i st = Some st' \<and> block_inv a s bx by brick0 (max i lc) st'"
proof (induction "nat (lc - i)" arbitrary: i st)
  case 0
  then have "\<not> i < lc" by simp
  then have "block_loop a s sh lc i st = Some st" "max i lc = i"
    by (simp_all add: block_loop.simps)
  with "0.prems" show ?case by simp
next
  case (Suc n)
  then have l: "i < lc" by simp
  from block_iter_inv [OF af lf bf bx "by" sh Suc.prems] obtain st1
    where it: "block_iter a s sh st = Some st1" and inv1: "block_inv a s bx by brick0 (i + 1) st1"
    by blast
  have n: "n = nat (lc - (i + 1))" and i1: "0 \<le> i + 1"
    using Suc.hyps(2) Suc.prems(1) by simp_all
  from Suc.hyps(1) [OF n i1 inv1] obtain st'
    where lp: "block_loop a s sh lc (i + 1) st1 = Some st'"
      and inv': "block_inv a s bx by brick0 (max (i + 1) lc) st'"
    by blast
  have m: "max (i + 1) lc = max i lc"
    using l by simp
  have "block_loop a s sh lc i st = Some st'"
    by (subst block_loop.simps) (simp add: l it lp)
  with inv' show ?case
    unfolding m by blast
qed

lemma thread_offsets:
  assumes lf: "lists_fit a s" and bf: "brick_fits a npts_y"
    and bx: "0 \<le> bx" "bx < npts_x a" and "by": "0 \<le> by" "by < npts_y"
    and tx: "0 \<le> tx" "tx < 64"
  shows "mul24 tx (npts_yx a) + mul24 by (npts_x a) + bx = brick_at a bx by tx"
    and "tx < nlocal_z a \<Longrightarrow> mul24 (mul24 tx (nlocal_x a)) (nlocal_y a) = cell_offset a 0 0 tx"
proof -
  have yx: "npts_yx a = npts_y * npts_x a" and yxb: "npts_yx a < 2 ^ 23"
    using bf by (simp_all add: brick_fits_def)
  have x1: "1 \<le> npts_x a" and y1: "1 \<le> npts_y"
    using bx "by" by simp_all
  have "npts_y * 1 \<le> npts_y * npts_x a"
    using x1 y1 by (intro mult_left_mono) simp_all
  then have yb: "npts_y < 2 ^ 23"
    using yxb yx by simp
  have "1 * npts_x a \<le> npts_y * npts_x a"
    using x1 y1 by (intro mult_right_mono) simp_all
  then have xb: "npts_x a < 2 ^ 23"
    using yxb yx by simp
  have "by * npts_x a \<le> npts_y * npts_x a"
    using x1 "by" by (intro mult_right_mono) simp_all
  then have "by * npts_x a < 2 ^ 31"
    using yxb yx by simp
  then have m2: "mul24 by (npts_x a) = by * npts_x a"
    using "by" yb xb x1 by (intro mul24_small) simp_all
  have yx0: "0 \<le> npts_yx a"
    using x1 y1 by (simp add: yx)
  have "tx * npts_yx a \<le> 64 * npts_yx a"
    using tx yx0 by (intro mult_right_mono) simp_all
  then have "tx * npts_yx a < 2 ^ 31"
    using yxb by simp
  then have m1: "mul24 tx (npts_yx a) = tx * npts_yx a"
    using tx yx0 yxb by (intro mul24_small) simp_all
  show "mul24 tx (npts_yx a) + mul24 by (npts_x a) + bx = brick_at a bx by tx"
    by (simp add: m1 m2 brick_at_def)
  assume z: "tx < nlocal_z a"
  note d = lists_fit_dims [OF lf]
  have "in_cell_range a 0 0 tx"
    using d tx z by (simp add: in_cell_range_def)
  from cell_offset_range [OF this] d(7)
  have c: "0 \<le> tx * nlocal_y a * nlocal_x a" "tx * nlocal_y a * nlocal_x a < 2 ^ 23"
    by (simp_all add: cell_offset_def)
  have t0: "0 \<le> tx * nlocal_x a"
    using tx d by simp
  have "tx * nlocal_x a * 1 \<le> tx * nlocal_x a * nlocal_y a"
    using t0 d by (intro mult_left_mono) simp_all
  then have t1: "tx * nlocal_x a < 2 ^ 23"
    using c by (simp add: mult.assoc mult.left_commute mult.commute)
  have m3: "mul24 tx (nlocal_x a) = tx * nlocal_x a"
    using tx d t1 by (intro mul24_small) simp_all
  have "tx * nlocal_x a * nlocal_y a < 2 ^ 31"
    using c by (simp add: mult.assoc mult.left_commute mult.commute)
  then have m4: "mul24 (tx * nlocal_x a) (nlocal_y a) = tx * nlocal_x a * nlocal_y a"
    using t0 t1 d by (intro mul24_small) simp_all
  show "mul24 (mul24 tx (nlocal_x a)) (nlocal_y a) = cell_offset a 0 0 tx"
    by (simp add: m3 m4 cell_offset_def mult.assoc mult.left_commute mult.commute)
qed

lemma block_inv_init:
  assumes lf: "lists_fit a s" and bf: "brick_fits a npts_y" and af: "args_fit a"
    and bx: "0 \<le> bx" "bx < npts_x a" and "by": "0 \<le> by" "by < npts_y"
  shows "block_inv a s bx by b0 0
     \<lparr>t_nz = (\<lambda>tx. tx),
      t_pt = (\<lambda>tx. mul24 tx (npts_yx a) + mul24 by (npts_x a) + bx),
      t_z_local = (\<lambda>tx. mul24 (mul24 tx (nlocal_x a)) (nlocal_y a)),
      t_ans = A,
      front = fold (\<lambda>tx fr. if tx < order a then fr(BLOCK_1D + tx := 0) else fr) threads fr0,
      brick = b0\<rparr>"
proof -
  have B: "BLOCK_1D = 64"
    by (simp add: BLOCK_1D_def)
  have o64: "order a \<le> 64"
    using af by (simp add: args_fit_def B)
  have b: "- 1 \<le> BLOCK_1D - 1"
    by (simp add: B)
  note off = thread_offsets [OF lf bf bx "by"]
  have fr: "fold (\<lambda>tx fr. if tx < order a then fr(BLOCK_1D + tx := 0) else fr) threads fr0 t =
      (\<Sum>n\<in>{0..<order a}. if t - n \<le> BLOCK_1D - 1
          then plane_ans a s bx by (BLOCK_1D * (0 - 1) + t - n) n else 0)"
    if t: "BLOCK_1D \<le> t" "t < BLOCK_1D + order a" for t
  proof -
    have "(\<Sum>n\<in>{0..<order a}. if t - n \<le> BLOCK_1D - 1
          then plane_ans a s bx by (BLOCK_1D * (0 - 1) + t - n) n else 0) = (\<Sum>n\<in>{0..<order a}. 0)"
      by (intro sum.cong refl) (simp add: plane_ans_def B)
    moreover have "fold (\<lambda>tx fr. if tx < order a then fr(BLOCK_1D + tx := 0) else fr) threads fr0 t =
        (if BLOCK_1D \<le> t \<and> t \<le> BLOCK_1D + (BLOCK_1D - 1) \<and> t - BLOCK_1D < order a then 0 else fr0 t)"
      unfolding threads_def by (rule halo_init_fold [OF b])
    ultimately show ?thesis
      using t o64 by (simp add: B)
  qed
  show ?thesis
    unfolding block_inv_def
    using off fr by (simp add: B)
qed

lemma make_rho2_at:
  assumes af: "args_fit a" and lf: "lists_fit a s" and bf: "brick_fits a npts_y"
    and bx: "0 \<le> bx" "bx < npts_x a" and "by": "0 \<le> by" "by < npts_y"
    and npz: "0 \<le> npts_z a"
  shows "\<exists>f. make_rho2 a u (bx, by) s = Some (s\<lparr>d_brick := f\<rparr>) \<and>
           (\<forall>Z. 0 \<le> Z \<and> Z < npts_z a \<longrightarrow> f (brick_at a bx by Z) = column_value a s bx by Z) \<and>
           (\<forall>x. (\<forall>Z. 0 \<le> Z \<and> Z < npts_z a \<longrightarrow> x \<noteq> brick_at a bx by Z) \<longrightarrow> f x = d_brick s x)"
proof -
  have B: "BLOCK_1D = 64"
    by (simp add: BLOCK_1D_def)
  define rc where "rc = fold (\<lambda>tx rc. if tx < order2 a + order a
                                     then rc(tx := d_rho_coeff s tx) else rc)
                        threads (u_rho_coeff u)"
  define s' where "s' = s\<lparr>d_rho_coeff := rc\<rparr>"
  define sh where "sh = block_setup a (bx, by)"
  define st0 where "st0 =
     \<lparr>t_nz = (\<lambda>tx. tx),
      t_pt = (\<lambda>tx. mul24 tx (npts_yx a) + mul24 by (npts_x a) + bx),
      t_z_local = (\<lambda>tx. mul24 (mul24 tx (nlocal_x a)) (nlocal_y a)),
      t_ans = u_ans u,
      front = fold (\<lambda>tx fr. if tx < order a then fr(BLOCK_1D + tx := 0) else fr) threads
                (u_front u),
      brick = d_brick s\<rparr>"
  define lc where "lc = npts_z a sdiv BLOCK_1D + 1"
  have b: "- 1 \<le> BLOCK_1D - 1"
    by (simp add: B)
  have o: "order2 a + order a \<le> 64"
    using af by (simp add: args_fit_def B)
  have rc_at: "rc j = d_rho_coeff s j" if "0 \<le> j" "j < order2 a + order a" for j
    unfolding rc_def threads_def coeff_fold [OF b]
    using that o by (simp add: B)
  have lf': "lists_fit a s'"
    using lf by (simp add: s'_def)
  have inv0: "block_inv a s' bx by (d_brick s) 0 st0"
    unfolding st0_def by (rule block_inv_init [OF lf' bf af bx "by"])
  from block_loop_inv [OF af lf' bf bx "by" sh_def order.refl inv0, of lc] obtain st'
    where lp: "block_loop a s' sh lc 0 st0 = Some st'"
      and inv: "block_inv a s' bx by (d_brick s) (max 0 lc) st'"
    by blast
  have lcv: "lc = npts_z a div 64 + 1"
    using npz by (simp add: lc_def B sdiv_nonneg)
  have lc0: "0 \<le> npts_z a div 64"
    using npz by simp
  have m: "max 0 lc = lc"
    using lc0 by (simp add: lcv)
  have big: "npts_z a < 64 * lc"
    unfolding lcv by (simp add: algebra_simps)
  have e: "make_rho2 a u (bx, by) s = Some (s\<lparr>d_brick := brick st'\<rparr>)"
    unfolding make_rho2_def Let_def rc_def [symmetric] s'_def [symmetric] sh_def [symmetric]
      lc_def [symmetric]
    using lp by (simp add: st0_def sh_def block_setup_def Let_def)
  have col: "brick st' (brick_at a bx by Z) = column_value a s bx by Z"
    if Z: "0 \<le> Z" "Z < npts_z a" for Z
  proof -
    have "Z < BLOCK_1D * lc"
      using Z big by (simp add: B)
    with inv Z have "brick st' (brick_at a bx by Z) = column_value a s' bx by Z"
      unfolding block_inv_def m by blast
    moreover have "column_value a (s\<lparr>d_rho_coeff := rc\<rparr>) bx by Z = column_value a s bx by Z"
      by (rule column_value_cong [OF _ af bx(1) "by"(1)]) (rule rc_at)
    ultimately show ?thesis
      by (simp add: s'_def)
  qed
  have out: "brick st' x = d_brick s x"
    if "\<forall>Z. 0 \<le> Z \<and> Z < npts_z a \<longrightarrow> x \<noteq> brick_at a bx by Z" for x
    using inv that unfolding block_inv_def m by blast
  from e col out show ?thesis
    by blast
qed

section \<open>The grid as a sum over the atom lists\<close>

lemma make_rho2_pass_Cons:
  assumes "make_rho2 a u blk s = Some s'"
  shows "make_rho2_pass a u (blk # blks) s = make_rho2_pass a u blks s'"
  by (simp add: make_rho2_pass_def assms)

lemma make_rho2_pass_at:
  assumes af: "args_fit a" and bf: "brick_fits a npts_y" and npz: "0 \<le> npts_z a"
  shows "lists_fit a s \<Longrightarrow> distinct blks \<Longrightarrow>
         (\<forall>blk\<in>set blks. 0 \<le> fst blk \<and> fst blk < npts_x a \<and> 0 \<le> snd blk \<and> snd blk < npts_y) \<Longrightarrow>
         \<exists>f. make_rho2_pass a u blks s = Some (s\<lparr>d_brick := f\<rparr>) \<and>
           (\<forall>bx by Z. (bx, by) \<in> set blks \<and> 0 \<le> Z \<and> Z < npts_z a \<longrightarrow>
              f (brick_at a bx by Z) = column_value a s bx by Z) \<and>
           (\<forall>x. (\<forall>bx by Z. (bx, by) \<in> set blks \<and> 0 \<le> Z \<and> Z < npts_z a \<longrightarrow>
                    x \<noteq> brick_at a bx by Z) \<longrightarrow> f x = d_brick s x)"
proof (induction blks arbitrary: s)
  case Nil
  have "make_rho2_pass a u [] s = Some (s\<lparr>d_brick := d_brick s\<rparr>)"
    by (simp add: make_rho2_pass_def)
  then show ?case
    by (intro exI [of _ "d_brick s"]) simp
next
  case (Cons blk blks)
  obtain bx "by" where blk: "blk = (bx, by)"
    by (cases blk) auto
  have r: "0 \<le> bx" "bx < npts_x a" "0 \<le> by" "by < npts_y"
    using Cons.prems(3) by (simp_all add: blk)
  have yx: "npts_yx a = npts_y * npts_x a"
    using bf by (simp add: brick_fits_def)
  from make_rho2_at [OF af Cons.prems(1) bf r npz, of u] obtain f1
    where e1: "make_rho2 a u (bx, by) s = Some (s\<lparr>d_brick := f1\<rparr>)"
      and c1: "\<And>Z. 0 \<le> Z \<Longrightarrow> Z < npts_z a \<Longrightarrow> f1 (brick_at a bx by Z) = column_value a s bx by Z"
      and o1: "\<And>x. (\<forall>Z. 0 \<le> Z \<and> Z < npts_z a \<longrightarrow> x \<noteq> brick_at a bx by Z) \<Longrightarrow> f1 x = d_brick s x"
    by blast
  let ?s1 = "s\<lparr>d_brick := f1\<rparr>"
  have lf1: "lists_fit a ?s1"
    using Cons.prems(1) by simp
  have d: "distinct blks" and nin: "(bx, by) \<notin> set blks"
    using Cons.prems(2) by (simp_all add: blk)
  have rs: "\<forall>blk\<in>set blks. 0 \<le> fst blk \<and> fst blk < npts_x a \<and> 0 \<le> snd blk \<and> snd blk < npts_y"
    using Cons.prems(3) by simp
  from Cons.IH [OF lf1 d rs] obtain f
    where e: "make_rho2_pass a u blks ?s1 = Some (?s1\<lparr>d_brick := f\<rparr>)"
      and c: "\<And>bx by Z. (bx, by) \<in> set blks \<Longrightarrow> 0 \<le> Z \<Longrightarrow> Z < npts_z a \<Longrightarrow>
                f (brick_at a bx by Z) = column_value a ?s1 bx by Z"
      and o: "\<And>x. (\<forall>bx by Z. (bx, by) \<in> set blks \<and> 0 \<le> Z \<and> Z < npts_z a \<longrightarrow>
                    x \<noteq> brick_at a bx by Z) \<Longrightarrow> f x = d_brick ?s1 x"
    by blast
  have E: "make_rho2_pass a u (blk # blks) s = Some (s\<lparr>d_brick := f\<rparr>)"
    using make_rho2_pass_Cons [OF e1, of blks] by (simp add: blk e)
  have other: "brick_at a bx by Z \<noteq> brick_at a bx' by' Z'" if "(bx', by') \<in> set blks" for bx' by' Z Z'
  proof
    assume q: "brick_at a bx by Z = brick_at a bx' by' Z'"
    have r': "0 \<le> bx'" "bx' < npts_x a" "0 \<le> by'" "by' < npts_y"
      using rs that by auto
    from brick_at_inj [OF yx r(1,2) r'(1,2) r(3,4) r'(3,4) q] that nin show False
      by simp
  qed
  have C: "f (brick_at a bx' by' Z) = column_value a s bx' by' Z"
    if m: "(bx', by') \<in> set (blk # blks)" and Z: "0 \<le> Z" "Z < npts_z a" for bx' by' Z
  proof (cases "(bx', by') \<in> set blks")
    case True
    from c [OF True Z] show ?thesis
      by (simp add: column_value_brick)
  next
    case False
    then have q: "bx' = bx" "by' = by"
      using m by (simp_all add: blk)
    have "f (brick_at a bx by Z) = d_brick ?s1 (brick_at a bx by Z)"
      by (rule o) (use other in blast)
    then show ?thesis
      by (simp add: q c1 [OF Z])
  qed
  have O: "f x = d_brick s x"
    if x: "\<forall>bx by Z. (bx, by) \<in> set (blk # blks) \<and> 0 \<le> Z \<and> Z < npts_z a \<longrightarrow>
                    x \<noteq> brick_at a bx by Z" for x
  proof -
    have "f x = d_brick ?s1 x"
      by (rule o) (use x in auto)
    moreover have "f1 x = d_brick s x"
      by (rule o1) (use x in \<open>auto simp: blk\<close>)
    ultimately show ?thesis
      by simp
  qed
  from E C O show ?case
    by blast
qed

lemma sum_window:
  fixes G :: "int \<Rightarrow> numtyp"
  assumes "\<And>c. (0 \<le> c \<and> c < N \<and> P c) = (lo + (b - om) \<le> c \<and> c < hi + (b - om))"
  shows "(\<Sum>l\<in>{lo..<hi}. G (b + l - om)) = (\<Sum>c\<in>{0..<N}. if P c then G c else 0)"
proof -
  have "(\<Sum>c\<in>{0..<N}. if P c then G c else 0) = sum G {c \<in> {0..<N}. P c}"
    by (rule sum.inter_filter [symmetric]) simp
  also have "{c \<in> {0..<N}. P c} = {lo + (b - om)..<hi + (b - om)}"
  proof (rule set_eqI)
    fix c show "c \<in> {c \<in> {0..<N}. P c} \<longleftrightarrow> c \<in> {lo + (b - om)..<hi + (b - om)}"
      by (simp only: mem_Collect_eq atLeastLessThan_iff conj_assoc assms)
  qed
  also have "sum G {lo + (b - om)..<hi + (b - om)} = (\<Sum>l\<in>{lo..<hi}. G (b + l - om))"
    by (rule sum.reindex_bij_witness [where i = "\<lambda>l. b + l - om" and j = "\<lambda>c. c - (b - om)"])
      simp_all
  finally show ?thesis ..
qed

lemma sum_reflect:
  fixes F :: "int \<Rightarrow> numtyp"
  shows "(\<Sum>n\<in>{0..<ord}. if 0 \<le> Z - n \<and> Z - n < N then F (Z - n) else 0) =
           (\<Sum>c\<in>{0..<N}. if c \<le> Z \<and> Z < c + ord then F c else 0)"
proof -
  have "(\<Sum>n\<in>{0..<ord}. if 0 \<le> Z - n \<and> Z - n < N then F (Z - n) else 0) =
      (\<Sum>n\<in>{n \<in> {0..<ord}. 0 \<le> Z - n \<and> Z - n < N}. F (Z - n))"
    by (rule sum.inter_filter [symmetric]) simp
  also have "\<dots> = sum F {c \<in> {0..<N}. c \<le> Z \<and> Z < c + ord}"
    by (rule sum.reindex_bij_witness [where i = "\<lambda>c. Z - c" and j = "\<lambda>n. Z - n"])
      simp_all
  also have "\<dots> = (\<Sum>c\<in>{0..<N}. if c \<le> Z \<and> Z < c + ord then F c else 0)"
    by (rule sum.inter_filter) simp
  finally show ?thesis .
qed

lemma column_value_point:
  assumes af: "args_fit a" and X: "0 \<le> X" and Y: "0 \<le> Y"
  shows "column_value a s X Y Z = point_value a s X Y Z"
proof -
  let ?sh = "block_setup a (X, Y)"
  have wx: "(0 \<le> c \<and> c < nlocal_x a \<and> (c \<le> X \<and> X < c + order a)) =
      (x_start ?sh + (X - order_m_1 a) \<le> c \<and> c < x_stop ?sh + (X - order_m_1 a))" for c
    using af X by (auto simp: block_setup_def args_fit_def Let_def)
  have wy: "(0 \<le> c \<and> c < nlocal_y a \<and> (c \<le> Y \<and> Y < c + order a)) =
      (y_start ?sh + (Y - order_m_1 a) \<le> c \<and> c < y_stop ?sh + (Y - order_m_1 a))" for c
    using af Y by (auto simp: block_setup_def args_fit_def Let_def)
  have col: "col_dep a s X Y cz Z =
      (\<Sum>cy\<in>{0..<nlocal_y a}. if cy \<le> Y \<and> Y < cy + order a
         then \<Sum>cx\<in>{0..<nlocal_x a}. if cx \<le> X \<and> X < cx + order a
                then cell_dep a s cx cy cz X Y Z else 0
         else 0)" for cz
    unfolding col_dep_def
      sum_window [where G = "\<lambda>c. cell_dep a s c _ cz X Y Z" and P = "\<lambda>c. c \<le> X \<and> X < c + order a",
        OF wx]
    by (rule sum_window [where P = "\<lambda>c. c \<le> Y \<and> Y < c + order a", OF wy])
  have "column_value a s X Y Z =
      (\<Sum>n\<in>{0..<order a}. if 0 \<le> Z - n \<and> Z - n < nlocal_z a
         then col_dep a s X Y (Z - n) Z else 0)"
    by (simp add: column_value_def plane_ans_def cong: if_cong)
  also have "\<dots> = (\<Sum>cz\<in>{0..<nlocal_z a}. if cz \<le> Z \<and> Z < cz + order a
         then col_dep a s X Y cz Z else 0)"
    by (rule sum_reflect)
  also have "\<dots> = point_value a s X Y Z"
    unfolding point_value_def col
    by (intro sum.cong refl) (auto simp: covers_def intro!: sum.cong)
  finally show ?thesis .
qed

lemma item_point_contrib:
  "item_point a s (cx, cy, cz, z_pos, row) X Y Z =
     (if covers a cx cy cz X Y Z
      then contrib a s cx cy cz (d_brick_atoms s (mul24 (atom_stride a) row + z_pos)) X Y Z
      else 0)"
  by (simp add: item_point_def item_atom_def contrib_def)

lemma sum_list_upto:
  fixes f :: "int \<Rightarrow> numtyp"
  shows "(\<Sum>x\<leftarrow>[0..n - 1]. f x) = sum f {0..<n}"
proof -
  have "(\<Sum>x\<leftarrow>[0..n - 1]. f x) = sum f (set [0..n - 1])"
    by (rule sum_list_distinct_conv_sum_set) simp
  also have "set [0..n - 1] = {0..<n}"
    by auto
  finally show ?thesis .
qed

lemma sum_list_concat_map:
  fixes g :: "'b \<Rightarrow> numtyp"
  shows "(\<Sum>x\<leftarrow>concat (map f xs). g x) = (\<Sum>y\<leftarrow>xs. \<Sum>x\<leftarrow>f y. g x)"
  by (induction xs) simp_all

lemma mul24_stride_row:
  assumes "lists_fit a s" "in_cell_range a cx cy cz"
    and "0 \<le> row" "row < d_brick_counts s (cell_offset a cx cy cz)"
  shows "mul24 (atom_stride a) row = atom_stride a * row"
proof -
  note c = lists_fit_cell [OF assms(1,2)]
  note r = cell_offset_range [OF assms(2)]
  from r assms(1) have cnt: "d_brick_counts s (cell_offset a cx cy cz) < 2 ^ 23"
    "d_brick_counts s (cell_offset a cx cy cz) * atom_stride a < 2 ^ 31"
    unfolding lists_fit_def by blast+
  have st: "atom_stride a < 2 ^ 23"
    using assms(1) by (simp add: lists_fit_def)
  have "atom_stride a * row \<le> atom_stride a * d_brick_counts s (cell_offset a cx cy cz)"
    using assms(4) c(3) by (intro mult_left_mono) simp_all
  then have "atom_stride a * row < 2 ^ 31"
    using cnt(2) by (simp add: mult.commute)
  then show ?thesis
    using c(3) st assms(3,4) cnt(1) by (intro mul24_small) simp_all
qed

lemma all_items_sum:
  assumes lf: "lists_fit a s"
  shows "(\<Sum>it\<leftarrow>all_items a s. item_point a s it X Y Z) = point_value a s X Y Z"
proof -
  have "(\<Sum>it\<leftarrow>all_items a s. item_point a s it X Y Z) =
      (\<Sum>cz\<in>{0..<nlocal_z a}. \<Sum>cy\<in>{0..<nlocal_y a}. \<Sum>cx\<in>{0..<nlocal_x a}.
         \<Sum>row\<in>{0..<d_brick_counts s (cell_offset a cx cy cz)}.
           item_point a s (cx, cy, cz, cell_offset a cx cy cz, row) X Y Z)"
    by (simp add: all_items_def sum_list_concat_map comp_def sum_list_upto)
  also have "\<dots> = point_value a s X Y Z"
    unfolding point_value_def
  proof (intro sum.cong refl)
    fix cz cy cx
    assume "cz \<in> {0..<nlocal_z a}" "cy \<in> {0..<nlocal_y a}" "cx \<in> {0..<nlocal_x a}"
    then have r: "in_cell_range a cx cy cz"
      by (simp add: in_cell_range_def)
    have "(\<Sum>row\<in>{0..<d_brick_counts s (cell_offset a cx cy cz)}.
           item_point a s (cx, cy, cz, cell_offset a cx cy cz, row) X Y Z) =
        (\<Sum>row\<in>{0..<d_brick_counts s (cell_offset a cx cy cz)}.
           if covers a cx cy cz X Y Z
           then contrib a s cx cy cz
                  (d_brick_atoms s (atom_stride a * row + cell_offset a cx cy cz)) X Y Z
           else 0)"
      by (intro sum.cong refl) (simp add: item_point_contrib mul24_stride_row [OF lf r])
    then show "(\<Sum>row\<in>{0..<d_brick_counts s (cell_offset a cx cy cz)}.
           item_point a s (cx, cy, cz, cell_offset a cx cy cz, row) X Y Z) =
        (if covers a cx cy cz X Y Z then cell_dep a s cx cy cz X Y Z else 0)"
      by (simp add: cell_dep_def)
  qed
  finally show ?thesis .
qed

lemma sum_list_mset_cong:
  fixes g :: "'a \<Rightarrow> numtyp"
  assumes "mset xs = mset ys"
  shows "(\<Sum>x\<leftarrow>xs. g x) = (\<Sum>x\<leftarrow>ys. g x)"
proof -
  have "(\<Sum>x\<leftarrow>zs. g x) = sum_mset (image_mset g (mset zs))" for zs
    by (simp flip: sum_mset_sum_list)
  then show ?thesis
    by (simp add: assms)
qed

lemma make_rho_pass_point_value:
  assumes bf: "brick_fits a npts_y" and lf: "lists_fit a s" and tc: "table_copied a"
    and ws: "\<forall>g\<in>set ws. thread_ok a g" "mset (pass_items a s ws) = mset (all_items a s)"
    and pt: "0 \<le> X" "X < npts_x a" "0 \<le> Y" "Y < npts_y"
  shows "d_brick (make_rho_pass a ws s) (brick_at a X Y Z) =
           d_brick s (brick_at a X Y Z) + point_value a s X Y Z"
proof -
  have i: "items_in_range a (pass_items a s ws)"
    using ws(1) by (rule pass_items_in_range)
  have "d_brick (make_rho_pass a ws s) (brick_at a X Y Z) =
      d_brick s (brick_at a X Y Z) + (\<Sum>it\<leftarrow>pass_items a s ws. item_point a s it X Y Z)"
    unfolding make_rho_pass_items [OF tc]
    by (simp add: make_rho_items_point [OF bf i pt])
  also have "(\<Sum>it\<leftarrow>pass_items a s ws. item_point a s it X Y Z) =
      (\<Sum>it\<leftarrow>all_items a s. item_point a s it X Y Z)"
    by (rule sum_list_mset_cong [OF ws(2)])
  finally show ?thesis
    by (simp add: all_items_sum [OF lf])
qed

section \<open>The weights as polynomials of the coefficient table\<close>

lemma horner_sum:
  assumes "0 < ord"
  shows "horner c ord k d (k + int n * ord) r =
           (\<Sum>j\<le>n. c (k + int j * ord) * d ^ j) + r * d ^ Suc n"
proof (induction n arbitrary: r)
  case 0
  have "horner c ord k d k r = horner c ord k d (k - ord) (c k + r * d)"
    using assms by (subst horner.simps) simp
  also have "\<dots> = c k + r * d"
    using assms by (subst horner.simps) simp
  finally show ?case
    by simp
next
  case (Suc n)
  have le: "k \<le> k + int (Suc n) * ord"
    using assms by simp
  have "horner c ord k d (k + int (Suc n) * ord) r =
      horner c ord k d (k + int (Suc n) * ord - ord) (c (k + int (Suc n) * ord) + r * d)"
    using assms le by (subst horner.simps) simp
  also have "k + int (Suc n) * ord - ord = k + int n * ord"
    by (simp add: algebra_simps)
  finally have e: "horner c ord k d (k + int (Suc n) * ord) r =
      horner c ord k d (k + int n * ord) (c (k + int (Suc n) * ord) + r * d)" .
  show ?case
    unfolding e Suc.IH by (simp add: algebra_simps)
qed

lemma weight_poly:
  assumes "1 \<le> order a" "order2 a = (order a - 1) * order a"
  shows "weight a c k d = poly_weight a c k d"
proof -
  define n where "n = nat (order a - 1)"
  have n: "int n = order a - 1"
    using assms(1) by (simp add: n_def)
  have "weight a c k d = horner c (order a) k d (k + int n * order a) 0"
    by (simp add: weight_def assms(2) n add.commute)
  also have "\<dots> = (\<Sum>j\<le>n. c (k + int j * order a) * d ^ j)"
    using assms(1) by (subst horner_sum) simp_all
  also have "\<dots> = (\<Sum>j\<in>{0..<order a}. c (j * order a + k) * d ^ nat j)"
    by (rule sum.reindex_bij_witness [where i = nat and j = int])
       (use n in \<open>auto simp: add.commute\<close>)
  finally show ?thesis
    by (simp add: poly_weight_def)
qed

lemma unit_weights_of_partition:
  assumes "1 \<le> order a" "order2 a = (order a - 1) * order a" "partition_of_unity a c"
  shows "unit_weights a c"
  using assms(3) by (simp add: unit_weights_def partition_of_unity_def weight_poly [OF assms(1,2)])

section \<open>Sums over the workers of a launch\<close>

lemma div_less_mult:
  fixes i :: int
  assumes "0 < n" "i < m * n"
  shows "i div n < m"
proof -
  have "i div n * n + i mod n = i"
    by simp
  moreover have "0 \<le> i mod n"
    using assms(1) by simp
  ultimately have "i div n * n \<le> i"
    by linarith
  then have "i div n * n < m * n"
    using assms(2) by simp
  then show ?thesis
    using assms(1) by (simp add: mult_less_cancel_right)
qed

lemma sum_div_mod:
  fixes f :: "int \<Rightarrow> int \<Rightarrow> 'a::comm_monoid_add"
  assumes "0 < n" "0 \<le> m"
  shows "(\<Sum>i\<in>{0..<m * n}. f (i div n) (i mod n)) = (\<Sum>q\<in>{0..<m}. \<Sum>r\<in>{0..<n}. f q r)"
proof -
  have "(\<Sum>q\<in>{0..<m}. \<Sum>r\<in>{0..<n}. f q r) = (\<Sum>p\<in>{0..<m} \<times> {0..<n}. f (fst p) (snd p))"
    by (simp add: sum.cartesian_product case_prod_unfold)
  also have "\<dots> = (\<Sum>i\<in>{0..<m * n}. f (i div n) (i mod n))"
  proof (rule sum.reindex_bij_witness [where i = "\<lambda>i. (i div n, i mod n)"
        and j = "\<lambda>p. fst p * n + snd p"])
    fix i assume "i \<in> {0..<m * n}"
    then have i: "0 \<le> i" "i < m * n" by simp_all
    show "fst (i div n, i mod n) * n + snd (i div n, i mod n) = i"
      by simp
    have "i div n < m"
      using assms(1) i(2) by (rule div_less_mult)
    moreover have "0 \<le> i div n"
      using i assms by (simp add: pos_imp_zdiv_nonneg_iff)
    ultimately show "(i div n, i mod n) \<in> {0..<m} \<times> {0..<n}"
      using assms by simp
  next
    fix p assume "p \<in> {0..<m} \<times> {0..<n}"
    then have p: "0 \<le> fst p" "fst p < m" "0 \<le> snd p" "snd p < n"
      by auto
    have "fst p * n + snd p < fst p * n + n"
      using p by simp
    also have "\<dots> = (fst p + 1) * n"
      by (simp add: algebra_simps)
    also have "\<dots> \<le> m * n"
      using p assms by (intro mult_right_mono) simp_all
    finally have "fst p * n + snd p < m * n" .
    moreover have "0 \<le> fst p * n + snd p"
      using p assms by simp
    ultimately show "fst p * n + snd p \<in> {0..<m * n}"
      by simp
    show "((fst p * n + snd p) div n, (fst p * n + snd p) mod n) = p"
      using p by (simp add: prod_eq_iff)
    show "f ((fst p * n + snd p) div n) ((fst p * n + snd p) mod n) = f (fst p) (snd p)"
      using p by simp
  qed
  finally show ?thesis ..
qed

section \<open>A full launch reaches every entry of the atom lists\<close>

lemma smod_nonneg:
  assumes "0 \<le> k" "0 < l"
  shows "k smod l = k mod (l::int)"
proof (cases "k = 0")
  case True
  then show ?thesis by simp
next
  case False
  with assms have "sgn k = 1" "\<bar>k\<bar> = k" "\<bar>l\<bar> = l" by simp_all
  then show ?thesis by (simp add: signed_modulo_int_def)
qed

lemma sum_list_upto_monoid:
  fixes f :: "int \<Rightarrow> 'a::comm_monoid_add"
  shows "(\<Sum>x\<leftarrow>[l..u - 1]. f x) = sum f {l..<u}"
proof -
  have "(\<Sum>x\<leftarrow>[l..u - 1]. f x) = sum f (set [l..u - 1])"
    by (rule sum_list_distinct_conv_sum_set) simp
  also have "set [l..u - 1] = {l..<u}"
    by auto
  finally show ?thesis .
qed

lemma mset_concat_map: "mset (concat (map f xs)) = (\<Sum>x\<leftarrow>xs. mset (f x))"
  by (induction xs) simp_all

lemma mset_concat_upto:
  "mset (concat (map f [l..u - 1])) = (\<Sum>x\<in>{l..<u}. mset (f x))"
  by (simp add: mset_concat_map sum_list_upto_monoid)

text \<open>The rows of one cell, as work items.\<close>

lemma mset_all_items:
  "mset (all_items a s) =
     (\<Sum>cz\<in>{0..<nlocal_z a}. \<Sum>cy\<in>{0..<nlocal_y a}. \<Sum>cx\<in>{0..<nlocal_x a}.
        mset (map (\<lambda>row. (cx, cy, cz, cell_offset a cx cy cz, row))
                [0..d_brick_counts s (cell_offset a cx cy cz) - 1]))"
  unfolding all_items_def mset_concat_upto ..

lemma mset_thread_items:
  assumes lf: "lists_fit a s" and xt: "0 < x_threads a"
    and g: "0 \<le> gx" "0 \<le> gy" "gx div x_threads a < 2 ^ 23"
  shows "mset (thread_items a s (gx, gy)) =
           (if gx mod x_threads a < nlocal_x a \<and> gy < nlocal_y a
            then \<Sum>z\<in>{8 * (gx div x_threads a)..<min (8 * (gx div x_threads a) + 8) (nlocal_z a)}.
                   mset (map (\<lambda>row. (gx mod x_threads a, gy, z,
                                       cell_offset a (gx mod x_threads a) gy z, row))
                           [0..d_brick_counts s (cell_offset a (gx mod x_threads a) gy z) - 1])
            else {#})"
proof -
  define zb where "zb = gx div x_threads a"
  define nx where "nx = gx mod x_threads a"
  note d = lists_fit_dims [OF lf]
  have sd: "gx sdiv x_threads a = zb"
    unfolding zb_def using g(1) xt by (rule sdiv_nonneg)
  have sm: "gx smod x_threads a = nx"
    unfolding nx_def using g(1) xt by (rule smod_nonneg)
  have zb0: "0 \<le> zb"
    using g(1) xt by (simp add: zb_def pos_imp_zdiv_nonneg_iff)
  have m8: "mul24 zb 8 = 8 * zb"
    using zb0 g(3) mul24_small [of zb 8] by (simp add: zb_def)
  have xy: "mul24 (nlocal_x a) (nlocal_y a) = nlocal_x a * nlocal_y a"
    using d by (intro mul24_small) simp_all
  define ZP where "ZP = (\<lambda>z. mul24 (8 * zb) (nlocal_x a * nlocal_y a) + mul24 gy (nlocal_x a) + nx
      + (z - 8 * zb) * (nlocal_x a * nlocal_y a))"
  define zs where "zs = (if 8 * zb + 8 > nlocal_z a then nlocal_z a else 8 * zb + 8)"
  have stop: "zs = min (8 * zb + 8) (nlocal_z a)"
    by (simp add: zs_def min_def)
  have ti: "thread_items a s (gx, gy) =
      (if nx < nlocal_x a \<and> gy < nlocal_y a
       then concat (map (\<lambda>z. map (\<lambda>row. (nx, gy, z, ZP z, row)) [0..d_brick_counts s (ZP z) - 1])
                     [8 * zb..zs - 1])
       else [])"
    unfolding thread_items_def Let_def fst_conv snd_conv sd sm m8 xy ZP_def zs_def ..
  show ?thesis
  proof (cases "nx < nlocal_x a \<and> gy < nlocal_y a")
    case False
    have "thread_items a s (gx, gy) = []"
      unfolding ti by (simp only: False if_False)
    then show ?thesis
      unfolding nx_def [symmetric] zb_def [symmetric] by (simp only: False if_False mset.simps)
  next
    case True
    have my: "mul24 gy (nlocal_x a) = gy * nlocal_x a"
      using lf g(2) True by (intro mul24_row) simp_all
    have off: "ZP z = cell_offset a nx gy z"
      if "z \<in> {8 * zb..<min (8 * zb + 8) (nlocal_z a)}" for z
    proof -
      from that have z: "8 * zb \<le> z" "z < nlocal_z a"
        by simp_all
      have xy0: "0 \<le> nlocal_x a * nlocal_y a"
        using d by simp
      have "1 * 1 \<le> nlocal_x a * nlocal_y a"
        using d(1,2) by (intro mult_mono) simp_all
      then have xy1: "1 \<le> nlocal_x a * nlocal_y a"
        by simp
      have "8 * zb * (nlocal_x a * nlocal_y a) \<le> nlocal_z a * (nlocal_x a * nlocal_y a)"
        using z xy0 by (intro mult_right_mono) simp_all
      also have "\<dots> < 2 ^ 23"
        using d(7) by (simp add: mult.commute)
      finally have lt: "8 * zb * (nlocal_x a * nlocal_y a) < 2 ^ 23" .
      have "8 * zb * 1 \<le> 8 * zb * (nlocal_x a * nlocal_y a)"
        using zb0 xy1 by (intro mult_left_mono) simp_all
      with lt have "8 * zb < 2 ^ 23"
        by simp
      moreover from lt have "8 * zb * (nlocal_x a * nlocal_y a) < 2 ^ 31"
        by simp
      ultimately have "mul24 (8 * zb) (nlocal_x a * nlocal_y a) = 8 * zb * (nlocal_x a * nlocal_y a)"
        using zb0 xy0 d(6) by (intro mul24_small) simp_all
      then show ?thesis
        by (simp add: ZP_def my cell_offset_def algebra_simps)
    qed
    have "mset (thread_items a s (gx, gy)) =
        (\<Sum>z\<in>{8 * zb..<min (8 * zb + 8) (nlocal_z a)}.
           mset (map (\<lambda>row. (nx, gy, z, ZP z, row)) [0..d_brick_counts s (ZP z) - 1]))"
      unfolding ti stop by (simp only: True if_True simp_thms mset_concat_upto)
    also have "\<dots> = (\<Sum>z\<in>{8 * zb..<min (8 * zb + 8) (nlocal_z a)}.
           mset (map (\<lambda>row. (nx, gy, z, cell_offset a nx gy z, row))
                   [0..d_brick_counts s (cell_offset a nx gy z) - 1]))"
      by (intro sum.cong refl) (simp only: off)
    finally show ?thesis
      unfolding nx_def [symmetric] zb_def [symmetric] by (simp only: True if_True simp_thms)
  qed
qed

lemma sum_blocks_nat:
  fixes H :: "int \<Rightarrow> 'a::comm_monoid_add"
  assumes "0 \<le> N"
  shows "(\<Sum>q<n. \<Sum>z\<in>{8 * int q..<min (8 * int q + 8) N}. H z) =
           (\<Sum>z\<in>{0..<min (8 * int n) N}. H z)"
proof (induction n)
  case 0
  show ?case by simp
next
  case (Suc n)
  have "(\<Sum>z\<in>{0..<min (8 * int n) N}. H z) + (\<Sum>z\<in>{8 * int n..<min (8 * int n + 8) N}. H z) =
      (\<Sum>z\<in>{0..<min (8 * int (Suc n)) N}. H z)"
  proof (cases "8 * int n \<le> N")
    case True
    then have m: "min (8 * int n) N = 8 * int n"
      by simp
    have u: "{0..<8 * int n} \<union> {8 * int n..<min (8 * int n + 8) N} = {0..<min (8 * int n + 8) N}"
      using True by (intro ivl_disj_un_two(3)) simp_all
    have "sum H ({0..<8 * int n} \<union> {8 * int n..<min (8 * int n + 8) N}) =
        sum H {0..<8 * int n} + sum H {8 * int n..<min (8 * int n + 8) N}"
      by (rule sum.union_disjoint) auto
    then have "sum H {0..<8 * int n} + sum H {8 * int n..<min (8 * int n + 8) N} =
        sum H {0..<min (8 * int n + 8) N}"
      by (simp add: u)
    then show ?thesis
      unfolding m by (simp add: algebra_simps)
  next
    case False
    then have "min (8 * int n) N = N" "min (8 * int n + 8) N = N" "min (8 * int (Suc n)) N = N"
      "{8 * int n..<N} = {}"
      by simp_all
    then show ?thesis
      by simp
  qed
  then show ?case
    by (simp add: Suc.IH)
qed

lemma sum_blocks:
  fixes H :: "int \<Rightarrow> 'a::comm_monoid_add"
  assumes "0 \<le> N" "N \<le> 8 * m"
  shows "(\<Sum>q\<in>{0..<m}. \<Sum>z\<in>{8 * q..<min (8 * q + 8) N}. H z) = (\<Sum>z\<in>{0..<N}. H z)"
proof -
  have m: "0 \<le> m"
    using assms by simp
  have "(\<Sum>q\<in>{0..<m}. \<Sum>z\<in>{8 * q..<min (8 * q + 8) N}. H z) =
      (\<Sum>q<nat m. \<Sum>z\<in>{8 * int q..<min (8 * int q + 8) N}. H z)"
    by (rule sum.reindex_bij_witness [where i = int and j = nat]) (use m in auto)
  also have "\<dots> = (\<Sum>z\<in>{0..<min (8 * int (nat m)) N}. H z)"
    by (rule sum_blocks_nat [OF assms(1)])
  also have "min (8 * int (nat m)) N = N"
    using m assms(2) by simp
  finally show ?thesis .
qed

lemma sum_list_concat_pairs:
  fixes h :: "'b \<times> 'c \<Rightarrow> 'a::comm_monoid_add"
  shows "(\<Sum>g\<leftarrow>concat (map (\<lambda>y. map (\<lambda>x. (x, y)) xs) ys). h g) = (\<Sum>y\<leftarrow>ys. \<Sum>x\<leftarrow>xs. h (x, y))"
  by (induction ys) (simp_all add: comp_def)

lemma mset_launch_items:
  "mset (pass_items a s (launch gxn gyn)) =
     (\<Sum>gy\<in>{0..<gyn}. \<Sum>gx\<in>{0..<gxn}. mset (thread_items a s (gx, gy)))"
proof -
  have "mset (pass_items a s (launch gxn gyn)) =
      (\<Sum>g\<leftarrow>launch gxn gyn. mset (thread_items a s g))"
    by (simp add: pass_items_def mset_concat_map)
  also have "\<dots> = (\<Sum>gy\<leftarrow>[0..gyn - 1]. \<Sum>gx\<leftarrow>[0..gxn - 1]. mset (thread_items a s (gx, gy)))"
    unfolding launch_def by (rule sum_list_concat_pairs)
  finally show ?thesis
    by (simp add: sum_list_upto_monoid)
qed

lemma mset_pass_items_launch:
  assumes lf: "lists_fit a s" and fl: "full_launch a gxn gyn"
  shows "mset (pass_items a s (launch gxn gyn)) = mset (all_items a s)"
proof -
  define xt where "xt = x_threads a"
  define nzb where "nzb = gxn div xt"
  define R where "R = (\<lambda>cx cy cz.
      mset (map (\<lambda>row. (cx, cy, cz, cell_offset a cx cy cz, row))
              [0..d_brick_counts s (cell_offset a cx cy cz) - 1]))"
  define F where "F = (\<lambda>gy q r.
      if r < nlocal_x a \<and> gy < nlocal_y a
      then \<Sum>z\<in>{8 * q..<min (8 * q + 8) (nlocal_z a)}. R r gy z else {#})"
  note d = lists_fit_dims [OF lf]
  have xt: "0 < xt" and nx: "nlocal_x a \<le> xt" and ny: "nlocal_y a \<le> gyn"
    and nz: "nlocal_z a \<le> 8 * nzb" and gx: "gxn \<le> 2 ^ 23"
    using fl by (simp_all add: full_launch_def xt_def nzb_def)
  have nzb: "0 \<le> nzb"
    using nz d(3) by simp
  have le: "nzb * xt \<le> gxn"
  proof -
    have "gxn div xt * xt + gxn mod xt = gxn"
      by simp
    moreover have "0 \<le> gxn mod xt"
      using xt by simp
    ultimately show ?thesis
      unfolding nzb_def by linarith
  qed
  have T: "mset (thread_items a s (g, gy)) = F gy (g div xt) (g mod xt)"
    if "g \<in> {0..<gxn}" "gy \<in> {0..<gyn}" for g gy
  proof -
    from that have g: "0 \<le> g" "g < gxn" "0 \<le> gy"
      by simp_all
    have "g div xt \<le> g div 1"
      using g(1) xt by (intro zdiv_mono2) simp_all
    then have "g div xt \<le> g"
      by simp
    with g(2) gx have "g div x_threads a < 2 ^ 23"
      by (simp add: xt_def)
    from mset_thread_items [OF lf xt [unfolded xt_def] g(1,3) this] show ?thesis
      by (simp add: F_def R_def xt_def)
  qed
  have row: "(\<Sum>g\<in>{0..<gxn}. mset (thread_items a s (g, gy))) =
      (if gy < nlocal_y a
       then \<Sum>cx\<in>{0..<nlocal_x a}. \<Sum>cz\<in>{0..<nlocal_z a}. R cx gy cz else {#})"
    if gy: "gy \<in> {0..<gyn}" for gy
  proof -
    have "(\<Sum>g\<in>{0..<gxn}. mset (thread_items a s (g, gy))) =
        (\<Sum>g\<in>{0..<gxn}. F gy (g div xt) (g mod xt))"
      by (intro sum.cong refl T gy)
    also have "\<dots> = (\<Sum>g\<in>{0..<nzb * xt}. F gy (g div xt) (g mod xt))"
    proof (rule sum.mono_neutral_right)
      show "finite {0..<gxn}" by simp
      show "{0..<nzb * xt} \<subseteq> {0..<gxn}"
        using le by auto
      show "\<forall>g\<in>{0..<gxn} - {0..<nzb * xt}. F gy (g div xt) (g mod xt) = {#}"
      proof
        fix g assume "g \<in> {0..<gxn} - {0..<nzb * xt}"
        then have "nzb * xt \<le> g"
          by auto
        then have "nzb * xt div xt \<le> g div xt"
          using xt by (intro zdiv_mono1) simp_all
        then have "nzb \<le> g div xt"
          using xt by simp
        with nz have "nlocal_z a \<le> 8 * (g div xt)"
          by simp
        then show "F gy (g div xt) (g mod xt) = {#}"
          by (simp add: F_def)
      qed
    qed
    also have "\<dots> = (\<Sum>q\<in>{0..<nzb}. \<Sum>r\<in>{0..<xt}. F gy q r)"
      by (rule sum_div_mod [OF xt nzb])
    also have "\<dots> = (\<Sum>q\<in>{0..<nzb}. \<Sum>r\<in>{0..<nlocal_x a}. F gy q r)"
    proof -
      have "(\<Sum>r\<in>{0..<xt}. F gy q r) = (\<Sum>r\<in>{0..<nlocal_x a}. F gy q r)" for q
        using nx by (intro sum.mono_neutral_right) (auto simp: F_def)
      then show ?thesis
        by (simp only:)
    qed
    also have "\<dots> = (\<Sum>r\<in>{0..<nlocal_x a}. \<Sum>q\<in>{0..<nzb}. F gy q r)"
      by (rule sum.swap)
    also have "\<dots> = (if gy < nlocal_y a
       then \<Sum>cx\<in>{0..<nlocal_x a}. \<Sum>cz\<in>{0..<nlocal_z a}. R cx gy cz else {#})"
    proof (cases "gy < nlocal_y a")
      case True
      have in1: "(\<Sum>q\<in>{0..<nzb}. F gy q r) = (\<Sum>cz\<in>{0..<nlocal_z a}. R r gy cz)"
        if "r \<in> {0..<nlocal_x a}" for r
      proof -
        have "(\<Sum>q\<in>{0..<nzb}. F gy q r) =
            (\<Sum>q\<in>{0..<nzb}. \<Sum>z\<in>{8 * q..<min (8 * q + 8) (nlocal_z a)}. R r gy z)"
          using that True by (simp add: F_def)
        also have "\<dots> = (\<Sum>cz\<in>{0..<nlocal_z a}. R r gy cz)"
          using d(3) nz by (intro sum_blocks) simp_all
        finally show ?thesis .
      qed
      have "(\<Sum>r\<in>{0..<nlocal_x a}. \<Sum>q\<in>{0..<nzb}. F gy q r) =
          (\<Sum>cx\<in>{0..<nlocal_x a}. \<Sum>cz\<in>{0..<nlocal_z a}. R cx gy cz)"
        by (intro sum.cong refl in1)
      then show ?thesis
        by (simp only: True if_True)
    next
      case False
      then show ?thesis
        by (simp add: F_def)
    qed
    finally show ?thesis .
  qed
  have "mset (pass_items a s (launch gxn gyn)) =
      (\<Sum>gy\<in>{0..<gyn}. if gy < nlocal_y a
         then \<Sum>cx\<in>{0..<nlocal_x a}. \<Sum>cz\<in>{0..<nlocal_z a}. R cx gy cz else {#})"
    unfolding mset_launch_items by (intro sum.cong refl row)
  also have "\<dots> = (\<Sum>gy\<in>{0..<nlocal_y a}. \<Sum>cx\<in>{0..<nlocal_x a}. \<Sum>cz\<in>{0..<nlocal_z a}. R cx gy cz)"
  proof -
    have "(\<Sum>gy\<in>{0..<gyn}. if gy < nlocal_y a
         then \<Sum>cx\<in>{0..<nlocal_x a}. \<Sum>cz\<in>{0..<nlocal_z a}. R cx gy cz else {#}) =
        (\<Sum>gy\<in>{0..<nlocal_y a}. if gy < nlocal_y a
         then \<Sum>cx\<in>{0..<nlocal_x a}. \<Sum>cz\<in>{0..<nlocal_z a}. R cx gy cz else {#})"
      using ny by (intro sum.mono_neutral_right) auto
    also have "\<dots> = (\<Sum>gy\<in>{0..<nlocal_y a}. \<Sum>cx\<in>{0..<nlocal_x a}. \<Sum>cz\<in>{0..<nlocal_z a}. R cx gy cz)"
      by (intro sum.cong refl) simp
    finally show ?thesis .
  qed
  also have "\<dots> = (\<Sum>gy\<in>{0..<nlocal_y a}. \<Sum>cz\<in>{0..<nlocal_z a}. \<Sum>cx\<in>{0..<nlocal_x a}. R cx gy cz)"
    by (intro sum.cong refl sum.swap)
  also have "\<dots> = (\<Sum>cz\<in>{0..<nlocal_z a}. \<Sum>gy\<in>{0..<nlocal_y a}. \<Sum>cx\<in>{0..<nlocal_x a}. R cx gy cz)"
    by (rule sum.swap)
  also have "\<dots> = mset (all_items a s)"
    unfolding mset_all_items R_def ..
  finally show ?thesis .
qed

section \<open>The brick of a full pass over the atom lists\<close>



lemma launch_thread_ok:
  assumes "full_launch a gxn gyn" "g \<in> set (launch gxn gyn)"
  shows "thread_ok a g"
proof -
  have xt: "0 < x_threads a" and gx: "gxn \<le> 2 ^ 23"
    using assms(1) by (simp_all add: full_launch_def)
  have g: "0 \<le> fst g" "fst g < gxn" "0 \<le> snd g"
    using assms(2) by (auto simp: launch_def)
  have "fst g div x_threads a \<le> fst g div 1"
    using g(1) xt by (intro zdiv_mono2) simp_all
  then have "fst g sdiv x_threads a < 2 ^ 23"
    using g(1,2) gx xt by (simp add: sdiv_nonneg)
  with g xt show ?thesis
    by (simp add: thread_ok_def)
qed









lemma ex_launch: "launch 2 2 = [(0, 0), (1, 0), (0, 1), (1, 1)]"
  by code_simp



section \<open>Conservation of charge\<close>

lemma make_rho3_pass_perm_sum:
  assumes f: "brick_fits a npts_y" and u: "unit_weights a (d_rho_coeff s)"
    and tc: "table_copied3 a"
    and r: "1 \<le> skip a" "skip a dvd nthreads a" "nthreads a < 2 ^ 23"
      "nthreads a * skip a \<le> 2 ^ 31"
    and n: "0 \<le> nlocal a" "nlocal a \<le> nthreads a"
    and d: "\<forall>i. 0 \<le> i \<and> i < nlocal a \<longrightarrow> \<not> out_of_domain a (dev_x s i)"
    and ws: "mset ws = mset [0..nthreads a - 1]"
  shows "(\<Sum>x\<in>{0..<npts_yx a * npts_z a}. d_brick (make_rho3_pass a ws s) x) =
           (\<Sum>x\<in>{0..<npts_yx a * npts_z a}. d_brick s x) +
           (\<Sum>i\<in>{0..<nlocal a}. delvolinv a * dev_q s i)"
proof -
  let ?g = "\<lambda>w. if atom_of a w < nlocal a \<and> \<not> out_of_domain a (dev_x s (atom_of a w))
                 then delvolinv a * dev_q s (atom_of a w) else 0"
  have "(\<Sum>w\<leftarrow>ws. ?g w) = (\<Sum>w\<leftarrow>[0..nthreads a - 1]. ?g w)"
    by (rule sum_list_mset_cong [OF ws])
  then show ?thesis
    using make_rho3_pass_all_sum [OF f u tc r n d]
    unfolding make_rho3_pass_sum [OF f u tc] by simp
qed

lemma make_rho_pass_launch_sum:
  assumes bf: "brick_fits a npts_y" and u: "unit_weights a (d_rho_coeff s)"
    and tc: "table_copied a" and lf: "lists_fit a s" and fl: "full_launch a gxn gyn"
    and l: "listed a s" and ws: "mset ws = mset (launch gxn gyn)"
    and d: "\<forall>i. 0 \<le> i \<and> i < nlocal a \<longrightarrow> \<not> out_of_domain a (dev_x s i)"
  shows "(\<Sum>x\<in>{0..<npts_yx a * npts_z a}. d_brick (make_rho_pass a ws s) x) =
           (\<Sum>x\<in>{0..<npts_yx a * npts_z a}. d_brick s x) +
           (\<Sum>i\<in>{0..<nlocal a}. delvolinv a * dev_q s i)"
proof -
  have "set ws = set (launch gxn gyn)"
    using ws by (rule mset_eq_setD)
  then have ok: "\<forall>g\<in>set ws. thread_ok a g"
    using launch_thread_ok [OF fl] by simp
  have i: "items_in_range a (pass_items a s ws)"
    using ok by (rule pass_items_in_range)
  have m: "mset (pass_items a s ws) = mset (all_items a s)"
    using mset_pass_items [OF ws] mset_pass_items_launch [OF lf fl] by simp
  have all: "filter (\<lambda>i. \<not> out_of_domain a (dev_x s i)) [0..nlocal a - 1] = [0..nlocal a - 1]"
    using d by (intro filter_True) auto
  have "(\<Sum>it\<leftarrow>pass_items a s ws. delvolinv a * dev_q s (item_atom a s it)) =
      (\<Sum>it\<leftarrow>all_items a s. delvolinv a * dev_q s (item_atom a s it))"
    by (rule sum_list_mset_cong [OF m])
  also have "\<dots> = (\<Sum>e\<leftarrow>listing a s. delvolinv a * dev_q s (snd (snd (snd e))))"
    by (simp add: listing_def comp_def case_prod_unfold)
  also have "\<dots> = (\<Sum>e\<leftarrow>map (entry_of a s) [0..nlocal a - 1].
      delvolinv a * dev_q s (snd (snd (snd e))))"
    using l [unfolded listed_def all] by (rule sum_list_mset_cong)
  also have "\<dots> = (\<Sum>i\<leftarrow>[0..nlocal a - 1]. delvolinv a * dev_q s i)"
    by (simp add: comp_def entry_of_def)
  also have "\<dots> = (\<Sum>i\<in>{0..<nlocal a}. delvolinv a * dev_q s i)"
    by (rule sum_list_upto)
  finally show ?thesis
    unfolding make_rho_pass_items [OF tc]
    by (simp add: make_rho_items_sum [OF bf i u])
qed

text \<open>
  Claim C8 fails as stated in two ways. With four threads and stride 3 the workers of
  strategy 3 take the particles 0, 3, 3, 3: of two in-domain particles of charge 1 the
  second is handled by no worker, and the brick sums to 1 and not to 2. Strategy 1 spreads
  the atom lists and not the particles: after a mapping pass that has refused the second
  particle because its cell was full (capacity 1, error code 2), the lists hold the first
  particle only and the brick sums to 1 again.
\<close>

theorem unhandled_or_unlisted_charge_is_lost:
  "table_copied3 (ex_args\<lparr>nlocal := 2, skip := 3\<rparr>) \<and>
   map (\<lambda>i. out_of_domain (ex_args\<lparr>nlocal := 2, skip := 3\<rparr>) (dev_x ex_dev i)) [0, 1] = [False, False] \<and>
   map (atom_of (ex_args\<lparr>nlocal := 2, skip := 3\<rparr>)) [0, 1, 2, 3] = [0, 3, 3, 3] \<and>
   (\<Sum>x\<leftarrow>[0..npts_yx ex_args * npts_z ex_args - 1].
      d_brick (make_rho3_pass (ex_args\<lparr>nlocal := 2, skip := 3\<rparr>) [0, 1, 2, 3] ex_dev) x) = 1 \<and>
   (\<Sum>i\<leftarrow>[0, 1]. dev_q ex_dev i / 1) = 2 \<and>
   delvolinv ex_args = 1 / 1 \<and>
   d_error_flag (particle_map_pass (ex_args\<lparr>nlocal := 2\<rparr>) [0, 1, 2, 3] ex_dev) = 2 \<and>
   listing (ex_args\<lparr>nlocal := 2\<rparr>) (particle_map_pass (ex_args\<lparr>nlocal := 2\<rparr>) [0, 1, 2, 3] ex_dev) =
     [(0, 0, 0, 0)] \<and>
   (\<Sum>x\<leftarrow>[0..npts_yx ex_args * npts_z ex_args - 1].
      d_brick (make_rho_pass (ex_args\<lparr>nlocal := 2\<rparr>) (launch 2 2)
        (particle_map_pass (ex_args\<lparr>nlocal := 2\<rparr>) [0, 1, 2, 3] ex_dev)) x) = 1"
  by code_simp

text \<open>
  Claim C8, amended. Let all particles below \<open>nlocal\<close> lie in the local domain, let the
  weights of the coefficient table sum to one at every distance (\<open>partition_of_unity\<close>,
  the property of a charge-assignment function) and let \<open>delvolinv\<close> be the inverse of the
  cell volume. A pass of strategy 3 over all workers, in any order, whose stride permutes
  the workers (it divides the number of threads, and \<^verbatim>\<open>__mul24\<close> is exact) and whose blocks
  hold a worker for each coefficient, adds \<open>\<Sum> q\<^sub>i / cellVolume\<close> to the sum of the
  brick. A full pass of strategy 1, in any order, does the same when the atom lists hold
  every particle exactly once, in its cell, and every block holds \<open>order\<close> workers per
  axis.
\<close>

theorem spreading_conserves_charge:
  assumes "brick_fits a npts_y" "partition_of_unity a (d_rho_coeff s)"
    and "order2 a = (order a - 1) * order a"
    and "delvolinv a = 1 / cellVolume"
    and "\<forall>i. 0 \<le> i \<and> i < nlocal a \<longrightarrow> \<not> out_of_domain a (dev_x s i)"
  shows "(table_copied3 a \<and> 1 \<le> skip a \<and> skip a dvd nthreads a \<and> nthreads a < 2 ^ 23 \<and>
          nthreads a * skip a \<le> 2 ^ 31 \<and> 0 \<le> nlocal a \<and> nlocal a \<le> nthreads a \<and>
          mset ws3 = mset [0..nthreads a - 1] \<longrightarrow>
            (\<Sum>x\<in>{0..<npts_yx a * npts_z a}. d_brick (make_rho3_pass a ws3 s) x) =
            (\<Sum>x\<in>{0..<npts_yx a * npts_z a}. d_brick s x) +
            (\<Sum>i\<in>{0..<nlocal a}. dev_q s i / cellVolume)) \<and>
         (table_copied a \<and> lists_fit a s \<and> listed a s \<and> full_launch a gxn gyn \<and>
          mset ws = mset (launch gxn gyn) \<longrightarrow>
            (\<Sum>x\<in>{0..<npts_yx a * npts_z a}. d_brick (make_rho_pass a ws s) x) =
            (\<Sum>x\<in>{0..<npts_yx a * npts_z a}. d_brick s x) +
            (\<Sum>i\<in>{0..<nlocal a}. dev_q s i / cellVolume))"
proof (intro conjI impI)
  have o: "1 \<le> order a"
    using assms(1) by (simp add: brick_fits_def)
  have u: "unit_weights a (d_rho_coeff s)"
    by (rule unit_weights_of_partition [OF o assms(3,2)])
  {
    assume h: "table_copied3 a \<and> 1 \<le> skip a \<and> skip a dvd nthreads a \<and> nthreads a < 2 ^ 23 \<and>
          nthreads a * skip a \<le> 2 ^ 31 \<and> 0 \<le> nlocal a \<and> nlocal a \<le> nthreads a \<and>
          mset ws3 = mset [0..nthreads a - 1]"
    then have tc: "table_copied3 a"
      and r: "1 \<le> skip a" "skip a dvd nthreads a" "nthreads a < 2 ^ 23"
        "nthreads a * skip a \<le> 2 ^ 31"
      and n: "0 \<le> nlocal a" "nlocal a \<le> nthreads a"
      and w: "mset ws3 = mset [0..nthreads a - 1]"
      by blast+
    show "(\<Sum>x\<in>{0..<npts_yx a * npts_z a}. d_brick (make_rho3_pass a ws3 s) x) =
            (\<Sum>x\<in>{0..<npts_yx a * npts_z a}. d_brick s x) +
            (\<Sum>i\<in>{0..<nlocal a}. dev_q s i / cellVolume)"
      unfolding make_rho3_pass_perm_sum [OF assms(1) u tc r n assms(5) w]
      by (simp add: assms(4))
  }
  assume h: "table_copied a \<and> lists_fit a s \<and> listed a s \<and> full_launch a gxn gyn \<and>
          mset ws = mset (launch gxn gyn)"
  then have tc: "table_copied a" and lf: "lists_fit a s" and l: "listed a s"
    and fl: "full_launch a gxn gyn" and w: "mset ws = mset (launch gxn gyn)"
    by blast+
  show "(\<Sum>x\<in>{0..<npts_yx a * npts_z a}. d_brick (make_rho_pass a ws s) x) =
            (\<Sum>x\<in>{0..<npts_yx a * npts_z a}. d_brick s x) +
            (\<Sum>i\<in>{0..<nlocal a}. dev_q s i / cellVolume)"
    unfolding make_rho_pass_launch_sum [OF assms(1) u tc lf fl l w assms(5)]
    by (simp add: assms(4))
qed

lemma ex_poly_weight:
  "poly_weight ex_args ex_coeff 0 d = 1 / 2 - d" "poly_weight ex_args ex_coeff 1 d = 1 / 2 + d"
proof -
  have "{0..<order ex_args} = {0, 1}"
    by (auto simp: ex_args_def)
  then show "poly_weight ex_args ex_coeff 0 d = 1 / 2 - d"
    "poly_weight ex_args ex_coeff 1 d = 1 / 2 + d"
    by (simp_all add: poly_weight_def ex_coeff_def) (simp_all add: ex_args_def)
qed

lemma ex_partition_of_unity: "partition_of_unity ex_args ex_coeff"
proof -
  have "{0..<order ex_args} = {0, 1}"
    by (auto simp: ex_args_def)
  then show ?thesis
    by (simp add: partition_of_unity_def ex_poly_weight)
qed

theorem spreading_conserves_charge_witness:
  "(\<Sum>x\<in>{0..<npts_yx (ex_args\<lparr>nlocal := 2\<rparr>) * npts_z (ex_args\<lparr>nlocal := 2\<rparr>)}.
      d_brick (make_rho3_pass (ex_args\<lparr>nlocal := 2\<rparr>) [3, 1, 0, 2] ex_pair) x) =
   (\<Sum>x\<in>{0..<npts_yx (ex_args\<lparr>nlocal := 2\<rparr>) * npts_z (ex_args\<lparr>nlocal := 2\<rparr>)}.
      d_brick ex_pair x) +
   (\<Sum>i\<in>{0..<nlocal (ex_args\<lparr>nlocal := 2\<rparr>)}. dev_q ex_pair i / 1) \<and>
   (\<Sum>x\<in>{0..<npts_yx (ex_args\<lparr>nlocal := 2\<rparr>) * npts_z (ex_args\<lparr>nlocal := 2\<rparr>)}.
      d_brick (make_rho_pass (ex_args\<lparr>nlocal := 2\<rparr>) [(1, 1), (0, 0), (1, 0), (0, 1)] ex_pair) x) =
   (\<Sum>x\<in>{0..<npts_yx (ex_args\<lparr>nlocal := 2\<rparr>) * npts_z (ex_args\<lparr>nlocal := 2\<rparr>)}.
      d_brick ex_pair x) +
   (\<Sum>i\<in>{0..<nlocal (ex_args\<lparr>nlocal := 2\<rparr>)}. dev_q ex_pair i / 1)"
proof -
  let ?A = "ex_args\<lparr>nlocal := 2\<rparr>"
  have f: "brick_fits ?A 3"
    by (simp add: brick_fits_def ex_args_def)
  have "partition_of_unity ?A ex_coeff = partition_of_unity ex_args ex_coeff"
    by (simp add: partition_of_unity_def poly_weight_def)
  then have u: "partition_of_unity ?A (d_rho_coeff ex_pair)"
    using ex_partition_of_unity by (simp add: ex_pair_def ex_dev_def)
  have o: "order2 ?A = (order ?A - 1) * order ?A"
    by (simp add: ex_args_def)
  have v: "delvolinv ?A = 1 / 1"
    by (simp add: ex_args_def)
  have d: "\<not> out_of_domain ?A (dev_x ex_pair i)" if "0 \<le> i \<and> i < nlocal ?A" for i
  proof -
    from that have "i = 0 \<or> i = 1" by auto
    moreover have "\<not> out_of_domain ?A (dev_x ex_pair 0)" "\<not> out_of_domain ?A (dev_x ex_pair 1)"
      by code_simp+
    ultimately show ?thesis by auto
  qed
  then have d': "\<forall>i. 0 \<le> i \<and> i < nlocal ?A \<longrightarrow> \<not> out_of_domain ?A (dev_x ex_pair i)"
    by blast
  have w3: "mset [3, 1, 0, 2] = mset [0..nthreads ?A - 1]"
  proof -
    have "[0..nthreads ?A - 1] = [0, 1, 2, 3]"
      by code_simp
    then show ?thesis by simp
  qed
  have h3: "table_copied3 ?A \<and> 1 \<le> skip ?A \<and> skip ?A dvd nthreads ?A \<and> nthreads ?A < 2 ^ 23 \<and>
      nthreads ?A * skip ?A \<le> 2 ^ 31 \<and> 0 \<le> nlocal ?A \<and> nlocal ?A \<le> nthreads ?A \<and>
      mset [3, 1, 0, 2] = mset [0..nthreads ?A - 1]"
    using w3 by (simp add: table_copied3_def) (simp add: ex_args_def)
  have l: "listed ?A ex_pair"
  proof -
    have "listing ?A ex_pair = [(0, 0, 0, 0), (0, 0, 0, 1)]"
      by code_simp
    moreover have "map (entry_of ?A ex_pair)
        (filter (\<lambda>i. \<not> out_of_domain ?A (dev_x ex_pair i)) [0..nlocal ?A - 1]) =
        [(0, 0, 0, 0), (0, 0, 0, 1)]"
      by code_simp
    ultimately show ?thesis
      by (simp add: listed_def)
  qed
  have w: "mset [(1, 1), (0, 0), (1, 0), (0, 1)] = mset (launch 2 2)"
    unfolding ex_launch by simp
  have h1: "table_copied ?A \<and> lists_fit ?A ex_pair \<and> listed ?A ex_pair \<and> full_launch ?A 2 2 \<and>
      mset [(1, 1), (0, 0), (1, 0), (0, 1)] = mset (launch 2 2)"
    using l w
    by (simp add: table_copied_def MAX_STENCIL_def lists_fit_def full_launch_def)
       (simp add: ex_args_def ex_pair_def ex_dev_def)
  from spreading_conserves_charge [OF f u o v d', of "[3, 1, 0, 2]" 2 2
      "[(1, 1), (0, 0), (1, 0), (0, 1)]"] h3 h1
  show ?thesis
    by blast
qed

section \<open>The three strategies compared\<close>

lemma make_rho3_point_table:
  assumes "brick_fits a npts_y" "0 \<le> X" "X < npts_x a" "0 \<le> Y" "Y < npts_y"
    and "atom_of a gid < nlocal a" "\<not> out_of_domain a (dev_x s (atom_of a gid))"
    and "p = dev_x s (atom_of a gid)"
    and "nx = int_cast (frac_x a p)" "ny = int_cast (frac_y a p)" "nz = int_cast (frac_z a p)"
    and tc: "table_copied3 a"
  shows "d_brick (make_rho3 a gid s) (brick_at a X Y Z) =
           d_brick s (brick_at a X Y Z) +
           (if covers a nx ny nz X Y Z then
              delvolinv a * dev_q s (atom_of a gid)
                * weight a (d_rho_coeff s) (Z - nz) (of_int nz + 1 / 2 - frac_z a p)
                * weight a (d_rho_coeff s) (Y - ny) (of_int ny + 1 / 2 - frac_y a p)
                * weight a (d_rho_coeff s) (X - nx) (of_int nx + 1 / 2 - frac_x a p)
            else 0)"
proof (cases "covers a nx ny nz X Y Z")
  case True
  then have k: "0 \<le> X - nx" "X - nx < order a" "0 \<le> Y - ny" "Y - ny < order a"
    "0 \<le> Z - nz" "Z - nz < order a"
    by (simp_all add: covers_def)
  show ?thesis
    unfolding make_rho3_point [OF assms(1-11)]
    by (simp add: True weight_rho_coeff3 [OF tc k(1,2)] weight_rho_coeff3 [OF tc k(3,4)]
        weight_rho_coeff3 [OF tc k(5,6)])
next
  case False
  then show ?thesis
    unfolding make_rho3_point [OF assms(1-11)] by simp
qed

lemma make_rho3_at:
  assumes bf: "brick_fits a npts_y" and pt: "0 \<le> X" "X < npts_x a" "0 \<le> Y" "Y < npts_y"
    and tc: "table_copied3 a"
  shows "d_brick (make_rho3 a gid s) (brick_at a X Y Z) =
           d_brick s (brick_at a X Y Z) +
           (if atom_of a gid < nlocal a \<and> \<not> out_of_domain a (dev_x s (atom_of a gid))
            then particle_point a s (atom_of a gid) X Y Z else 0)"
proof (cases "atom_of a gid < nlocal a \<and> \<not> out_of_domain a (dev_x s (atom_of a gid))")
  case True
  then have l: "atom_of a gid < nlocal a" and d: "\<not> out_of_domain a (dev_x s (atom_of a gid))"
    by simp_all
  show ?thesis
    unfolding make_rho3_point_table [OF bf pt l d refl refl refl refl tc]
    using True by (simp add: particle_point_def Let_def mult_ac)
next
  case False
  show ?thesis
    unfolding make_rho3_brick_idle [OF False] if_not_P [OF False] by simp
qed

lemma particle_point_make_rho3 [simp]:
  "particle_point a (make_rho3 a w s) = particle_point a s"
  by (simp add: particle_point_def fun_eq_iff Let_def cong: if_cong)

lemma make_rho3_pass_at:
  assumes bf: "brick_fits a npts_y" and pt: "0 \<le> X" "X < npts_x a" "0 \<le> Y" "Y < npts_y"
    and tc: "table_copied3 a"
  shows "d_brick (make_rho3_pass a ws s) (brick_at a X Y Z) =
           d_brick s (brick_at a X Y Z) +
           (\<Sum>w\<leftarrow>ws. if atom_of a w < nlocal a \<and> \<not> out_of_domain a (dev_x s (atom_of a w))
                    then particle_point a s (atom_of a w) X Y Z else 0)"
proof (induction ws arbitrary: s)
  case Nil
  show ?case by (simp add: make_rho3_pass_def)
next
  case (Cons w ws)
  show ?case
    unfolding make_rho3_pass_Cons Cons.IH make_rho3_at [OF bf pt tc]
    by (simp cong: if_cong)
qed

lemma make_rho3_pass_all_at:
  assumes bf: "brick_fits a npts_y" and pt: "0 \<le> X" "X < npts_x a" "0 \<le> Y" "Y < npts_y"
    and tc: "table_copied3 a"
    and r: "1 \<le> skip a" "skip a dvd nthreads a" "nthreads a < 2 ^ 23"
      "nthreads a * skip a \<le> 2 ^ 31"
    and n: "nlocal a \<le> nthreads a"
  shows "d_brick (make_rho3_pass a [0..nthreads a - 1] s) (brick_at a X Y Z) =
           d_brick s (brick_at a X Y Z) +
           (\<Sum>i\<leftarrow>filter (\<lambda>i. \<not> out_of_domain a (dev_x s i)) [0..nlocal a - 1].
              particle_point a s i X Y Z)"
proof -
  let ?g = "\<lambda>i. if i < nlocal a \<and> \<not> out_of_domain a (dev_x s i)
                 then particle_point a s i X Y Z else 0"
  have "(\<Sum>w\<leftarrow>[0..nthreads a - 1]. ?g (atom_of a w)) = (\<Sum>i\<in>{0..<nthreads a}. ?g i)"
    using r by (rule sum_list_resequence)
  also have "\<dots> = (\<Sum>i\<in>{0..<nlocal a}. ?g i)"
    using n by (intro sum.mono_neutral_right) auto
  also have "\<dots> = (\<Sum>i\<in>{0..<nlocal a}. if \<not> out_of_domain a (dev_x s i)
                                        then particle_point a s i X Y Z else 0)"
    by (intro sum.cong refl) simp
  also have "\<dots> = (\<Sum>i\<leftarrow>filter (\<lambda>i. \<not> out_of_domain a (dev_x s i)) [0..nlocal a - 1].
              particle_point a s i X Y Z)"
    by (simp add: sum_list_map_filter' sum_list_upto)
  finally show ?thesis
    unfolding make_rho3_pass_at [OF bf pt tc] by simp
qed

lemma launch_distinct: "distinct (launch nx ny)"
proof (cases "0 < nx")
  case True
  show ?thesis
    unfolding launch_def
    by (rule distinct_concat) (use True in \<open>auto simp: distinct_map inj_on_def\<close>)
next
  case False
  then have "[0..nx - 1] = []"
    by simp
  then have "launch nx ny = []"
    by (simp add: launch_def)
  then show ?thesis
    by simp
qed

lemma launch_set: "set (launch nx ny) = {0..<nx} \<times> {0..<ny}"
  by (auto simp: launch_def)

lemma make_rho_and_make_rho2_agree:
  assumes bf: "brick_fits a npts_y" and af: "args_fit a" and tc: "table_copied a"
    and lf: "lists_fit a s" and npz: "0 \<le> npts_z a"
    and zero: "\<forall>x. d_brick s x = 0"
    and fl: "full_launch a gxn gyn" and ws: "mset ws = mset (launch gxn gyn)"
    and blks: "mset blks = mset (launch (npts_x a) npts_y)"
    and pt: "0 \<le> X" "X < npts_x a" "0 \<le> Y" "Y < npts_y" "0 \<le> Z" "Z < npts_z a"
  shows "d_brick (make_rho_pass a ws s) (brick_at a X Y Z) = point_value a s X Y Z \<and>
         (\<exists>s2. make_rho2_pass a u blks s = Some s2 \<and>
                d_brick s2 (brick_at a X Y Z) = point_value a s X Y Z)"
proof (intro conjI)
  have "set ws = set (launch gxn gyn)"
    using ws by (rule mset_eq_setD)
  then have ok: "\<forall>g\<in>set ws. thread_ok a g"
    using launch_thread_ok [OF fl] by simp
  have m: "mset (pass_items a s ws) = mset (all_items a s)"
    using mset_pass_items [OF ws] mset_pass_items_launch [OF lf fl] by simp
  show "d_brick (make_rho_pass a ws s) (brick_at a X Y Z) = point_value a s X Y Z"
    unfolding make_rho_pass_point_value [OF bf lf tc ok m pt(1-4)]
    using zero by simp
  have db: "distinct blks"
    using blks launch_distinct [of "npts_x a" npts_y] by (metis mset_eq_imp_distinct_iff)
  have sb: "set blks = {0..<npts_x a} \<times> {0..<npts_y}"
    using mset_eq_setD [OF blks] by (simp add: launch_set)
  have rng: "\<forall>blk\<in>set blks. 0 \<le> fst blk \<and> fst blk < npts_x a \<and> 0 \<le> snd blk \<and> snd blk < npts_y"
    unfolding sb by auto
  from make_rho2_pass_at [OF af bf npz lf db rng, of u] obtain f
    where e: "make_rho2_pass a u blks s = Some (s\<lparr>d_brick := f\<rparr>)"
      and c: "\<And>bx by Z. (bx, by) \<in> set blks \<Longrightarrow> 0 \<le> Z \<Longrightarrow> Z < npts_z a \<Longrightarrow>
                f (brick_at a bx by Z) = column_value a s bx by Z"
    by blast
  have mem: "(X, Y) \<in> set blks"
    unfolding sb using pt by simp
  have "d_brick (s\<lparr>d_brick := f\<rparr>) (brick_at a X Y Z) = point_value a s X Y Z"
    using c [OF mem pt(5,6)] by (simp add: column_value_point [OF af pt(1,3)])
  with e show "\<exists>s2. make_rho2_pass a u blks s = Some s2 \<and>
                d_brick s2 (brick_at a X Y Z) = point_value a s X Y Z"
    by blast
qed

text \<open>
  Claim C2. The strategies 1 and 2 evaluate the weights at the distance
  \<open>dx = nx - tx\<close> of the particle from the corner of its cell (lines 204-206 and 308-310),
  strategy 3 at \<open>dx = nx + 0.5 - tx\<close>, the distance from the centre of the cell (lines
  395-397). In the small configuration the mapper, with a capacity of two, lists the two
  particles of cell 0 without error; on these lists the full passes of the strategies 1
  and 2 leave \<open>91/64\<close> at the first point of a zero brick, and the full pass of strategy
  3 leaves \<open>9/64\<close>.
\<close>

theorem make_rho3_deviates_from_make_rho_and_make_rho2:
  "d_error_flag (particle_map_pass (ex_args\<lparr>nlocal := 2, max_atoms := 2\<rparr>) [0, 1, 2, 3] ex_dev) = 0 \<and>
   map (d_brick_counts (particle_map_pass (ex_args\<lparr>nlocal := 2, max_atoms := 2\<rparr>) [0, 1, 2, 3] ex_dev))
       [0, 1, 2, 3, 4, 5, 6, 7] = map (d_brick_counts ex_pair) [0, 1, 2, 3, 4, 5, 6, 7] \<and>
   map (d_brick_atoms (particle_map_pass (ex_args\<lparr>nlocal := 2, max_atoms := 2\<rparr>) [0, 1, 2, 3] ex_dev))
       [0, 8] = map (d_brick_atoms ex_pair) [0, 8] \<and>
   d_brick (make_rho_pass (ex_args\<lparr>nlocal := 2, max_atoms := 2\<rparr>) (launch 2 2) ex_pair) (brick_at ex_args 0 0 0)
     = 91 / 64 \<and>
   (\<exists>s2. make_rho2_pass (ex_args\<lparr>nlocal := 2, max_atoms := 2\<rparr>) ex_uninit (launch 3 3) ex_pair = Some s2 \<and>
          d_brick s2 (brick_at ex_args 0 0 0) = 91 / 64) \<and>
   d_brick (make_rho3_pass (ex_args\<lparr>nlocal := 2, max_atoms := 2\<rparr>) [0, 1, 2, 3] ex_pair) (brick_at ex_args 0 0 0)
     = 9 / 64"
proof -
  let ?A = "ex_args\<lparr>nlocal := 2, max_atoms := 2\<rparr>"
  have m: "d_error_flag (particle_map_pass (ex_args\<lparr>nlocal := 2, max_atoms := 2\<rparr>) [0, 1, 2, 3] ex_dev) = 0 \<and>
     map (d_brick_counts (particle_map_pass (ex_args\<lparr>nlocal := 2, max_atoms := 2\<rparr>) [0, 1, 2, 3] ex_dev))
       [0, 1, 2, 3, 4, 5, 6, 7] = map (d_brick_counts ex_pair) [0, 1, 2, 3, 4, 5, 6, 7] \<and>
     map (d_brick_atoms (particle_map_pass (ex_args\<lparr>nlocal := 2, max_atoms := 2\<rparr>) [0, 1, 2, 3] ex_dev))
       [0, 8] = map (d_brick_atoms ex_pair) [0, 8]"
    by code_simp
  have bf: "brick_fits ?A 3"
    by (simp add: brick_fits_def ex_args_def)
  have af: "args_fit ?A"
    by (simp add: args_fit_def BLOCK_1D_def ex_args_def)
  have tc: "table_copied ?A"
    by (simp add: table_copied_def MAX_STENCIL_def ex_args_def)
  have lf: "lists_fit ?A ex_pair"
    by (simp add: lists_fit_def ex_args_def ex_pair_def ex_dev_def)
  have npz: "0 \<le> npts_z ?A" and px: "npts_x ?A = 3"
    by (simp_all add: ex_args_def)
  have zero: "\<forall>x. d_brick ex_pair x = 0"
    by (simp add: ex_pair_def ex_dev_def)
  have fl: "full_launch ?A 2 2"
    by (simp add: full_launch_def ex_args_def)
  have pt: "(0::int) \<le> 0" "0 < npts_x ?A" "(0::int) \<le> 0" "(0::int) < 3" "(0::int) \<le> 0" "0 < npts_z ?A"
    by (simp_all add: ex_args_def)
  have b: "brick_at ?A 0 0 0 = brick_at ex_args 0 0 0"
    by (simp add: brick_at_def)
  have v: "point_value ?A ex_pair 0 0 0 = 91 / 64"
    by code_simp
  have v3: "d_brick (make_rho3_pass ?A [0, 1, 2, 3] ex_pair) (brick_at ex_args 0 0 0) = 9 / 64"
    by code_simp
  from make_rho_and_make_rho2_agree [OF bf af tc lf npz zero fl refl, of "launch 3 3" 0 0 0 ex_uninit]
    pt px
  have "d_brick (make_rho_pass ?A (launch 2 2) ex_pair) (brick_at ?A 0 0 0) = point_value ?A ex_pair 0 0 0 \<and>
         (\<exists>s2. make_rho2_pass ?A ex_uninit (launch 3 3) ex_pair = Some s2 \<and>
                d_brick s2 (brick_at ?A 0 0 0) = point_value ?A ex_pair 0 0 0)"
    by simp
  then have r: "d_brick (make_rho_pass ?A (launch 2 2) ex_pair) (brick_at ex_args 0 0 0) = 91 / 64 \<and>
         (\<exists>s2. make_rho2_pass ?A ex_uninit (launch 3 3) ex_pair = Some s2 \<and>
                d_brick s2 (brick_at ex_args 0 0 0) = 91 / 64)"
    unfolding b v .
  from m r v3 show ?thesis
    by (elim conjE, intro conjI) assumption+
qed

end
